(* ===== verification/Prelude.thy ===== *)
theory Prelude
  imports Main "HOL-Library.Word" "HOL-Library.AList"
begin

text \<open>
  Shared vocabulary of the round_robin development: the machine integers and byte strings of
  the Rust sources, big-endian encoding (\<open>put_u16\<close>, \<open>put_u32\<close>, \<open>put_u64\<close>, \<open>from_be_bytes\<close>),
  UTF-8 validity (a Rust \<open>String\<close> is a byte vector that passed \<open>String::from_utf8\<close>), and
  the finite tables that stand for \<open>BTreeMap\<close> and \<open>DashMap\<close>.

  A table is an association list with distinct keys; the list order is the iteration order of
  the container, which no theorem fixes.  The collection \<open>table_simps\<close> holds the facts on
  lookup, insertion, removal and on sums over the values that the components share.
\<close>

named_theorems table_simps
named_theorems be_simps

subsection \<open>Types\<close>

type_synonym u8 = "8 word"
type_synonym u16 = "16 word"
type_synonym u32 = "32 word"
type_synonym u64 = "64 word"
type_synonym bytes = "u8 list"

text \<open>A monotonic clock reading (\<open>Instant\<close>, \<open>now_millis\<close>), in milliseconds.\<close>

type_synonym instant = nat

type_synonym ('k, 'v) table = "('k \<times> 'v) list"

subsection \<open>Big-endian integers\<close>

fun to_be :: "nat \<Rightarrow> nat \<Rightarrow> bytes" where
  "to_be 0 x = []"
| "to_be (Suc n) x = to_be n (x div 256) @ [word_of_nat (x mod 256)]"

definition from_be :: "bytes \<Rightarrow> nat" where
  "from_be bs = foldl (\<lambda>acc b. acc * 256 + unat b) 0 bs"

definition put_u16 :: "u16 \<Rightarrow> bytes" where
  "put_u16 w = to_be 2 (unat w)"

definition put_u32 :: "u32 \<Rightarrow> bytes" where
  "put_u32 w = to_be 4 (unat w)"

definition put_u64 :: "u64 \<Rightarrow> bytes" where
  "put_u64 w = to_be 8 (unat w)"

definition from_be_bytes :: "bytes \<Rightarrow> 'a::len word" where
  "from_be_bytes bs = word_of_nat (from_be bs)"

subsection \<open>UTF-8\<close>

definition is_cont :: "u8 \<Rightarrow> bool" where
  "is_cont b \<longleftrightarrow> 0x80 \<le> b \<and> b \<le> 0xBF"

text \<open>
  The well-formed byte sequences of the Unicode standard (table 3-7), which is what
  \<open>String::from_utf8\<close> accepts: no overlong forms, no surrogates, nothing above U+10FFFF.
\<close>

fun utf8_valid :: "bytes \<Rightarrow> bool" where
  "utf8_valid [] = True"
| "utf8_valid (a # rest) =
    (if a < 0x80 then utf8_valid rest
     else if 0xC2 \<le> a \<and> a \<le> 0xDF then
       (case rest of b # r1 \<Rightarrow> is_cont b \<and> utf8_valid r1 | [] \<Rightarrow> False)
     else if 0xE0 \<le> a \<and> a \<le> 0xEF then
       (case rest of
          b # c # r2 \<Rightarrow>
            (if a = 0xE0 then 0xA0 \<le> b \<and> b \<le> 0xBF
             else if a = 0xED then 0x80 \<le> b \<and> b \<le> 0x9F
             else is_cont b) \<and> is_cont c \<and> utf8_valid r2
        | _ \<Rightarrow> False)
     else if 0xF0 \<le> a \<and> a \<le> 0xF4 then
       (case rest of
          b # c # d # r3 \<Rightarrow>
            (if a = 0xF0 then 0x90 \<le> b \<and> b \<le> 0xBF
             else if a = 0xF4 then 0x80 \<le> b \<and> b \<le> 0x8F
             else is_cont b) \<and> is_cont c \<and> is_cont d \<and> utf8_valid r3
        | _ \<Rightarrow> False)
     else False)"

text \<open>The bytes of an ASCII literal of the source.\<close>

definition ascii :: "string \<Rightarrow> bytes" where
  "ascii s = map (\<lambda>c. word_of_nat (of_char c)) s"

subsection \<open>Tables\<close>

abbreviation tget :: "('k, 'v) table \<Rightarrow> 'k \<Rightarrow> 'v option" where
  "tget \<equiv> map_of"

abbreviation tins :: "'k \<Rightarrow> 'v \<Rightarrow> ('k, 'v) table \<Rightarrow> ('k, 'v) table" where
  "tins \<equiv> AList.update"

abbreviation tdel :: "'k \<Rightarrow> ('k, 'v) table \<Rightarrow> ('k, 'v) table" where
  "tdel \<equiv> AList.delete"

definition thas :: "('k, 'v) table \<Rightarrow> 'k \<Rightarrow> bool" where
  "thas t k \<longleftrightarrow> map_of t k \<noteq> None"

definition tkeys :: "('k, 'v) table \<Rightarrow> 'k set" where
  "tkeys t = fst ` set t"

definition twf :: "('k, 'v) table \<Rightarrow> bool" where
  "twf t \<longleftrightarrow> distinct (map fst t)"

definition tsum :: "('v \<Rightarrow> nat) \<Rightarrow> ('k, 'v) table \<Rightarrow> nat" where
  "tsum f t = sum_list (map (f \<circ> snd) t)"


subsection \<open>Lemmas: lists\<close>

lemma append_split_ge:
  assumes "xs @ ys = us @ vs" and "length us \<le> length xs"
  obtains r where "xs = us @ r" and "r @ ys = vs"
proof
  have "take (length us) (xs @ ys) = us" and "drop (length us) (xs @ ys) = vs"
    using assms(1) by simp_all
  then have t: "take (length us) xs = us" and "drop (length us) xs @ ys = vs"
    using assms(2) by simp_all
  then show "drop (length us) xs @ ys = vs" by simp
  show "xs = us @ drop (length us) xs" using append_take_drop_id [of "length us" xs] t by simp
qed

lemma append_split_less:
  assumes "xs @ ys = us @ vs" and "length xs < length us"
  obtains q where "xs @ q = us" and "q \<noteq> []" and "ys = q @ vs"
  using assms append_split_ge [of us vs xs ys] by (metis append_Nil2 less_imp_le less_irrefl)

subsection \<open>Lemmas: big-endian integers\<close>

lemma length_to_be [simp]: "length (to_be n x) = n"
  by (induction n arbitrary: x) auto

lemma to_be_numeral:
  "to_be (numeral k) x = to_be (pred_numeral k) (x div 256) @ [word_of_nat (x mod 256)]"
  by (metis numeral_eq_Suc to_be.simps(2))

lemma put_u16_bytes: "put_u16 w = [word_of_nat (unat w div 256), word_of_nat (unat w)]"
proof -
  have "(word_of_nat (k mod 256) :: u8) = word_of_nat k" for k
    by (simp add: word_unat_eq_iff unat_of_nat)
  then show ?thesis by (simp add: put_u16_def to_be_numeral)
qed

lemma from_be_snoc [simp]: "from_be (bs @ [b]) = from_be bs * 256 + unat b"
  by (simp add: from_be_def)

lemma from_be_Nil [simp]: "from_be [] = 0"
  by (simp add: from_be_def)

lemma unat_less_pow: "unat (w :: 'a::len word) < 2 ^ LENGTH('a)"
  by (rule unsigned_less)

lemma unat_byte_of_nat [simp]: "unat (word_of_nat n :: u8) = n mod 256"
  by (simp add: unat_of_nat)

lemma from_be_to_be: "from_be (to_be n x) = x mod 256 ^ n"
proof (induction n arbitrary: x)
  case 0
  then show ?case by simp
next
  case (Suc n)
  have "x mod 256 ^ Suc n = (x div 256 mod 256 ^ n) * 256 + x mod 256"
    using mod_mult2_eq [of x 256 "256 ^ n"] by (simp add: algebra_simps)
  with Suc.IH [of "x div 256"] show ?case by simp
qed

lemma from_be_bound: "from_be bs < 256 ^ length bs"
proof (induction bs rule: rev_induct)
  case Nil
  then show ?case by simp
next
  case (snoc b bs)
  have "unat b < 256" using unat_less_pow [of b] by simp
  with snoc show ?case by simp
qed

lemma to_be_from_be: "to_be (length bs) (from_be bs) = bs"
proof (induction bs rule: rev_induct)
  case Nil
  then show ?case by simp
next
  case (snoc b bs)
  have "unat b < 256" using unat_less_pow [of b] by simp
  then have "(from_be bs * 256 + unat b) div 256 = from_be bs"
    and "(from_be bs * 256 + unat b) mod 256 = unat b" by simp_all
  with snoc show ?case by simp
qed

lemma length_put_u16 [simp]: "length (put_u16 w) = 2"
  by (simp add: put_u16_def)

lemma length_put_u32 [simp]: "length (put_u32 w) = 4"
  by (simp add: put_u32_def)

lemma length_put_u64 [simp]: "length (put_u64 w) = 8"
  by (simp add: put_u64_def)

lemma from_be_put_u16 [simp]: "from_be (put_u16 w) = unat w"
  using unat_less_pow [of w] by (simp add: put_u16_def from_be_to_be)

lemma from_be_put_u32 [simp]: "from_be (put_u32 w) = unat w"
  using unat_less_pow [of w] by (simp add: put_u32_def from_be_to_be)

lemma from_be_put_u64 [simp]: "from_be (put_u64 w) = unat w"
  using unat_less_pow [of w] by (simp add: put_u64_def from_be_to_be)

lemma be_roundtrip [be_simps]:
  "(from_be_bytes (put_u16 a) :: u16) = a"
  "(from_be_bytes (put_u32 b) :: u32) = b"
  "(from_be_bytes (put_u64 c) :: u64) = c"
  by (simp_all add: from_be_bytes_def)

lemma put_from_be [be_simps]:
  "length bs = 2 \<Longrightarrow> put_u16 (from_be_bytes bs) = bs"
  "length bs = 4 \<Longrightarrow> put_u32 (from_be_bytes bs) = bs"
  "length bs = 8 \<Longrightarrow> put_u64 (from_be_bytes bs) = bs"
  using from_be_bound [of bs] to_be_from_be [of bs]
  by (auto simp: put_u16_def put_u32_def put_u64_def from_be_bytes_def unat_of_nat)

subsection \<open>Lemmas: UTF-8\<close>

lemma utf8_valid_ascii: "\<forall>b \<in> set bs. b < 0x80 \<Longrightarrow> utf8_valid bs"
  by (induction bs) auto

subsection \<open>Lemmas: tables\<close>

lemma twf_Nil [simp, intro]: "twf []"
  by (simp add: twf_def)

lemma twf_tins [simp, intro]: "twf t \<Longrightarrow> twf (tins k v t)"
  by (simp add: twf_def distinct_update)

lemma twf_tdel [simp, intro]: "twf t \<Longrightarrow> twf (tdel k t)"
  by (simp add: twf_def distinct_delete)

lemma twf_filter [simp, intro]: "twf t \<Longrightarrow> twf (filter P t)"
  by (simp add: twf_def distinct_map_filter)

lemma tget_tins [table_simps]: "tget (tins k v t) k' = (if k' = k then Some v else tget t k')"
  by (simp add: update_conv')

lemma tget_tdel [table_simps]: "tget (tdel k t) k' = (if k' = k then None else tget t k')"
  by (simp add: delete_conv')

lemma thas_Nil [simp]: "\<not> thas [] k"
  by (simp add: thas_def)

lemma thas_tins [table_simps]: "thas (tins k v t) k' \<longleftrightarrow> k' = k \<or> thas t k'"
  by (simp add: thas_def tget_tins)

lemma thas_tdel [table_simps]: "thas (tdel k t) k' \<longleftrightarrow> k' \<noteq> k \<and> thas t k'"
  by (simp add: thas_def tget_tdel)

lemma thas_Some: "tget t k = Some v \<Longrightarrow> thas t k"
  by (simp add: thas_def)

lemma thas_tkeys: "thas t k \<longleftrightarrow> k \<in> tkeys t"
  by (simp add: thas_def tkeys_def map_of_eq_None_iff)

lemma tget_in_set: "twf t \<Longrightarrow> tget t k = Some v \<longleftrightarrow> (k, v) \<in> set t"
  by (simp add: twf_def)

lemma tdel_id [simp]: "tget t k = None \<Longrightarrow> tdel k t = t"
  by (induction t) (auto split: if_splits)

lemma tsum_Nil [simp]: "tsum f [] = 0"
  by (simp add: tsum_def)

lemma tsum_Cons [simp]: "tsum f ((k, v) # t) = f v + tsum f t"
  by (simp add: tsum_def)

lemma tsum_append [simp]: "tsum f (t @ u) = tsum f t + tsum f u"
  by (simp add: tsum_def)

lemma tsum_tdel [table_simps]:
  "twf t \<Longrightarrow> tget t k = Some v \<Longrightarrow> tsum f (tdel k t) + f v = tsum f t"
proof (induction t)
  case Nil
  then show ?case by simp
next
  case (Cons p t)
  obtain a b where p: "p = (a, b)" by (cases p)
  show ?case
  proof (cases "a = k")
    case True
    with Cons.prems p have "k \<notin> fst ` set t" "b = v" by (auto simp: twf_def)
    then have "tget t k = None" by (simp add: map_of_eq_None_iff)
    with True p \<open>b = v\<close> show ?thesis by simp
  next
    case False
    with Cons p show ?thesis by (auto simp: twf_def)
  qed
qed

lemma tsum_member_le: "tget t k = Some v \<Longrightarrow> f v \<le> tsum f t"
  by (induction t) (auto split: if_splits)

lemma tsum_tins_fresh [table_simps]:
  "tget t k = None \<Longrightarrow> tsum f (tins k v t) = tsum f t + f v"
  by (induction t) (auto split: if_splits)

lemma tsum_tins_same [table_simps]:
  "tget t k = Some u \<Longrightarrow> tsum f (tins k v t) + f u = tsum f t + f v"
  by (induction t) (auto split: if_splits)

lemma tsum_filter:
  "tsum f (filter P t) + tsum f (filter (\<lambda>p. \<not> P p) t) = tsum f t"
  by (induction t) auto

lemma length_tdel:
  "twf t \<Longrightarrow> tget t k = Some v \<Longrightarrow> Suc (length (tdel k t)) = length t"
  using tsum_tdel [of t k v "\<lambda>_. 1"] by (simp add: tsum_def sum_list_triv comp_def)

lemma length_tins_fresh: "tget t k = None \<Longrightarrow> length (tins k v t) = Suc (length t)"
  by (induction t) (auto split: if_splits)

lemma length_tins_same: "tget t k = Some u \<Longrightarrow> length (tins k v t) = length t"
  by (induction t) (auto split: if_splits)

end
