(* ===== verification/Channel.thy ===== *)
theory Channel
  imports Prelude
begin

text \<open>
  The bounded channels and wake-up flags that every task of the program communicates through
  (\<open>tokio::sync::mpsc\<close> and \<open>tokio::sync::Notify\<close>), by their documented behaviour: a
  channel is a first-in first-out queue with a capacity and a receiver that may be gone;
  \<open>try_send\<close> never waits; \<open>notify_one\<close> stores one permit.

  The locale \<open>bounded_fifo\<close> is the contract the sending loops of the program rely on; its
  lemmas say what such a loop leaves in the channel.
\<close>

record 'a chan =
  ch_queue :: "'a list"
  ch_cap :: nat
  ch_open :: bool

datatype send_result = SendOk | SendFull | SendClosed

type_synonym notify = bool

definition new_chan :: "nat \<Rightarrow> 'a chan" where
  "new_chan cap = \<lparr>ch_queue = [], ch_cap = cap, ch_open = True\<rparr>"

definition try_send :: "'a chan \<Rightarrow> 'a \<Rightarrow> send_result \<times> 'a chan" where
  "try_send c x =
     (if \<not> ch_open c then (SendClosed, c)
      else if length (ch_queue c) \<ge> ch_cap c then (SendFull, c)
      else (SendOk, c\<lparr>ch_queue := ch_queue c @ [x]\<rparr>))"

definition try_recv :: "'a chan \<Rightarrow> 'a option \<times> 'a chan" where
  "try_recv c = (case ch_queue c of [] \<Rightarrow> (None, c) | x # xs \<Rightarrow> (Some x, c\<lparr>ch_queue := xs\<rparr>))"

definition notify_one :: "notify \<Rightarrow> notify" where
  "notify_one n = True"

text \<open>A sending loop that breaks at the first failure, and one that goes on and reports it.\<close>

fun send_until_fail :: "('c \<Rightarrow> 'a \<Rightarrow> send_result \<times> 'c) \<Rightarrow> 'c \<Rightarrow> 'a list \<Rightarrow> bool \<times> 'c" where
  "send_until_fail snd_op c [] = (True, c)"
| "send_until_fail snd_op c (x # xs) =
     (case snd_op c x of (SendOk, c') \<Rightarrow> send_until_fail snd_op c' xs | (_, c') \<Rightarrow> (False, c'))"

fun send_each :: "('c \<Rightarrow> 'a \<Rightarrow> send_result \<times> 'c) \<Rightarrow> 'c \<Rightarrow> 'a list \<Rightarrow> bool \<times> 'c" where
  "send_each snd_op c [] = (False, c)"
| "send_each snd_op c (x # xs) =
     (case snd_op c x of
        (SendOk, c') \<Rightarrow> send_each snd_op c' xs
      | (_, c') \<Rightarrow> (True, Product_Type.snd (send_each snd_op c' xs)))"

locale bounded_fifo =
  fixes send :: "'c \<Rightarrow> 'a \<Rightarrow> send_result \<times> 'c"
    and elems :: "'c \<Rightarrow> 'a list"
    and room :: "'c \<Rightarrow> nat"
  assumes send_room: "0 < room c \<Longrightarrow> \<exists>c'. send c x = (SendOk, c') \<and> elems c' = elems c @ [x]
            \<and> room c' = room c - 1"
    and send_no_room: "room c = 0 \<Longrightarrow> \<exists>r. r \<noteq> SendOk \<and> send c x = (r, c)"
begin

lemma send_until_fail_spec:
  "send_until_fail send c xs = (ok, c') \<Longrightarrow>
     ok = (length xs \<le> room c) \<and> elems c' = elems c @ take (room c) xs
     \<and> room c' = room c - length xs"
proof (induction xs arbitrary: c)
  case Nil
  then show ?case by simp
next
  case (Cons x xs)
  show ?case
  proof (cases "room c")
    case 0
    from send_no_room [OF 0, of x] obtain r where "r \<noteq> SendOk" "send c x = (r, c)" by blast
    with Cons.prems 0 show ?thesis by (cases r) auto
  next
    case (Suc n)
    then obtain c1 where "send c x = (SendOk, c1)" "elems c1 = elems c @ [x]" "room c1 = n"
      using send_room [of c x] by auto
    with Cons.IH [of c1] Cons.prems Suc show ?thesis by simp
  qed
qed

lemma send_each_spec:
  "send_each send c xs = (failed, c') \<Longrightarrow>
     failed = (room c < length xs) \<and> elems c' = elems c @ take (room c) xs
     \<and> room c' = room c - length xs"
proof (induction xs arbitrary: c failed)
  case Nil
  then show ?case by simp
next
  case (Cons x xs)
  show ?case
  proof (cases "room c")
    case 0
    from send_no_room [OF 0, of x] obtain r where r: "r \<noteq> SendOk" "send c x = (r, c)" by blast
    with Cons.prems have "failed" "c' = Product_Type.snd (send_each send c xs)" by (cases r; auto)+
    with Cons.IH [of c "fst (send_each send c xs)"] 0 show ?thesis by simp
  next
    case (Suc n)
    then obtain c1 where "send c x = (SendOk, c1)" "elems c1 = elems c @ [x]" "room c1 = n"
      using send_room [of c x] by auto
    with Cons.IH [of c1] Cons.prems Suc show ?thesis by simp
  qed
qed

end

definition ch_room :: "'a chan \<Rightarrow> nat" where
  "ch_room c = (if ch_open c then ch_cap c - length (ch_queue c) else 0)"

interpretation ch: bounded_fifo try_send ch_queue ch_room
  by unfold_locales (auto simp: try_send_def ch_room_def split: if_splits)

lemma try_send_cases:
  "try_send c x = (SendOk, c\<lparr>ch_queue := ch_queue c @ [x]\<rparr>) \<and> 0 < ch_room c
   \<or> try_send c x = (SendFull, c) \<and> ch_room c = 0 \<and> ch_open c
   \<or> try_send c x = (SendClosed, c) \<and> \<not> ch_open c"
  by (auto simp: try_send_def ch_room_def)

lemma ch_room_pos: "0 < ch_room c \<longleftrightarrow> ch_open c \<and> length (ch_queue c) < ch_cap c"
  by (auto simp: ch_room_def)

lemma try_send_open [simp]: "ch_open (snd (try_send c x)) = ch_open c"
  by (simp add: try_send_def)

lemma send_until_fail_open: "ch_open (snd (send_until_fail try_send c xs)) = ch_open c"
proof (induction xs arbitrary: c)
  case Nil
  then show ?case by simp
next
  case (Cons x xs)
  from try_send_cases [of c x] show ?case
    using Cons.IH [of "c\<lparr>ch_queue := ch_queue c @ [x]\<rparr>"] by (elim disjE conjE) simp_all
qed

end
