(* ===== verification/Frame.thy ===== *)
theory Frame
  imports Prelude
begin

text \<open>
  The wire format of \<open>src/src/frame.rs\<close>: the 15-byte frame header and its payload, the SYN
  payload that names the target of a virtual connection, and the streaming decoder that turns
  the byte stream of one tunnel back into frames.

  The reader of the decoder is the list of results that successive \<open>read_buf\<close> calls return:
  \<open>RdBytes []\<close> is \<open>Ok(0)\<close> (end of stream), \<open>RdBytes bs\<close> a read of \<open>bs\<close> of any size,
  \<open>RdError\<close> an I/O error.  An exhausted list is a reader that has nothing yet (\<open>DBlocked\<close>).
\<close>

unbundle bit_operations_syntax

named_theorems flag_defs
named_theorems frame_consts

subsection \<open>Constants\<close>

definition FLAG_SYN :: u8 where [flag_defs]: "FLAG_SYN = 0x01"
definition FLAG_DATA :: u8 where [flag_defs]: "FLAG_DATA = 0x02"
definition FLAG_FIN :: u8 where [flag_defs]: "FLAG_FIN = 0x04"
definition FLAG_RST :: u8 where [flag_defs]: "FLAG_RST = 0x08"

definition HEADER_LEN :: nat where [frame_consts]: "HEADER_LEN = 4 + 8 + 1 + 2"
definition MAX_PAYLOAD :: nat where [frame_consts]: "MAX_PAYLOAD = 65535"
definition MIN_CHUNK :: nat where [frame_consts]: "MIN_CHUNK = 512"
definition MAX_CHUNK :: nat where [frame_consts]: "MAX_CHUNK = 65535"
definition MAX_REORDER_WINDOW :: nat where [frame_consts]: "MAX_REORDER_WINDOW = 512"
definition MAX_REORDER_BYTES :: nat where [frame_consts]: "MAX_REORDER_BYTES = 64 * 1024 * 1024"
definition MAX_PENDING_CIDS :: nat where [frame_consts]: "MAX_PENDING_CIDS = 256"
definition MAX_PENDING_BYTES :: nat where [frame_consts]: "MAX_PENDING_BYTES = 64 * 1024 * 1024"
definition MAX_DECODER_BUF :: nat where [frame_consts]:
  "MAX_DECODER_BUF = HEADER_LEN + MAX_PAYLOAD + 16384"
definition PROTO_TCP :: u8 where [frame_consts]: "PROTO_TCP = 0x06"
definition PROTO_UDP :: u8 where [frame_consts]: "PROTO_UDP = 0x11"

subsection \<open>Frames\<close>

record frame =
  conn_id :: u32
  seq :: u64
  flags :: u8
  payload :: bytes

datatype frame_error =
    PayloadTooLarge nat
  | SynAddressTooLong nat
  | SynTooShort
  | SynTruncated
  | SynNotUtf8
  | DecoderOverflow
  | EofMidFrame nat
  | ReadError

definition frame_data :: "u32 \<Rightarrow> u64 \<Rightarrow> bytes \<Rightarrow> frame" where
  "frame_data cid sq pl = \<lparr>conn_id = cid, seq = sq, flags = FLAG_DATA, payload = pl\<rparr>"

definition frame_syn :: "u32 \<Rightarrow> bytes \<Rightarrow> frame" where
  "frame_syn cid pl = \<lparr>conn_id = cid, seq = 0, flags = FLAG_SYN, payload = pl\<rparr>"

definition frame_fin :: "u32 \<Rightarrow> u64 \<Rightarrow> frame" where
  "frame_fin cid sq = \<lparr>conn_id = cid, seq = sq, flags = FLAG_FIN, payload = []\<rparr>"

definition frame_rst :: "u32 \<Rightarrow> frame" where
  "frame_rst cid = \<lparr>conn_id = cid, seq = 0, flags = FLAG_RST, payload = []\<rparr>"

text \<open>\<open>frame.flags & mask != 0\<close>\<close>

definition has_flag :: "frame \<Rightarrow> u8 \<Rightarrow> bool" where
  "has_flag f m \<longleftrightarrow> flags f AND m \<noteq> 0"

definition encode_into :: "frame \<Rightarrow> bytes \<Rightarrow> frame_error + bytes" where
  "encode_into f buf =
     (if length (payload f) > MAX_PAYLOAD then Inl (PayloadTooLarge (length (payload f)))
      else Inr (buf @ put_u32 (conn_id f) @ put_u64 (seq f) @ [flags f]
                @ put_u16 (word_of_nat (length (payload f))) @ payload f))"

definition encode :: "frame \<Rightarrow> frame_error + bytes" where
  "encode f = encode_into f []"

subsection \<open>SYN payload\<close>

record syn_target =
  proto :: u8
  address :: bytes
  port :: u16

definition syn_encode :: "syn_target \<Rightarrow> frame_error + bytes" where
  "syn_encode t =
     (if length (address t) > 65535 then Inl (SynAddressTooLong (length (address t)))
      else Inr ([proto t] @ put_u16 (word_of_nat (length (address t))) @ address t
                @ put_u16 (port t)))"

definition syn_decode :: "bytes \<Rightarrow> frame_error + syn_target" where
  "syn_decode p =
     (if length p < 5 then Inl SynTooShort
      else let addr_len = unat (from_be_bytes [p ! 1, p ! 2] :: u16) in
        if length p < 5 + addr_len then Inl SynTruncated
        else let addr = take addr_len (drop 3 p) in
          if \<not> utf8_valid addr then Inl SynNotUtf8
          else Inr \<lparr>proto = p ! 0, address = addr,
                    port = from_be_bytes [p ! (3 + addr_len), p ! (4 + addr_len)]\<rparr>)"

subsection \<open>Streaming decoder\<close>

datatype read_result = RdBytes bytes | RdError

datatype decode_result = DFrame frame | DEof | DErr frame_error | DBlocked

text \<open>The first half of one iteration of \<open>try_next\<close>: a complete frame off the buffer.\<close>

definition parse_buffered :: "bytes \<Rightarrow> frame_error + (frame \<times> bytes) option" where
  "parse_buffered buf =
     (if length buf \<ge> HEADER_LEN then
        let payload_len = unat (from_be_bytes [buf ! 13, buf ! 14] :: u16) in
        if payload_len > MAX_PAYLOAD then Inl (PayloadTooLarge payload_len)
        else if length buf \<ge> HEADER_LEN + payload_len then
          Inr (Some (\<lparr>conn_id = from_be_bytes [buf ! 0, buf ! 1, buf ! 2, buf ! 3],
                      seq = from_be_bytes (take 8 (drop 4 buf)),
                      flags = buf ! 12,
                      payload = take payload_len (drop HEADER_LEN buf)\<rparr>,
                     drop payload_len (drop HEADER_LEN buf)))
        else Inr None
      else Inr None)"

fun try_next :: "bytes \<Rightarrow> read_result list \<Rightarrow> decode_result \<times> bytes \<times> read_result list" where
  "try_next buf rd =
     (case parse_buffered buf of
        Inl e \<Rightarrow> (DErr e, buf, rd)
      | Inr (Some (f, rest)) \<Rightarrow> (DFrame f, rest, rd)
      | Inr None \<Rightarrow>
          if MAX_DECODER_BUF - length buf = 0 then (DErr DecoderOverflow, buf, rd)
          else (case rd of
              [] \<Rightarrow> (DBlocked, buf, [])
            | RdError # rd' \<Rightarrow> (DErr ReadError, buf, rd')
            | RdBytes bs # rd' \<Rightarrow>
                if bs = [] then
                  (if buf = [] then (DEof, buf, rd') else (DErr (EofMidFrame (length buf)), buf, rd'))
                else try_next (buf @ bs) rd'))"

declare try_next.simps [simp del]

text \<open>Bytes a reader still holds: the measure of the decoding loop.\<close>

definition unread :: "read_result list \<Rightarrow> nat" where
  "unread rd = (\<Sum>r\<leftarrow>rd. case r of RdBytes bs \<Rightarrow> length bs | RdError \<Rightarrow> 0)"

lemma unread_simps [simp]:
  "unread [] = 0"
  "unread (RdBytes bs # rd) = length bs + unread rd"
  "unread (RdError # rd) = unread rd"
  "unread (rd @ rd') = unread rd + unread rd'"
  by (simp_all add: unread_def)

lemma parse_buffered_length:
  "parse_buffered buf = Inr (Some (f, rest)) \<Longrightarrow> length rest + HEADER_LEN \<le> length buf"
  by (auto simp: parse_buffered_def Let_def split: if_splits)

lemma try_next_shrinks:
  "try_next buf rd = (DFrame f, buf', rd') \<Longrightarrow>
     length buf' + unread rd' < length buf + unread rd"
proof (induction buf rd rule: try_next.induct)
  case (1 buf rd)
  show ?case
  proof (cases "\<exists>p. parse_buffered buf = Inr (Some p)")
    case True
    then obtain g rest where "parse_buffered buf = Inr (Some (g, rest))" by fastforce
    with "1.prems" parse_buffered_length [of buf g rest] show ?thesis
      by (subst (asm) try_next.simps) (auto simp: frame_consts)
  next
    case False
    with "1.prems" obtain bs rd'' where rd: "rd = RdBytes bs # rd''" "bs \<noteq> []"
      "parse_buffered buf = Inr None" "MAX_DECODER_BUF - length buf \<noteq> 0"
      "try_next (buf @ bs) rd'' = (DFrame f, buf', rd')"
      by (subst (asm) try_next.simps)
         (auto split: sum.splits option.splits if_splits list.splits read_result.splits)
    with "1.IH" [OF rd(3) refl rd(4,1) refl rd(2) rd(5)] show ?thesis by simp
  qed
qed

text \<open>
  The decoding loop of both \<open>tunnel_read_loop\<close>s, without the handlers: frames until
  \<open>try_next\<close> returns something else.
\<close>

function decode_stream :: "bytes \<Rightarrow> read_result list \<Rightarrow> frame list \<times> decode_result" where
  "decode_stream buf rd =
     (case try_next buf rd of
        (DFrame f, buf', rd') \<Rightarrow> (let (fs, r) = decode_stream buf' rd' in (f # fs, r))
      | (r, _, _) \<Rightarrow> ([], r))"
  by pat_completeness auto
termination
  by (relation "measure (\<lambda>(buf, rd). length buf + unread rd)") (auto dest: try_next_shrinks [OF sym])

declare decode_stream.simps [simp del]


subsection \<open>Lemmas: encoding\<close>

lemma flag_tests [simp]:
  "has_flag (frame_data c s p) FLAG_DATA" "\<not> has_flag (frame_data c s p) FLAG_SYN"
  "\<not> has_flag (frame_data c s p) FLAG_FIN" "\<not> has_flag (frame_data c s p) FLAG_RST"
  "has_flag (frame_syn c p) FLAG_SYN" "\<not> has_flag (frame_syn c p) FLAG_DATA"
  "\<not> has_flag (frame_syn c p) FLAG_FIN" "\<not> has_flag (frame_syn c p) FLAG_RST"
  "has_flag (frame_fin c s) FLAG_FIN" "\<not> has_flag (frame_fin c s) FLAG_SYN"
  "\<not> has_flag (frame_fin c s) FLAG_DATA" "\<not> has_flag (frame_fin c s) FLAG_RST"
  "has_flag (frame_rst c) FLAG_RST" "\<not> has_flag (frame_rst c) FLAG_SYN"
  "\<not> has_flag (frame_rst c) FLAG_DATA" "\<not> has_flag (frame_rst c) FLAG_FIN"
  by (simp_all add: has_flag_def frame_data_def frame_syn_def frame_fin_def frame_rst_def flag_defs)

lemma frame_fields [simp]:
  "conn_id (frame_data c s p) = c" "seq (frame_data c s p) = s" "payload (frame_data c s p) = p"
  "conn_id (frame_syn c p) = c" "payload (frame_syn c p) = p"
  "conn_id (frame_fin c s) = c" "seq (frame_fin c s) = s" "payload (frame_fin c s) = []"
  "conn_id (frame_rst c) = c" "payload (frame_rst c) = []"
  by (simp_all add: frame_data_def frame_syn_def frame_fin_def frame_rst_def)

lemma encode_Inr_iff:
  "encode f = Inr w \<longleftrightarrow> length (payload f) \<le> MAX_PAYLOAD \<and>
     w = put_u32 (conn_id f) @ put_u64 (seq f) @ [flags f]
         @ put_u16 (word_of_nat (length (payload f))) @ payload f"
  by (auto simp: encode_def encode_into_def)

lemma encode_length: "encode f = Inr w \<Longrightarrow> length w = HEADER_LEN + length (payload f)"
  by (auto simp: encode_Inr_iff frame_consts)

lemma nth_pair_take: "Suc i < length xs \<Longrightarrow> [xs ! i, xs ! Suc i] = take 2 (drop i xs)"
  by (simp add: numeral_2_eq_2 take_Suc_conv_app_nth)

lemma nth_quad_take: "4 \<le> length xs \<Longrightarrow> [xs ! 0, xs ! 1, xs ! 2, xs ! 3] = take 4 xs"
  by (auto simp: numeral_eq_Suc Suc_le_length_iff)

text \<open>The parser, with its byte accesses read as slices.\<close>

lemma parse_buffered_slices:
  "parse_buffered buf =
     (if length buf < HEADER_LEN then Inr None
      else let n = from_be (take 2 (drop 13 buf)) in
        if length buf < HEADER_LEN + n then Inr None
        else Inr (Some (\<lparr>conn_id = from_be_bytes (take 4 buf),
                         seq = from_be_bytes (take 8 (drop 4 buf)),
                         flags = buf ! 12, payload = take n (drop HEADER_LEN buf)\<rparr>,
                        drop (HEADER_LEN + n) buf)))"
proof (cases "length buf < HEADER_LEN")
  case True
  then show ?thesis by (simp add: parse_buffered_def)
next
  case False
  then have len: "15 \<le> length buf" by (simp add: frame_consts)
  have p: "[buf ! 13, buf ! 14] = take 2 (drop 13 buf)"
    using len nth_pair_take [of 13 buf] by simp
  have q: "[buf ! 0, buf ! 1, buf ! 2, buf ! 3] = take 4 buf"
    using len nth_quad_take [of buf] by simp
  have "from_be (take 2 (drop 13 buf)) < 256 ^ 2"
    using from_be_bound [of "take 2 (drop 13 buf)"] len by simp
  then have n: "unat (from_be_bytes (take 2 (drop 13 buf)) :: u16) = from_be (take 2 (drop 13 buf))"
    and le: "from_be (take 2 (drop 13 buf)) \<le> MAX_PAYLOAD"
    by (simp_all add: from_be_bytes_def unat_of_nat frame_consts)
  from False le show ?thesis
    unfolding parse_buffered_def p q n Let_def by (simp add: add.commute)
qed

lemma parse_encoded:
  assumes "encode f = Inr w"
  shows "parse_buffered (w @ rest) = Inr (Some (f, rest))"
proof -
  let ?a = "put_u32 (conn_id f)" and ?b = "put_u64 (seq f)"
  let ?c = "put_u16 (word_of_nat (length (payload f)))"
  define X where "X = w @ rest"
  from assms have w: "X = ?a @ ?b @ [flags f] @ ?c @ payload f @ rest"
    and len: "length (payload f) \<le> 65535" by (simp_all add: X_def encode_Inr_iff frame_consts)
  have c: "take 2 (drop 13 X) = ?c" and a: "take 4 X = ?a" and b: "take 8 (drop 4 X) = ?b"
    and fl: "X ! 12 = flags f" and pl: "drop 15 X = payload f @ rest"
    unfolding w by (simp_all add: nth_append)
  have n: "from_be ?c = length (payload f)"
    using len by (simp add: unat_of_nat)
  have "drop (15 + length (payload f)) X = rest"
    using pl drop_drop [of "length (payload f)" 15 X] by (simp add: add.commute)
  moreover have "\<not> length X < HEADER_LEN + length (payload f)"
    unfolding w by (simp add: frame_consts)
  ultimately have "parse_buffered X = Inr (Some (f, rest))"
    unfolding parse_buffered_slices c a b fl n Let_def
    by (simp add: frame_consts pl be_simps)
  then show ?thesis by (simp add: X_def)
qed

lemma parse_incomplete:
  assumes "encode f = Inr w" and "buf @ rest = w" and "rest \<noteq> []"
  shows "parse_buffered buf = Inr None"
proof (cases "length buf < HEADER_LEN")
  case True
  then show ?thesis by (simp add: parse_buffered_slices)
next
  case False
  then have len: "15 \<le> length buf" by (simp add: frame_consts)
  have "take 2 (drop 13 (buf @ rest)) = put_u16 (word_of_nat (length (payload f)))"
    using assms(1,2) by (simp add: encode_Inr_iff)
  then have "take 2 (drop 13 buf) = put_u16 (word_of_nat (length (payload f)))"
    using len by simp
  moreover have "length (payload f) \<le> 65535"
    using assms(1) by (simp add: encode_Inr_iff frame_consts)
  ultimately have n: "from_be (take 2 (drop 13 buf)) = length (payload f)"
    by (simp add: unat_of_nat)
  have "length buf < HEADER_LEN + length (payload f)"
    using encode_length [OF assms(1)] assms(2,3) by (cases rest) auto
  with n show ?thesis by (simp add: parse_buffered_slices)
qed


subsection \<open>Lemmas: decoding\<close>

lemma try_next_parsed:
  "parse_buffered buf = Inr (Some (f, rest)) \<Longrightarrow> try_next buf rd = (DFrame f, rest, rd)"
  by (subst try_next.simps) simp

lemma try_next_reads:
  "parse_buffered buf = Inr None \<Longrightarrow> length buf < MAX_DECODER_BUF \<Longrightarrow> bs \<noteq> [] \<Longrightarrow>
     try_next buf (RdBytes bs # rd) = try_next (buf @ bs) rd"
  by (subst try_next.simps) simp

text \<open>A buffer without a complete frame is shorter than the largest frame.\<close>

lemma parse_None_short:
  assumes "parse_buffered buf = Inr None"
  shows "length buf < HEADER_LEN + MAX_PAYLOAD"
proof -
  let ?t = "take 2 (drop 13 buf)"
  have "from_be ?t < 256 ^ length ?t" by (rule from_be_bound)
  also have "\<dots> \<le> 256 ^ 2" by (rule power_increasing) simp_all
  finally have "from_be ?t \<le> MAX_PAYLOAD" by (simp add: frame_consts)
  with assms show ?thesis
    unfolding parse_buffered_slices Let_def by (auto split: if_splits)
qed

lemma parse_never_fails: "parse_buffered buf \<noteq> Inl e"
  by (simp add: parse_buffered_slices Let_def)

text \<open>
  One frame off a stream that starts with an encoded frame, however it is cut into reads: the
  buffer and the unread reads keep exactly the bytes behind it.
\<close>

lemma try_next_encoded:
  assumes "encode f = Inr w" and "[] \<notin> set cs" and "buf @ concat cs = w @ rest"
  shows "\<exists>buf' cs'. try_next buf (map RdBytes cs @ rd) = (DFrame f, buf', map RdBytes cs' @ rd)
           \<and> buf' @ concat cs' = rest \<and> [] \<notin> set cs'"
  using assms(2,3)
proof (induction cs arbitrary: buf)
  case Nil
  then have "try_next buf rd = (DFrame f, rest, rd)"
    using parse_encoded [OF assms(1)] by (simp add: try_next_parsed)
  then show ?case by (intro exI [of _ rest] exI [of _ "[]"]) simp
next
  case (Cons c cs)
  show ?case
  proof (cases "length w \<le> length buf")
    case True
    with Cons.prems(2) obtain r where r: "buf = w @ r" "r @ concat (c # cs) = rest"
      by (rule append_split_ge)
    then have "try_next buf (map RdBytes (c # cs) @ rd) = (DFrame f, r, map RdBytes (c # cs) @ rd)"
      using parse_encoded [OF assms(1)] by (simp add: try_next_parsed)
    with r(2) Cons.prems(1) show ?thesis by blast
  next
    case False
    then have "length buf < length w" by simp
    with Cons.prems(2) obtain q where q: "buf @ q = w" "q \<noteq> []"
      by (rule append_split_less)
    have none: "parse_buffered buf = Inr None" by (rule parse_incomplete [OF assms(1) q])
    then have "length buf < MAX_DECODER_BUF"
      using parse_None_short [of buf] by (simp add: frame_consts)
    moreover have "c \<noteq> []" using Cons.prems(1) by auto
    ultimately have "try_next buf (map RdBytes (c # cs) @ rd) = try_next (buf @ c) (map RdBytes cs @ rd)"
      using none by (simp add: try_next_reads)
    with Cons.IH [of "buf @ c"] Cons.prems show ?thesis by simp
  qed
qed

lemma decode_stream_frame:
  "try_next buf rd = (DFrame f, buf', rd') \<Longrightarrow>
     decode_stream buf rd = (f # fst (decode_stream buf' rd'), snd (decode_stream buf' rd'))"
  by (subst decode_stream.simps) (simp add: case_prod_beta)

lemma decode_stream_encoded:
  assumes "map encode fs = map Inr ws" and "[] \<notin> set cs" and "buf @ concat cs = concat ws @ rest"
  shows "\<exists>buf' cs'. buf' @ concat cs' = rest \<and> [] \<notin> set cs' \<and>
           decode_stream buf (map RdBytes cs @ rd) =
             (fs @ fst (decode_stream buf' (map RdBytes cs' @ rd)),
              snd (decode_stream buf' (map RdBytes cs' @ rd)))"
  using assms
proof (induction fs arbitrary: ws buf cs)
  case Nil
  then show ?case by (intro exI [of _ buf] exI [of _ cs]) simp
next
  case (Cons f fs)
  from Cons.prems(1) obtain w ws' where ws: "ws = w # ws'" "encode f = Inr w"
    "map encode fs = map Inr ws'" by (cases ws) auto
  with Cons.prems(3) have "buf @ concat cs = w @ (concat ws' @ rest)" by simp
  from try_next_encoded [OF ws(2) Cons.prems(2) this, of rd] obtain buf1 cs1 where
    1: "try_next buf (map RdBytes cs @ rd) = (DFrame f, buf1, map RdBytes cs1 @ rd)"
       "buf1 @ concat cs1 = concat ws' @ rest" "[] \<notin> set cs1" by blast
  from Cons.IH [OF ws(3) 1(3,2)] obtain buf' cs' where
    "buf' @ concat cs' = rest" "[] \<notin> set cs'"
    "decode_stream buf1 (map RdBytes cs1 @ rd) =
       (fs @ fst (decode_stream buf' (map RdBytes cs' @ rd)),
        snd (decode_stream buf' (map RdBytes cs' @ rd)))" by blast
  then show ?case
    using decode_stream_frame [OF 1(1)] by (intro exI [of _ buf'] exI [of _ cs']) simp
qed

lemma try_next_at_eof: "try_next [] (RdBytes [] # rd) = (DEof, [], rd)"
  by (subst try_next.simps) (simp add: parse_buffered_def frame_consts)


text \<open>The bytes a reader delivers before it ends: those ahead of the first end or error.\<close>

fun stream_bytes :: "read_result list \<Rightarrow> bytes" where
  "stream_bytes [] = []"
| "stream_bytes (RdError # rd) = []"
| "stream_bytes (RdBytes bs # rd) = (if bs = [] then [] else bs @ stream_bytes rd)"

lemma take_header_split:
  "take (15 + n) xs = take 4 xs @ take 8 (drop 4 xs) @ take 1 (drop 12 xs) @ take 2 (drop 13 xs)
     @ take n (drop 15 xs)"
  using take_add [of 15 n xs] take_add [of 13 2 xs] take_add [of 12 1 xs] take_add [of 4 8 xs]
  by simp

text \<open>What the parser takes off the buffer is the encoding of the frame it returns.\<close>

lemma parse_buffered_sound:
  assumes "parse_buffered buf = Inr (Some (f, rest))"
  shows "\<exists>w. encode f = Inr w \<and> buf = w @ rest"
proof -
  let ?n = "from_be (take 2 (drop 13 buf))"
  from assms have len: "15 + ?n \<le> length buf" and rest: "rest = drop (15 + ?n) buf"
    and f: "f = \<lparr>conn_id = from_be_bytes (take 4 buf), seq = from_be_bytes (take 8 (drop 4 buf)),
               flags = buf ! 12, payload = take ?n (drop 15 buf)\<rparr>"
    by (auto simp: parse_buffered_slices Let_def frame_consts split: if_splits)
  have pl: "length (payload f) = ?n" using len f by simp
  have n: "?n \<le> 65535" using from_be_bound [of "take 2 (drop 13 buf)"] len by simp
  have "word_of_nat ?n = (from_be_bytes (take 2 (drop 13 buf)) :: u16)"
    by (simp add: from_be_bytes_def)
  then have c: "put_u16 (word_of_nat (length (payload f))) = take 2 (drop 13 buf)"
    using pl len be_simps(4) [of "take 2 (drop 13 buf)"] by simp
  have a: "put_u32 (conn_id f) = take 4 buf" and b: "put_u64 (seq f) = take 8 (drop 4 buf)"
    using len be_simps(5) [of "take 4 buf"] be_simps(6) [of "take 8 (drop 4 buf)"] f by simp_all
  have fl: "[flags f] = take 1 (drop 12 buf)"
    using len f by (simp add: take_Suc_conv_app_nth)
  let ?w = "take (15 + ?n) buf"
  have "?w = take 4 buf @ take 8 (drop 4 buf) @ take 1 (drop 12 buf) @ take 2 (drop 13 buf)
      @ take ?n (drop 15 buf)"
    by (rule take_header_split)
  moreover have "payload f = take ?n (drop 15 buf)" using f by simp
  ultimately have "encode f = Inr ?w"
    unfolding encode_Inr_iff a b c fl using n pl by (simp add: frame_consts)
  moreover have "buf = ?w @ rest" using rest by simp
  ultimately show ?thesis by blast
qed


text \<open>One call of the decoder loses no byte: what it returned, kept and left unread is the stream.\<close>

lemma try_next_conserves:
  "try_next buf rd = (DFrame f, buf', rd') \<Longrightarrow>
     \<exists>w. encode f = Inr w \<and> buf @ stream_bytes rd = w @ buf' @ stream_bytes rd'"
proof (induction buf rd rule: try_next.induct)
  case (1 buf rd)
  show ?case
  proof (cases "\<exists>p. parse_buffered buf = Inr (Some p)")
    case True
    then obtain g rest where p: "parse_buffered buf = Inr (Some (g, rest))" by fastforce
    with "1.prems" have "g = f" "rest = buf'" "rd' = rd" by (auto simp: try_next_parsed)
    with parse_buffered_sound [OF p] show ?thesis by auto
  next
    case False
    with "1.prems" obtain bs rd'' where rd: "rd = RdBytes bs # rd''" "bs \<noteq> []"
      "parse_buffered buf = Inr None" "MAX_DECODER_BUF - length buf \<noteq> 0"
      "try_next (buf @ bs) rd'' = (DFrame f, buf', rd')"
      by (subst (asm) try_next.simps)
         (auto split: sum.splits option.splits if_splits list.splits read_result.splits)
    with "1.IH" [OF rd(3) refl rd(4,1) refl rd(2) rd(5)] show ?thesis by simp
  qed
qed

text \<open>The results a decoder can return at all.\<close>

lemma try_next_results:
  "\<exists>f buf' rd'. try_next buf rd = (DFrame f, buf', rd') \<or>
     (fst (try_next buf rd) \<in> {DEof, DBlocked, DErr ReadError}
      \<or> (\<exists>n < HEADER_LEN + MAX_PAYLOAD. fst (try_next buf rd) = DErr (EofMidFrame n)))"
proof (induction buf rd rule: try_next.induct)
  case (1 buf rd)
  show ?case
  proof (cases "parse_buffered buf")
    case (Inl e)
    then show ?thesis using parse_never_fails by blast
  next
    case (Inr r)
    show ?thesis
    proof (cases r)
      case (Some p)
      with Inr show ?thesis by (cases p) (auto simp: try_next_parsed)
    next
      case None
      with Inr have short: "length buf < HEADER_LEN + MAX_PAYLOAD" by (simp add: parse_None_short)
      then have space: "MAX_DECODER_BUF - length buf \<noteq> 0" by (simp add: frame_consts)
      have eq: "try_next buf rd =
          (case rd of
              [] \<Rightarrow> (DBlocked, buf, [])
            | RdError # rd' \<Rightarrow> (DErr ReadError, buf, rd')
            | RdBytes bs # rd' \<Rightarrow>
                if bs = [] then
                  (if buf = [] then (DEof, buf, rd') else (DErr (EofMidFrame (length buf)), buf, rd'))
                else try_next (buf @ bs) rd')"
        using Inr None space by (subst try_next.simps) simp
      show ?thesis
      proof (cases "\<exists>bs rd'. rd = RdBytes bs # rd' \<and> bs \<noteq> []")
        case True
        then obtain bs rd' where rd: "rd = RdBytes bs # rd'" "bs \<noteq> []" by blast
        then have step: "try_next buf rd = try_next (buf @ bs) rd'" using eq by simp
        have "parse_buffered buf = Inr None" using Inr None by simp
        from "1" [OF this refl space rd(1) refl rd(2)] show ?thesis by (simp only: step)
      next
        case False
        with short show ?thesis
          unfolding eq by (auto split: list.splits read_result.splits)
      qed
    qed
  qed
qed

lemma decode_stream_conserves:
  "decode_stream buf rd = (fs, r) \<Longrightarrow>
     \<exists>ws tail. map encode fs = map Inr ws \<and> buf @ stream_bytes rd = concat ws @ tail"
proof (induction buf rd arbitrary: fs r rule: decode_stream.induct)
  case (1 buf rd)
  show ?case
  proof (cases "\<exists>f buf' rd'. try_next buf rd = (DFrame f, buf', rd')")
    case True
    then obtain f buf' rd' where t: "try_next buf rd = (DFrame f, buf', rd')" by blast
    obtain gs r' where g: "decode_stream buf' rd' = (gs, r')" by fastforce
    from "1.IH" [OF t [symmetric] refl refl g] obtain ws tail where
      ws: "map encode gs = map Inr ws" "buf' @ stream_bytes rd' = concat ws @ tail" by blast
    from try_next_conserves [OF t] obtain w where
      w: "encode f = Inr w" "buf @ stream_bytes rd = w @ buf' @ stream_bytes rd'" by blast
    have "fs = f # gs" using "1.prems" decode_stream_frame [OF t] g by simp
    with ws w show ?thesis by (intro exI [of _ "w # ws"] exI [of _ tail]) simp
  next
    case False
    then have "fs = []"
      using "1.prems" by (subst (asm) decode_stream.simps) (auto split: prod.splits decode_result.splits)
    then show ?thesis by (intro exI [of _ "[]"] exI [of _ "buf @ stream_bytes rd"]) simp
  qed
qed

lemma decode_stream_results:
  "snd (decode_stream buf rd) \<in> {DEof, DBlocked, DErr ReadError}
     \<or> (\<exists>n < HEADER_LEN + MAX_PAYLOAD. snd (decode_stream buf rd) = DErr (EofMidFrame n))"
proof (induction buf rd rule: decode_stream.induct)
  case (1 buf rd)
  show ?case
  proof (cases "\<exists>f buf' rd'. try_next buf rd = (DFrame f, buf', rd')")
    case True
    then obtain f buf' rd' where t: "try_next buf rd = (DFrame f, buf', rd')" by blast
    from "1.IH" [OF t [symmetric] refl refl] show ?thesis using decode_stream_frame [OF t] by simp
  next
    case False
    then have "snd (decode_stream buf rd) = fst (try_next buf rd)"
      by (subst decode_stream.simps) (auto split: prod.splits decode_result.splits)
    with False try_next_results [of buf rd] show ?thesis by simp
  qed
qed

subsection \<open>Lemmas: SYN payload\<close>

lemma syn_encode_Inr_iff:
  "syn_encode t = Inr w \<longleftrightarrow> length (address t) \<le> 65535 \<and>
     w = [proto t] @ put_u16 (word_of_nat (length (address t))) @ address t @ put_u16 (port t)"
  by (auto simp: syn_encode_def)

text \<open>The SYN parser, with its byte accesses read as slices.\<close>

lemma syn_decode_slices:
  assumes "5 \<le> length p"
  shows "syn_decode p =
     (let n = from_be (take 2 (drop 1 p)) in
      if length p < 5 + n then Inl SynTruncated
      else if \<not> utf8_valid (take n (drop 3 p)) then Inl SynNotUtf8
      else Inr \<lparr>proto = p ! 0, address = take n (drop 3 p),
                port = from_be_bytes (take 2 (drop (3 + n) p))\<rparr>)"
proof -
  have a: "[p ! 1, p ! 2] = take 2 (drop 1 p)"
    using assms nth_pair_take [of 1 p] by (simp add: numeral_2_eq_2)
  have "from_be (take 2 (drop 1 p)) < 256 ^ 2"
    using from_be_bound [of "take 2 (drop 1 p)"] assms by simp
  then have n: "unat (from_be_bytes (take 2 (drop 1 p)) :: u16) = from_be (take 2 (drop 1 p))"
    by (simp add: from_be_bytes_def unat_of_nat)
  let ?n = "from_be (take 2 (drop 1 p))"
  show ?thesis
  proof (cases "length p < 5 + ?n")
    case True
    with assms show ?thesis unfolding syn_decode_def a n Let_def by simp
  next
    case False
    then have "[p ! (3 + ?n), p ! (4 + ?n)] = take 2 (drop (3 + ?n) p)"
      using nth_pair_take [of "3 + ?n" p] by simp
    with False assms show ?thesis unfolding syn_decode_def a n Let_def by simp
  qed
qed

lemma syn_decode_encoded:
  assumes "syn_encode t = Inr w" and "utf8_valid (address t)"
  shows "syn_decode (w @ tail) = Inr t"
proof -
  let ?c = "put_u16 (word_of_nat (length (address t)))"
  define X where "X = w @ tail"
  from assms have w: "X = [proto t] @ ?c @ address t @ put_u16 (port t) @ tail"
    and len: "length (address t) \<le> 65535" by (simp_all add: X_def syn_encode_Inr_iff)
  have c: "take 2 (drop 1 X) = ?c" and pr: "X ! 0 = proto t"
    and ad: "take (length (address t)) (drop 3 X) = address t"
    and po: "take 2 (drop (3 + length (address t)) X) = put_u16 (port t)"
    and ln: "5 \<le> length X" "\<not> length X < 5 + length (address t)"
    unfolding w by (simp_all add: numeral_3_eq_3)
  have n: "from_be ?c = length (address t)" using len by (simp add: unat_of_nat)
  have "syn_decode X = Inr t"
    unfolding syn_decode_slices [OF ln(1)] c n Let_def
    using assms(2) by (simp add: ad po pr ln(2) be_simps)
  then show ?thesis by (simp add: X_def)
qed

lemma syn_payload_split:
  "p = (take 1 p @ take 2 (drop 1 p) @ take n (drop 3 p) @ take 2 (drop (3 + n) p)) @ drop (5 + n) p"
proof -
  have "take (5 + n) p = take (3 + n) p @ take 2 (drop (3 + n) p)"
    using take_add [of "3 + n" 2 p] by (simp add: add.commute)
  moreover have "take (3 + n) p = take 3 p @ take n (drop 3 p)" by (rule take_add)
  moreover have "take 3 p = take 1 p @ take 2 (drop 1 p)"
    using take_add [of 1 2 p] by (simp add: numeral_3_eq_3)
  ultimately show ?thesis using append_take_drop_id [of "5 + n" p] by (metis append_assoc)
qed

lemma syn_decode_inverse:
  assumes "syn_decode p = Inr t"
  shows "utf8_valid (address t) \<and> (\<exists>w tail. syn_encode t = Inr w \<and> p = w @ tail)"
proof -
  from assms have len5: "5 \<le> length p" by (auto simp: syn_decode_def split: if_splits)
  define n where "n = from_be (take 2 (drop 1 p))"
  from assms have len: "5 + n \<le> length p" and u: "utf8_valid (take n (drop 3 p))"
    and t: "t = \<lparr>proto = p ! 0, address = take n (drop 3 p),
                port = from_be_bytes (take 2 (drop (3 + n) p))\<rparr>"
    by (auto simp: syn_decode_slices [OF len5] Let_def n_def split: if_splits)
  have n: "n \<le> 65535" using from_be_bound [of "take 2 (drop 1 p)"] len5 by (simp add: n_def)
  have la: "length (address t) = n" using t len by simp
  have "word_of_nat n = (from_be_bytes (take 2 (drop 1 p)) :: u16)"
    by (simp add: from_be_bytes_def n_def)
  then have c: "put_u16 (word_of_nat (length (address t))) = take 2 (drop 1 p)"
    using la len5 be_simps(4) [of "take 2 (drop 1 p)"] by simp
  have po: "put_u16 (port t) = take 2 (drop (3 + n) p)"
    using t len be_simps(4) [of "take 2 (drop (3 + n) p)"] by simp
  have pr: "[proto t] = take 1 p" using t len5 by (cases p) simp_all
  have ad: "take n (drop 3 p) = address t" using t by simp
  have "syn_encode t =
      Inr (take 1 p @ take 2 (drop 1 p) @ take n (drop 3 p) @ take 2 (drop (3 + n) p))"
    unfolding syn_encode_Inr_iff c po pr ad using la n by simp
  with u ad syn_payload_split [of p n] show ?thesis by auto
qed

lemma syn_decode_unique:
  assumes "syn_encode t = Inr w" and "syn_decode w = Inr t'"
  shows "t' = t"
proof -
  obtain w' tail where e: "syn_encode t' = Inr w'" "w = w' @ tail" using syn_decode_inverse [OF assms(2)] by blast
  have len: "length (address t) \<le> 65535" "length (address t') \<le> 65535"
    using assms(1) e(1) by (simp_all add: syn_encode_Inr_iff)
  have "proto t' = proto t"
    and c: "put_u16 (word_of_nat (length (address t'))) = put_u16 (word_of_nat (length (address t)))"
    and r: "address t' @ put_u16 (port t') @ tail = address t @ put_u16 (port t)"
    using assms(1) e by (simp_all add: syn_encode_Inr_iff append_eq_append_conv)
  moreover have la: "length (address t') = length (address t)"
    using arg_cong [OF c, of from_be] len by (simp add: unat_of_nat)
  moreover have "tail = []" using arg_cong [OF r, of length] la by simp
  moreover from calculation r have "address t' = address t" "put_u16 (port t') = put_u16 (port t)" by simp_all
  moreover from this have "port t' = port t" using be_simps by metis
  ultimately show ?thesis by simp
qed

subsection \<open>Properties\<close>

text \<open>
  C14. Frames survive the tunnel byte stream, however the transport cuts it: encode any frames
  that encode at all, cut the concatenated bytes into non-empty reads in any way, and the
  decoder returns exactly these frames and then a clean end of stream.
\<close>

theorem decode_any_chunking:
  assumes "map encode fs = map Inr ws"
    and "concat cs = concat ws" and "[] \<notin> set cs"
  shows "decode_stream [] (map RdBytes cs @ [RdBytes []]) = (fs, DEof)"
proof -
  from decode_stream_encoded [OF assms(1,3), of "[]" "[]" "[RdBytes []]"] assms(2)
  obtain buf' cs' where e: "buf' = []" "concat cs' = []" "[] \<notin> set cs'"
    "decode_stream [] (map RdBytes cs @ [RdBytes []]) =
       (fs @ fst (decode_stream buf' (map RdBytes cs' @ [RdBytes []])),
        snd (decode_stream buf' (map RdBytes cs' @ [RdBytes []])))" by auto
  from e(2,3) have "cs' = []" by (cases cs') auto
  moreover have "decode_stream [] [RdBytes []] = ([], DEof)"
    by (subst decode_stream.simps) (simp add: try_next_at_eof)
  ultimately show ?thesis using e by simp
qed

theorem decode_any_chunking_witness:
  "decode_stream [] (map RdBytes [[0, 0], [0, 7, 0, 0, 0, 0, 0, 0, 0, 1, 2, 0, 1, 65, 0],
       [0, 0, 7, 0, 0, 0, 0, 0, 0, 0, 2, 4, 0, 0]] @ [RdBytes []])
     = ([frame_data 7 1 [65], frame_fin 7 2], DEof)"
  by (rule decode_any_chunking
        [of _ "[[0, 0, 0, 7, 0, 0, 0, 0, 0, 0, 0, 1, 2, 0, 1, 65],
                [0, 0, 0, 7, 0, 0, 0, 0, 0, 0, 0, 2, 4, 0, 0]]"])
     (simp_all add: encode_Inr_iff frame_consts flag_defs put_u32_def put_u64_def put_u16_def
        to_be_numeral frame_data_def frame_fin_def)


text \<open>
  The decoder invents nothing: whatever the reads deliver, the frames returned encode, and
  their encodings are exactly the bytes consumed, in order; only an incomplete tail is kept.
\<close>

theorem decode_stream_sound:
  "\<exists>ws tail. map encode (fst (decode_stream [] rd)) = map Inr ws
     \<and> stream_bytes rd = concat ws @ tail"
  using decode_stream_conserves [of "[]" rd "fst (decode_stream [] rd)" "snd (decode_stream [] rd)"]
  by simp

text \<open>
  The decoder's own limit checks never fire: a stream ends, blocks, fails with the reader's
  error or ends inside a frame of at most 65550 bytes.  Neither the oversized-payload check nor
  the buffer-overflow check of \<open>try_next\<close> can be reached by any peer.
\<close>

theorem decoder_limits_unreachable:
  "snd (decode_stream [] rd) \<in> {DEof, DBlocked, DErr ReadError}
     \<or> (\<exists>n < 65550. snd (decode_stream [] rd) = DErr (EofMidFrame n))"
  using decode_stream_results [of "[]" rd] by (simp add: frame_consts)

text \<open>
  C18. SYN payloads: decoding returns a target exactly when the payload starts with the encoding
  of that target and the address is valid UTF-8; bytes after the port are ignored.
\<close>

theorem syn_decode_iff:
  "syn_decode p = Inr t \<longleftrightarrow>
     utf8_valid (address t) \<and> (\<exists>w tail. syn_encode t = Inr w \<and> p = w @ tail)"
  using syn_decode_encoded syn_decode_inverse by blast

end
