(* ===== verification/Tunnel.thy ===== *)
theory Tunnel
  imports Complex_Main Channel Frame
begin

text \<open>
  The tunnel pool of \<open>src/src/tunnel.rs\<close>: the links and their queues, round-robin sending of
  control frames, weighted scheduling of DATA frames, the idle sweep, and the drain task that
  writes the queue of one link to its socket.

  A link is a record; \<open>lk_id\<close> is the identity of its \<open>Arc\<close> (what \<open>Arc::ptr_eq\<close> compares).
  Byte and frame counters and the clock are 64-bit words.  The drain rate is a real number; the
  arithmetic of the scheduler is \<open>f64\<close> arithmetic, so \<open>weighted_pick\<close> takes the rounding
  function \<open>rnd\<close> that is applied to the exact result of every operation.  What the theorems
  say of the picked link holds for every \<open>rnd\<close>; the shares are those of exact arithmetic
  (\<open>rnd = id\<close>).  \<open>ewma_rate\<close> is over the reals.
\<close>

subsection \<open>Links\<close>

definition TUNNEL_CHANNEL_CAP :: nat where "TUNNEL_CHANNEL_CAP = 128"
definition RATE_EWMA_TAU_SECS :: real where "RATE_EWMA_TAU_SECS = 2.5"
definition LINK_IDLE_TIMEOUT :: u64 where "LINK_IDLE_TIMEOUT = 600 * 1000"
definition FLOOR_SHARE :: real where "FLOOR_SHARE = 0.05"
definition WEIGHT_GRID :: nat where "WEIGHT_GRID = 1024"

record link =
  lk_id :: nat
  lk_chan :: "frame chan"
  lk_alive :: bool
  lk_bytes_sent :: u64
  lk_bytes_recv :: u64
  lk_frames_sent :: u64
  lk_frames_recv :: u64
  lk_stop :: notify
  lk_writer_died :: notify
  lk_last_active :: u64
  lk_lost :: "frame list"
  lk_rate :: real

text \<open>The \<open>TunnelLink\<close> literal of both sides: a fresh live link.\<close>

definition new_link :: "nat \<Rightarrow> u64 \<Rightarrow> link" where
  "new_link i now_ms =
     \<lparr>lk_id = i, lk_chan = new_chan TUNNEL_CHANNEL_CAP, lk_alive = True,
      lk_bytes_sent = 0, lk_bytes_recv = 0, lk_frames_sent = 0, lk_frames_recv = 0,
      lk_stop = False, lk_writer_died = False, lk_last_active = now_ms, lk_lost = [], lk_rate = 0\<rparr>"

definition ewma_rate :: "real \<Rightarrow> real \<Rightarrow> real \<Rightarrow> real" where
  "ewma_rate prev inst dt_secs =
     (let alpha = 1 - exp (- dt_secs / RATE_EWMA_TAU_SECS)
      in prev * (1 - alpha) + inst * alpha)"

subsection \<open>The pool\<close>

text \<open>\<open>pl_added\<close> counts the \<open>notify_waiters\<close> calls of \<open>added\<close>.\<close>

record pool =
  pl_links :: "link list"
  pl_rr :: u64
  pl_added :: nat

definition pool_new :: pool where
  "pool_new = \<lparr>pl_links = [], pl_rr = 0, pl_added = 0\<rparr>"

definition pool_add :: "pool \<Rightarrow> link \<Rightarrow> pool" where
  "pool_add p l = p\<lparr>pl_links := pl_links p @ [l], pl_added := Suc (pl_added p)\<rparr>"

definition link_count :: "pool \<Rightarrow> nat" where
  "link_count p = length (pl_links p)"

definition alive_count :: "pool \<Rightarrow> nat" where
  "alive_count p = length (filter lk_alive (pl_links p))"

definition compact :: "pool \<Rightarrow> pool" where
  "compact p =
     (let ls = filter lk_alive (pl_links p)
      in if length ls \<noteq> length (pl_links p) then p\<lparr>pl_links := ls, pl_rr := 0\<rparr>
         else p\<lparr>pl_links := ls\<rparr>)"

definition saturating_sub :: "u64 \<Rightarrow> u64 \<Rightarrow> u64" where
  "saturating_sub a b = (if a < b then 0 else a - b)"

definition is_idle :: "u64 \<Rightarrow> u64 \<Rightarrow> link \<Rightarrow> bool" where
  "is_idle now_ms idle_limit_ms l \<longleftrightarrow>
     lk_alive l \<and> saturating_sub now_ms (lk_last_active l) > idle_limit_ms"

definition sweep_idle :: "u64 \<Rightarrow> u64 \<Rightarrow> pool \<Rightarrow> nat \<times> pool" where
  "sweep_idle now_ms idle_limit_ms p =
     (length (filter (is_idle now_ms idle_limit_ms) (pl_links p)),
      p\<lparr>pl_links := map (\<lambda>l. if is_idle now_ms idle_limit_ms l
                            then l\<lparr>lk_alive := False, lk_stop := notify_one (lk_stop l)\<rparr> else l)
                       (pl_links p)\<rparr>)"

definition stats :: "pool \<Rightarrow> nat \<times> nat" where
  "stats p = (length (filter lk_alive (pl_links p)), length (pl_links p))"

text \<open>\<open>tx.capacity()\<close> of a link's channel is the room left in it.\<close>

definition queue_depth :: "pool \<Rightarrow> nat" where
  "queue_depth p =
     (\<Sum>l\<leftarrow>filter lk_alive (pl_links p). TUNNEL_CHANNEL_CAP - ch_room (lk_chan l))"

subsection \<open>Sending control frames: round robin\<close>

fun send_from :: "frame \<Rightarrow> nat list \<Rightarrow> link list \<Rightarrow> bool \<times> link list" where
  "send_from f [] ls = (False, ls)"
| "send_from f (j # js) ls =
     (let l = ls ! j in
      if \<not> lk_alive l then send_from f js ls
      else case try_send (lk_chan l) f of
             (SendOk, c) \<Rightarrow> (True, ls[j := l\<lparr>lk_chan := c\<rparr>])
           | (SendClosed, _) \<Rightarrow> send_from f js (ls[j := l\<lparr>lk_alive := False\<rparr>])
           | (SendFull, _) \<Rightarrow> send_from f js ls)"

definition pool_send :: "frame \<Rightarrow> pool \<Rightarrow> bool \<times> pool" where
  "pool_send f p =
     (let n = length (pl_links p) in
      if n = 0 then (False, p)
      else let start = unat (pl_rr p) mod n;
               (ok, ls) = send_from f (map (\<lambda>i. (start + i) mod n) [0..<n]) (pl_links p)
           in (ok, p\<lparr>pl_links := ls, pl_rr := pl_rr p + 1\<rparr>))"

subsection \<open>Sending DATA frames: weighted pick\<close>

definition f64_sum :: "(real \<Rightarrow> real) \<Rightarrow> real list \<Rightarrow> real" where
  "f64_sum rnd xs = foldl (\<lambda>acc x. rnd (acc + x)) 0 xs"

definition pick_weights :: "(real \<Rightarrow> real) \<Rightarrow> real list \<Rightarrow> real list" where
  "pick_weights rnd raw =
     (let total = f64_sum rnd raw in
      if total > 0 then
        let mean = rnd (total / real (length raw));
            floor_w = rnd (rnd FLOOR_SHARE * total)
        in map (\<lambda>r. max (if r > 0 then r else mean) floor_w) raw
      else replicate (length raw) 1)"

fun pick_walk :: "(real \<Rightarrow> real) \<Rightarrow> real \<Rightarrow> real \<Rightarrow> (link \<times> real) list \<Rightarrow> link option" where
  "pick_walk rnd anchor acc [] = None"
| "pick_walk rnd anchor acc ((l, w) # rest) =
     (let acc' = rnd (acc + w) in
      if anchor < acc' then Some l else pick_walk rnd anchor acc' rest)"

definition weighted_pick :: "(real \<Rightarrow> real) \<Rightarrow> nat list \<Rightarrow> pool \<Rightarrow> link option \<times> pool" where
  "weighted_pick rnd skip p =
     (let alive = filter (\<lambda>l. lk_alive l \<and> lk_id l \<notin> set skip) (pl_links p) in
      if alive = [] then (None, p)
      else
        let raw = map (\<lambda>l. max (lk_rate l) 0) alive;
            weights = pick_weights rnd raw;
            total = f64_sum rnd weights;
            anchor = rnd (rnd (real (unat (pl_rr p) mod WEIGHT_GRID) / real WEIGHT_GRID) * total);
            p' = p\<lparr>pl_rr := pl_rr p + 1\<rparr>
        in case pick_walk rnd anchor 0 (zip alive weights) of
             Some l \<Rightarrow> (Some l, p')
           | None \<Rightarrow> (Some (last alive), p'))"

text \<open>Writing through the \<open>Arc\<close> of a link: every entry with its identity.\<close>

definition upd_link :: "nat \<Rightarrow> (link \<Rightarrow> link) \<Rightarrow> pool \<Rightarrow> pool" where
  "upd_link i g p = p\<lparr>pl_links := map (\<lambda>l. if lk_id l = i then g l else l) (pl_links p)\<rparr>"

text \<open>
  One iteration of \<open>send_async\<close>: sent; pick again with a changed skip list (a link found closed
  or full); sleep a millisecond and start over (all live links full); wait for \<open>added\<close>.
\<close>

datatype async_outcome = Sent | Repick "nat list" | SleepRetry | AwaitAdded "nat list"

definition send_async_iter :: "(real \<Rightarrow> real) \<Rightarrow> frame \<Rightarrow> nat list \<Rightarrow> pool \<Rightarrow> async_outcome \<times> pool" where
  "send_async_iter rnd f full p =
     (case weighted_pick rnd full p of
        (Some l, p') \<Rightarrow>
          (case try_send (lk_chan l) f of
             (SendOk, c) \<Rightarrow> (Sent, upd_link (lk_id l) (\<lambda>l. l\<lparr>lk_chan := c\<rparr>) p')
           | (SendClosed, _) \<Rightarrow> (Repick full, upd_link (lk_id l) (\<lambda>l. l\<lparr>lk_alive := False\<rparr>) p')
           | (SendFull, _) \<Rightarrow> (Repick (full @ [lk_id l]), p'))
      | (None, p') \<Rightarrow>
          if filter lk_alive (pl_links p') \<noteq> [] then (SleepRetry, p')
          else (AwaitAdded full, p'))"


lemma pick_walk_member: "pick_walk rnd anchor acc xs = Some l \<Longrightarrow> l \<in> fst ` set xs"
  by (induction rnd anchor acc xs rule: pick_walk.induct) (auto simp: Let_def split: if_splits)

lemma weighted_pick_links [simp]: "pl_links (snd (weighted_pick rnd skip p)) = pl_links p"
  by (simp add: weighted_pick_def Let_def split: option.splits)

lemma weighted_pick_None:
  "weighted_pick rnd skip p = (None, p') \<longleftrightarrow>
     p' = p \<and> (\<forall>l \<in> set (pl_links p). lk_alive l \<longrightarrow> lk_id l \<in> set skip)"
  by (auto simp: weighted_pick_def Let_def filter_empty_conv split: option.splits)

lemma weighted_pick_Some:
  assumes "weighted_pick rnd skip p = (Some l, p')"
  shows "l \<in> set (pl_links p) \<and> lk_alive l \<and> lk_id l \<notin> set skip
         \<and> p' = p\<lparr>pl_rr := pl_rr p + 1\<rparr>"
proof -
  let ?alive = "filter (\<lambda>l. lk_alive l \<and> lk_id l \<notin> set skip) (pl_links p)"
  from assms have ne: "?alive \<noteq> []" by (auto simp: weighted_pick_def Let_def)
  then have "last ?alive \<in> set ?alive" by (rule last_in_set)
  then have "l \<in> set ?alive \<and> p' = p\<lparr>pl_rr := pl_rr p + 1\<rparr>"
    using assms ne unfolding weighted_pick_def Let_def
    by (auto dest!: pick_walk_member dest: set_zip_leftD split: option.splits)
  then show ?thesis by simp
qed

text \<open>
  The iterations of \<open>send_async\<close> up to the next point where it waits.  Every \<open>Repick\<close> takes one
  live link out of the race, so the burst ends.
\<close>

definition candidates :: "nat list \<Rightarrow> pool \<Rightarrow> link list" where
  "candidates full p = filter (\<lambda>l. lk_alive l \<and> lk_id l \<notin> set full) (pl_links p)"

lemma filter_strict:
  "x \<in> set xs \<Longrightarrow> P x \<Longrightarrow> \<not> Q x \<Longrightarrow> (\<And>y. Q y \<Longrightarrow> P y) \<Longrightarrow>
     length (filter Q xs) < length (filter P xs)"
proof (induction xs)
  case Nil
  then show ?case by simp
next
  case (Cons y ys)
  have le: "length (filter Q ys) \<le> length (filter P ys)"
    using Cons.prems(4) by (induction ys) auto
  show ?case
  proof (cases "x = y")
    case True
    then show ?thesis using Cons.prems le by auto
  next
    case False
    then show ?thesis using Cons by auto
  qed
qed

lemma filter_mark_dead:
  "filter (\<lambda>l. lk_alive l \<and> lk_id l \<notin> S) (map (\<lambda>m. if lk_id m = i then m\<lparr>lk_alive := False\<rparr> else m) ls)
   = filter (\<lambda>m. lk_id m \<noteq> i \<and> lk_alive m \<and> lk_id m \<notin> S) ls"
  by (induction ls) auto

lemma repick_decreases:
  assumes "send_async_iter rnd f full p = (Repick full', p')"
  shows "length (candidates full' p') < length (candidates full p)"
proof (cases "weighted_pick rnd full p")
  case (Pair r q)
  from assms Pair obtain l where r: "r = Some l"
    by (cases r) (auto simp: send_async_iter_def split: if_splits)
  note pick = weighted_pick_Some [OF Pair [unfolded r]]
  from try_send_cases [of "lk_chan l" f] assms Pair r consider
      "full' = full" "p' = upd_link (lk_id l) (\<lambda>l. l\<lparr>lk_alive := False\<rparr>) q"
    | "full' = full @ [lk_id l]" "p' = q"
    by (auto simp: send_async_iter_def)
  then show ?thesis
  proof cases
    case 1
    let ?Q = "\<lambda>m. lk_id m \<noteq> lk_id l \<and> lk_alive m \<and> lk_id m \<notin> set full"
    have "candidates full' p' = filter ?Q (pl_links p)"
      using 1 pick by (simp add: candidates_def upd_link_def filter_mark_dead)
    moreover have "length (filter ?Q (pl_links p)) < length (candidates full p)"
      unfolding candidates_def by (rule filter_strict [of l]) (use pick in auto)
    ultimately show ?thesis by simp
  next
    case 2
    then show ?thesis
      unfolding candidates_def using pick by (auto intro!: filter_strict [of l])
  qed
qed

function send_async_burst ::
    "(real \<Rightarrow> real) \<Rightarrow> frame \<Rightarrow> nat list \<Rightarrow> pool \<Rightarrow> async_outcome \<times> pool" where
  "send_async_burst rnd f full p =
     (case send_async_iter rnd f full p of
        (Repick full', p') \<Rightarrow> send_async_burst rnd f full' p'
      | r \<Rightarrow> r)"
  by pat_completeness auto
termination
  by (relation "measure (\<lambda>(rnd, f, full, p). length (candidates full p))")
     (auto dest: repick_decreases [OF sym])

declare send_async_burst.simps [simp del]


subsection \<open>The drain task\<close>

text \<open>
  \<open>drain_frames\<close> as a state machine.  \<open>dr_wire\<close> is what the socket got.  \<open>dr_rate\<close> and
  \<open>dr_last\<close> (seconds) are the locals of the rate measurement.  Three ghost fields record the
  history and are read by no operation: the frames the channel accepted, the frames written in
  full, and the frames taken from the channel and neither written nor reported.

  Every arm of the two \<open>select!\<close>s is an event: the stop permit, the closed channel, and a
  received frame together with how its write ends (stopped, written at a time, failed or timed
  out; \<open>k\<close> bytes of an unfinished write reached the socket).  \<open>EvSend\<close> and \<open>EvStop\<close> are what
  other tasks do to the link meanwhile.  An event whose guard does not hold changes nothing.
\<close>

record drain =
  dr_link :: link
  dr_dead :: bool
  dr_rate :: real
  dr_last :: real
  dr_wire :: bytes
  dr_accepted :: "frame list"
  dr_written :: "frame list"
  dr_dropped :: "frame list"

datatype write_end = WrStop nat | WrOk u64 real | WrFail nat

datatype drain_event = EvSend frame | EvStop | DrStop | DrClosed | DrFrame write_end

definition drain_init :: "link \<Rightarrow> real \<Rightarrow> drain" where
  "drain_init l now = \<lparr>dr_link = l, dr_dead = False, dr_rate = 0, dr_last = now, dr_wire = [],
     dr_accepted = [], dr_written = [], dr_dropped = []\<rparr>"

definition lose_frame :: "frame \<Rightarrow> drain \<Rightarrow> drain" where
  "lose_frame f d = d\<lparr>dr_link := (dr_link d)\<lparr>lk_lost := lk_lost (dr_link d) @ [f]\<rparr>, dr_dead := True\<rparr>"

definition wrote_frame :: "frame \<Rightarrow> u64 \<Rightarrow> real \<Rightarrow> drain \<Rightarrow> drain" where
  "wrote_frame f now_ms now d =
     (let l = dr_link d; n = length (payload f); dt = max 0 (now - dr_last d);
          l1 = l\<lparr>lk_bytes_sent := lk_bytes_sent l + word_of_nat n,
                 lk_frames_sent := lk_frames_sent l + 1, lk_last_active := now_ms\<rparr>;
          d1 = d\<lparr>dr_link := l1, dr_last := now, dr_written := dr_written d @ [f]\<rparr>
      in if dt > 0 then
           let rate = ewma_rate (dr_rate d) (real n / dt) dt
           in d1\<lparr>dr_rate := rate, dr_link := l1\<lparr>lk_rate := rate\<rparr>\<rparr>
         else d1)"

definition drain_frame :: "write_end \<Rightarrow> drain \<Rightarrow> drain" where
  "drain_frame w d =
     (case try_recv (lk_chan (dr_link d)) of
        (None, _) \<Rightarrow> d
      | (Some f, c) \<Rightarrow>
          let d1 = d\<lparr>dr_link := (dr_link d)\<lparr>lk_chan := c\<rparr>\<rparr> in
          (case encode_into f [] of
             Inl e \<Rightarrow> lose_frame f d1
           | Inr enc \<Rightarrow>
               (case w of
                  WrStop k \<Rightarrow>
                    if lk_stop (dr_link d1) then
                      lose_frame f (d1\<lparr>dr_link := (dr_link d1)\<lparr>lk_stop := False\<rparr>,
                                       dr_wire := dr_wire d1 @ take k enc\<rparr>)
                    else d
                | WrOk now_ms now \<Rightarrow> wrote_frame f now_ms now (d1\<lparr>dr_wire := dr_wire d1 @ enc\<rparr>)
                | WrFail k \<Rightarrow> d1\<lparr>dr_wire := dr_wire d1 @ take k enc, dr_dead := True,
                                 dr_dropped := dr_dropped d1 @ [f]\<rparr>)))"

definition drain_step :: "drain \<Rightarrow> drain_event \<Rightarrow> drain" where
  "drain_step d ev =
     (let l = dr_link d in
      case ev of
        EvSend f \<Rightarrow>
          (case try_send (lk_chan l) f of
             (SendOk, c) \<Rightarrow> d\<lparr>dr_link := l\<lparr>lk_chan := c\<rparr>, dr_accepted := dr_accepted d @ [f]\<rparr>
           | _ \<Rightarrow> d)
      | EvStop \<Rightarrow> d\<lparr>dr_link := l\<lparr>lk_stop := notify_one (lk_stop l)\<rparr>\<rparr>
      | DrStop \<Rightarrow> if \<not> dr_dead d \<and> lk_stop l
                  then d\<lparr>dr_link := l\<lparr>lk_stop := False\<rparr>, dr_dead := True\<rparr> else d
      | DrClosed \<Rightarrow> if \<not> dr_dead d \<and> ch_queue (lk_chan l) = [] then d\<lparr>dr_dead := True\<rparr> else d
      | DrFrame w \<Rightarrow> if dr_dead d then d else drain_frame w d)"

text \<open>
  After the loop: report what is still queued, release the reader.  The receiver is dropped when
  the function returns, after \<open>wr.shutdown().await\<close>.
\<close>

definition drain_finish :: "drain \<Rightarrow> drain" where
  "drain_finish d =
     (let l = dr_link d in
      d\<lparr>dr_link := l\<lparr>lk_lost := lk_lost l @ ch_queue (lk_chan l),
                      lk_chan := (lk_chan l)\<lparr>ch_queue := []\<rparr>,
                      lk_writer_died := notify_one (lk_writer_died l)\<rparr>\<rparr>)"

definition drain_drop :: "drain \<Rightarrow> drain" where
  "drain_drop d =
     d\<lparr>dr_link := (dr_link d)\<lparr>lk_chan := (lk_chan (dr_link d))\<lparr>ch_queue := [], ch_open := False\<rparr>\<rparr>\<rparr>"

subsection \<open>Lemmas: round-robin send\<close>

definition can_take :: "link \<Rightarrow> bool" where
  "can_take l \<longleftrightarrow> lk_alive l \<and> 0 < ch_room (lk_chan l)"

definition enq :: "frame \<Rightarrow> link \<Rightarrow> link" where
  "enq f l = l\<lparr>lk_chan := (lk_chan l)\<lparr>ch_queue := ch_queue (lk_chan l) @ [f]\<rparr>\<rparr>"

text \<open>A link that a send passed over: unchanged, or marked dead because its channel is closed.\<close>

definition passed_over :: "link \<Rightarrow> link \<Rightarrow> bool" where
  "passed_over l l' \<longleftrightarrow> l' = l \<or> lk_alive l \<and> \<not> ch_open (lk_chan l) \<and> l' = l\<lparr>lk_alive := False\<rparr>"

lemma passed_over_refl [simp]: "passed_over l l"
  by (simp add: passed_over_def)

lemma passed_over_fields:
  "passed_over l l' \<Longrightarrow> lk_id l' = lk_id l \<and> lk_chan l' = lk_chan l \<and> lk_lost l' = lk_lost l
     \<and> (lk_alive l' \<longrightarrow> lk_alive l)"
  by (auto simp: passed_over_def)

lemma send_from_closed:
  "lk_alive (ls ! j) \<Longrightarrow> \<not> ch_open (lk_chan (ls ! j)) \<Longrightarrow>
     send_from f (j # js) ls = send_from f js (ls[j := (ls ! j)\<lparr>lk_alive := False\<rparr>])"
  by (simp add: try_send_def Let_def)

lemma send_from_skip:
  "\<not> can_take (ls ! j) \<Longrightarrow> \<not> lk_alive (ls ! j) \<or> ch_open (lk_chan (ls ! j)) \<Longrightarrow>
     send_from f (j # js) ls = send_from f js ls"
  by (auto simp: try_send_def can_take_def ch_room_def Let_def)

lemma send_from_take:
  "can_take (ls ! j) \<Longrightarrow> send_from f (j # js) ls = (True, ls[j := enq f (ls ! j)])"
  by (auto simp: try_send_def can_take_def ch_room_def enq_def Let_def split: if_splits)

declare send_from.simps(2) [simp del]

lemma send_from_spec:
  assumes "distinct js" and "\<forall>j \<in> set js. j < length ls" and "send_from f js ls = (ok, ls')"
  shows "length ls' = length ls \<and>
    (if ok then \<exists>j \<in> set js. can_take (ls ! j) \<and> ls' ! j = enq f (ls ! j)
        \<and> (\<forall>i < length ls. i \<noteq> j \<longrightarrow> passed_over (ls ! i) (ls' ! i))
     else (\<forall>j \<in> set js. \<not> can_take (ls ! j)) \<and> (\<forall>i < length ls. passed_over (ls ! i) (ls' ! i)))"
  using assms
proof (induction js arbitrary: ls)
  case Nil
  then show ?case by simp
next
  case (Cons j js)
  consider "can_take (ls ! j)" | "lk_alive (ls ! j)" "\<not> ch_open (lk_chan (ls ! j))"
    | "\<not> can_take (ls ! j)" "\<not> lk_alive (ls ! j) \<or> ch_open (lk_chan (ls ! j))" by blast
  then show ?case
  proof cases
    case 1
    with Cons.prems show ?thesis by (auto simp: send_from_take nth_list_update)
  next
    case 2
    let ?l = "(ls ! j)\<lparr>lk_alive := False\<rparr>"
    let ?ls = "ls[j := ?l]"
    have nt: "\<not> can_take (ls ! j)" using 2 by (simp add: can_take_def ch_room_def)
    have po: "passed_over (ls ! i) (ls' ! i)"
      if "passed_over (?ls ! i) (ls' ! i)" "i < length ls" for i
      using that 2 by (cases "i = j") (auto simp: passed_over_def)
    have eq: "?ls ! i = ls ! i" if "i \<in> set js" for i
      using that Cons.prems(1) by (metis distinct.simps(2) nth_list_update_neq)
    from Cons.IH [of ?ls] Cons.prems 2 po nt show ?thesis
      by (auto simp: send_from_closed eq split: if_splits)
  next
    case 3
    with Cons show ?thesis by (auto simp: send_from_skip split: if_splits)
  qed
qed

lemma rotation_indices:
  assumes "0 < n"
  shows "distinct (map (\<lambda>i. (s + i) mod n) [0..<n])" and "set (map (\<lambda>i. (s + i) mod n) [0..<n]) = {..<n}"
proof -
  let ?f = "\<lambda>i. (s + i) mod n"
  have inj: "inj_on ?f {..<n}"
  proof (rule inj_onI)
    fix i j assume "i \<in> {..<n}" "j \<in> {..<n}" "?f i = ?f j"
    then have "i mod n = j mod n" using nat_mod_eq_iff [of i n j] nat_mod_eq_iff [of "s + i" n "s + j"]
      by (auto simp: add.assoc)
    with \<open>i \<in> {..<n}\<close> \<open>j \<in> {..<n}\<close> show "i = j" by simp
  qed
  then show "distinct (map ?f [0..<n])" by (simp add: distinct_map lessThan_atLeast0)
  have "?f ` {..<n} \<subseteq> {..<n}" using assms by auto
  with inj have "?f ` {..<n} = {..<n}" by (simp add: endo_inj_surj)
  then show "set (map ?f [0..<n]) = {..<n}" by (simp add: lessThan_atLeast0)
qed

text \<open>The effect of a send on the links: one queue got the frame, or none did.\<close>

definition enqueued_once :: "frame \<Rightarrow> link list \<Rightarrow> link list \<Rightarrow> bool" where
  "enqueued_once f ls ls' \<longleftrightarrow> length ls' = length ls \<and>
     (\<exists>j < length ls. can_take (ls ! j) \<and> ls' ! j = enq f (ls ! j)
        \<and> (\<forall>i < length ls. i \<noteq> j \<longrightarrow> passed_over (ls ! i) (ls' ! i)))"

definition only_passed :: "link list \<Rightarrow> link list \<Rightarrow> bool" where
  "only_passed ls ls' \<longleftrightarrow> list_all2 passed_over ls ls'"

lemma only_passed_refl [simp]: "only_passed ls ls"
  by (simp add: only_passed_def list_all2_refl)

lemma passed_over_can_take: "passed_over l l' \<Longrightarrow> can_take l' \<longleftrightarrow> can_take l"
  by (auto simp: passed_over_def can_take_def ch_room_def)

lemma passed_over_take_eq: "passed_over l l' \<Longrightarrow> can_take l' \<Longrightarrow> l' = l"
  by (auto simp: passed_over_def can_take_def)

lemma passed_over_trans: "passed_over l l' \<Longrightarrow> passed_over l' l'' \<Longrightarrow> passed_over l l''"
  by (auto simp: passed_over_def)

lemma only_passed_trans: "only_passed ls ls' \<Longrightarrow> only_passed ls' ls'' \<Longrightarrow> only_passed ls ls''"
  unfolding only_passed_def by (rule list_all2_trans [OF passed_over_trans])

lemma only_passed_ids: "only_passed ls ls' \<Longrightarrow> map lk_id ls' = map lk_id ls"
  unfolding only_passed_def by (induction rule: list_all2_induct) (auto dest: passed_over_fields)

lemma only_passed_can_take:
  "only_passed ls ls' \<Longrightarrow> (\<exists>l \<in> set ls'. can_take l) \<longleftrightarrow> (\<exists>l \<in> set ls. can_take l)"
  unfolding only_passed_def by (induction rule: list_all2_induct) (auto simp: passed_over_can_take)

lemma only_passed_then_enqueued:
  assumes "only_passed ls ls1" and "enqueued_once f ls1 ls2"
  shows "enqueued_once f ls ls2"
proof -
  from assms(1) have len: "length ls1 = length ls"
    and po: "\<And>i. i < length ls \<Longrightarrow> passed_over (ls ! i) (ls1 ! i)"
    by (auto simp: only_passed_def list_all2_conv_all_nth)
  from assms(2) obtain j where j: "j < length ls1" "can_take (ls1 ! j)" "ls2 ! j = enq f (ls1 ! j)"
    "\<forall>i < length ls1. i \<noteq> j \<longrightarrow> passed_over (ls1 ! i) (ls2 ! i)" "length ls2 = length ls1"
    by (auto simp: enqueued_once_def)
  with po [of j] len have "ls1 ! j = ls ! j" by (simp add: passed_over_take_eq)
  with j po len show ?thesis by (auto simp: enqueued_once_def intro: passed_over_trans)
qed

lemma pool_send_spec:
  assumes "pool_send f p = (ok, p')"
  shows "pl_added p' = pl_added p \<and> ok = (\<exists>l \<in> set (pl_links p). can_take l) \<and>
    (if ok then enqueued_once f (pl_links p) (pl_links p')
     else only_passed (pl_links p) (pl_links p'))"
proof (cases "pl_links p = []")
  case True
  with assms show ?thesis by (simp add: pool_send_def)
next
  case False
  let ?n = "length (pl_links p)" and ?s = "unat (pl_rr p) mod length (pl_links p)"
  let ?js = "map (\<lambda>i. (?s + i) mod ?n) [0..<?n]"
  from False have n: "0 < ?n" by simp
  obtain ls where ls: "send_from f ?js (pl_links p) = (ok, ls)"
    "p' = p\<lparr>pl_links := ls, pl_rr := pl_rr p + 1\<rparr>"
    using assms False by (auto simp: pool_send_def Let_def split: prod.splits)
  have "\<forall>j \<in> set ?js. j < ?n" using rotation_indices(2) [OF n, of ?s] by blast
  from send_from_spec [OF rotation_indices(1) [OF n] this ls(1)] show ?thesis
    unfolding rotation_indices(2) [OF n] using ls(2)
    by (auto simp: Bex_def in_set_conv_nth enqueued_once_def only_passed_def list_all2_conv_all_nth
        split: if_splits)
qed

subsection \<open>Lemmas: weighted send\<close>

definition pool_wf :: "pool \<Rightarrow> bool" where
  "pool_wf p \<longleftrightarrow> distinct (map lk_id (pl_links p))"

lemma upd_link_one:
  assumes "pool_wf p" and "j < length (pl_links p)"
  shows "pl_links (upd_link (lk_id (pl_links p ! j)) g p) = (pl_links p)[j := g (pl_links p ! j)]"
proof (rule nth_equalityI)
  show "length (pl_links (upd_link (lk_id (pl_links p ! j)) g p))
      = length ((pl_links p)[j := g (pl_links p ! j)])" by (simp add: upd_link_def)
next
  fix i assume "i < length (pl_links (upd_link (lk_id (pl_links p ! j)) g p))"
  then have i: "i < length (pl_links p)" by (simp add: upd_link_def)
  have "lk_id (pl_links p ! i) = lk_id (pl_links p ! j) \<longleftrightarrow> i = j"
    using assms i nth_eq_iff_index_eq [of "map lk_id (pl_links p)" i j] by (simp add: pool_wf_def)
  with i show "pl_links (upd_link (lk_id (pl_links p ! j)) g p) ! i
      = (pl_links p)[j := g (pl_links p ! j)] ! i"
    by (simp add: upd_link_def nth_list_update)
qed

lemma send_async_iter_spec:
  assumes wf: "pool_wf p" and it: "send_async_iter rnd f full p = (out, p')"
    and stuck: "\<forall>l \<in> set (pl_links p). lk_id l \<in> set full \<longrightarrow> \<not> can_take l"
  shows "case out of
      Sent \<Rightarrow> enqueued_once f (pl_links p) (pl_links p')
    | Repick full' \<Rightarrow> only_passed (pl_links p) (pl_links p')
        \<and> (\<forall>l \<in> set (pl_links p'). lk_id l \<in> set full' \<longrightarrow> \<not> can_take l)
    | SleepRetry \<Rightarrow> p' = p \<and> (\<forall>l \<in> set (pl_links p). \<not> can_take l)
        \<and> (\<exists>l \<in> set (pl_links p). lk_alive l)
    | AwaitAdded full' \<Rightarrow> p' = p \<and> (\<forall>l \<in> set (pl_links p). \<not> lk_alive l)"
proof (cases "weighted_pick rnd full p")
  case (Pair r q)
  show ?thesis
  proof (cases r)
    case None
    from weighted_pick_None [of rnd full p q] Pair None have q: "q = p"
      and al: "\<forall>l \<in> set (pl_links p). lk_alive l \<longrightarrow> lk_id l \<in> set full" by simp_all
    with stuck have "\<forall>l \<in> set (pl_links p). \<not> can_take l" by (auto simp: can_take_def)
    with it Pair None q show ?thesis
      by (auto simp: send_async_iter_def filter_empty_conv split: if_splits)
  next
    case (Some l)
    from weighted_pick_Some [OF Pair [unfolded Some]] have l: "l \<in> set (pl_links p)" "lk_alive l"
      and q: "q = p\<lparr>pl_rr := pl_rr p + 1\<rparr>" by simp_all
    from l(1) obtain j where j: "j < length (pl_links p)" "pl_links p ! j = l"
      by (auto simp: in_set_conv_nth)
    have upd: "pl_links (upd_link (lk_id l) g q) = (pl_links p)[j := g l]" for g
      using upd_link_one [of q j g] wf j q by (simp add: pool_wf_def)
    have same: "m = l" if "m \<in> set (pl_links p)" "lk_id m = lk_id l" for m
      using that l(1) wf by (auto simp: pool_wf_def distinct_map inj_on_def)
    from try_send_cases [of "lk_chan l" f] show ?thesis
    proof (elim disjE conjE)
      assume "try_send (lk_chan l) f =
          (SendOk, (lk_chan l)\<lparr>ch_queue := ch_queue (lk_chan l) @ [f]\<rparr>)" "0 < ch_room (lk_chan l)"
      with it Pair Some l j upd show ?thesis
        by (auto simp: send_async_iter_def enqueued_once_def can_take_def enq_def nth_list_update)
    next
      assume ts: "try_send (lk_chan l) f = (SendFull, lk_chan l)" "ch_room (lk_chan l) = 0"
      then have nt: "\<not> can_take m" if "m \<in> set (pl_links p)" "lk_id m = lk_id l" for m
        using same [OF that] by (simp add: can_take_def)
      have "out = Repick (full @ [lk_id l])" "pl_links p' = pl_links p"
        using it ts Pair Some q by (auto simp: send_async_iter_def)
      with stuck nt show ?thesis by auto
    next
      assume ts: "try_send (lk_chan l) f = (SendClosed, lk_chan l)" "\<not> ch_open (lk_chan l)"
      then have out: "out = Repick full" "pl_links p' = (pl_links p)[j := l\<lparr>lk_alive := False\<rparr>]"
        using it Pair Some upd by (auto simp: send_async_iter_def)
      have "only_passed (pl_links p) (pl_links p')"
        using out j l ts by (auto simp: only_passed_def list_all2_conv_all_nth passed_over_def nth_list_update)
      moreover have "\<forall>m \<in> set (pl_links p'). lk_id m \<in> set full \<longrightarrow> \<not> can_take m"
        using out(2) stuck set_update_subset_insert [of "pl_links p" j "l\<lparr>lk_alive := False\<rparr>"]
        by (auto simp: can_take_def)
      ultimately show ?thesis using out by simp
    qed
  qed
qed


lemma only_passed_wf:
  "only_passed (pl_links p) (pl_links p') \<Longrightarrow> pool_wf p \<Longrightarrow> pool_wf p'"
  by (simp add: pool_wf_def only_passed_ids)

lemma only_passed_all_dead:
  "only_passed ls ls' \<Longrightarrow> \<forall>l \<in> set ls'. \<not> lk_alive l \<Longrightarrow> \<forall>l \<in> set ls. \<not> can_take l"
  unfolding only_passed_def
  by (induction rule: list_all2_induct) (auto simp: passed_over_def can_take_def ch_room_def)

text \<open>What a burst of \<open>send_async\<close> leaves behind.\<close>

definition burst_post :: "frame \<Rightarrow> pool \<Rightarrow> async_outcome \<Rightarrow> pool \<Rightarrow> bool" where
  "burst_post f p out p' \<longleftrightarrow>
     (case out of
        Sent \<Rightarrow> enqueued_once f (pl_links p) (pl_links p')
      | Repick full \<Rightarrow> False
      | SleepRetry \<Rightarrow> only_passed (pl_links p) (pl_links p')
          \<and> (\<forall>l \<in> set (pl_links p). \<not> can_take l) \<and> (\<exists>l \<in> set (pl_links p'). lk_alive l)
      | AwaitAdded full \<Rightarrow> only_passed (pl_links p) (pl_links p')
          \<and> (\<forall>l \<in> set (pl_links p). \<not> can_take l) \<and> (\<forall>l \<in> set (pl_links p'). \<not> lk_alive l))"

lemma burst_post_passed:
  assumes "only_passed (pl_links p) (pl_links q)" and "burst_post f q out p'"
  shows "burst_post f p out p'"
  using assms only_passed_can_take [OF assms(1)]
  by (cases out) (auto simp: burst_post_def intro: only_passed_then_enqueued only_passed_trans)

lemma send_async_burst_spec:
  "pool_wf p \<Longrightarrow> \<forall>l \<in> set (pl_links p). lk_id l \<in> set full \<longrightarrow> \<not> can_take l \<Longrightarrow>
     burst_post f p (fst (send_async_burst rnd f full p)) (snd (send_async_burst rnd f full p))"
proof (induction rnd f full p rule: send_async_burst.induct)
  case (1 rnd f full p)
  obtain out q where it: "send_async_iter rnd f full p = (out, q)" by (cases "send_async_iter rnd f full p")
  note spec = send_async_iter_spec [OF "1.prems"(1) it "1.prems"(2)]
  show ?case
  proof (cases out)
    case Sent
    with it spec show ?thesis by (simp add: send_async_burst.simps [of rnd f full p] burst_post_def)
  next
    case (Repick full')
    with spec have po: "only_passed (pl_links p) (pl_links q)"
      and stuck: "\<forall>l \<in> set (pl_links q). lk_id l \<in> set full' \<longrightarrow> \<not> can_take l" by simp_all
    from "1.IH" [OF it [symmetric] Repick only_passed_wf [OF po "1.prems"(1)] stuck] it Repick
    show ?thesis
      by (auto simp: send_async_burst.simps [of rnd f full p] intro: burst_post_passed [OF po])
  next
    case SleepRetry
    with it spec show ?thesis by (simp add: send_async_burst.simps [of rnd f full p] burst_post_def)
  next
    case (AwaitAdded full')
    with it spec show ?thesis
      using only_passed_all_dead [of "pl_links p" "pl_links p"]
      by (simp add: send_async_burst.simps [of rnd f full p] burst_post_def)
  qed
qed

subsection \<open>Lemmas: fairness of the round robin\<close>

fun send_all :: "frame list \<Rightarrow> pool \<Rightarrow> pool" where
  "send_all [] p = p"
| "send_all (f # fs) p = send_all fs (snd (pool_send f p))"

lemma pool_send_at_cursor:
  assumes "j = unat (pl_rr p) mod length (pl_links p)" and "pl_links p \<noteq> []"
    and "can_take (pl_links p ! j)"
  shows "pool_send f p = (True, p\<lparr>pl_links := (pl_links p)[j := enq f (pl_links p ! j)],
                                  pl_rr := pl_rr p + 1\<rparr>)"
proof -
  let ?n = "length (pl_links p)"
  have n: "[0..<?n] = 0 # [1..<?n]" using assms(2) upt_conv_Cons [of 0 ?n] by simp
  from assms(1,2) have "j < ?n" by simp
  with assms n show ?thesis by (simp add: pool_send_def Let_def send_from_take)
qed

lemma unat_add_no_wrap: "unat (r :: u64) + Suc n < 2 ^ 64 \<Longrightarrow> unat (r + 1) = Suc (unat r)"
  by (subst unat_plus_simple [THEN iffD1]) (simp_all add: word_le_nat_alt unat_word_ariths)

definition served :: "frame list \<Rightarrow> nat \<Rightarrow> link \<Rightarrow> link" where
  "served fs i l = (if i < length fs then enq (fs ! i) l else l)"

lemma send_all_fair:
  assumes "length fs \<le> length (pl_links p)" and "unat (pl_rr p) + length fs < 2 ^ 64"
    and "\<forall>i < length fs. can_take (pl_links p ! ((unat (pl_rr p) + i) mod length (pl_links p)))"
  shows "length (pl_links (send_all fs p)) = length (pl_links p) \<and>
    (\<forall>i < length (pl_links p).
       pl_links (send_all fs p) ! ((unat (pl_rr p) + i) mod length (pl_links p))
       = served fs i (pl_links p ! ((unat (pl_rr p) + i) mod length (pl_links p))))"
  using assms
proof (induction fs arbitrary: p)
  case Nil
  then show ?case by (simp add: served_def)
next
  case (Cons f fs)
  let ?n = "length (pl_links p)" and ?r = "unat (pl_rr p)"
  let ?at = "\<lambda>i. (?r + i) mod ?n"
  let ?q = "p\<lparr>pl_links := (pl_links p)[?at 0 := enq f (pl_links p ! ?at 0)], pl_rr := pl_rr p + 1\<rparr>"
  have ne: "pl_links p \<noteq> []" using Cons.prems(1) by auto
  then have n: "0 < ?n" by simp
  have inj: "?at i = ?at j \<longleftrightarrow> i = j" if "i < ?n" "j < ?n" for i j
    using rotation_indices(1) [OF n, of ?r] that by (auto simp: distinct_map inj_on_def)
  have ps: "pool_send f p = (True, ?q)"
    using pool_send_at_cursor [of "?at 0" p f] Cons.prems(3) [rule_format, of 0] ne by simp
  have r: "unat (pl_rr ?q) = Suc ?r"
    using Cons.prems(2) unat_add_no_wrap [of "pl_rr p" "length fs"] by simp
  have shift: "(unat (pl_rr ?q) + i) mod length (pl_links ?q) = ?at (Suc i)" for i
    using r by simp
  have other: "pl_links ?q ! ?at (Suc i) = pl_links p ! ?at (Suc i)" if "Suc i < ?n" for i
    using inj [of 0 "Suc i"] that n by simp
  have "\<forall>i < length fs. can_take (pl_links ?q ! ((unat (pl_rr ?q) + i) mod length (pl_links ?q)))"
    unfolding shift using other Cons.prems(1,3) by (auto simp: Suc_le_eq)
  from Cons.IH [OF _ _ this] Cons.prems(1,2) r
  have len: "length (pl_links (send_all fs ?q)) = ?n"
    and IH: "\<And>i. i < ?n \<Longrightarrow> pl_links (send_all fs ?q) ! ?at (Suc i) = served fs i (pl_links ?q ! ?at (Suc i))"
    unfolding shift by simp_all
  have "pl_links (send_all fs ?q) ! ?at i = served (f # fs) i (pl_links p ! ?at i)" if i: "i < ?n" for i
  proof (cases i)
    case 0
    from n obtain m where m: "?n = Suc m" by (cases ?n) auto
    then have "?at (Suc m) = ?at 0" by (metis add.right_neutral mod_add_self2)
    with IH [of m] m Cons.prems(1) 0 n show ?thesis by (simp add: served_def)
  next
    case (Suc k)
    with IH [of k] i other [of k] show ?thesis by (simp add: served_def)
  qed
  with len ps show ?case by simp
qed

subsection \<open>Lemmas: the drain task\<close>

text \<open>
  The drain invariant: the channel's history is what was written, then what was dropped, then
  what was reported, then what is still queued; the wire holds the encodings of the written
  frames, whole while the task runs, followed by part of one more encoding at the end.
\<close>

definition wire_of :: "frame list \<Rightarrow> bytes" where
  "wire_of fs = concat (map (\<lambda>f. case encode f of Inr w \<Rightarrow> w | Inl e \<Rightarrow> []) fs)"

definition drain_inv :: "drain \<Rightarrow> bool" where
  "drain_inv d \<longleftrightarrow>
     dr_accepted d = dr_written d @ dr_dropped d @ lk_lost (dr_link d) @ ch_queue (lk_chan (dr_link d))
     \<and> length (dr_dropped d @ lk_lost (dr_link d)) \<le> of_bool (dr_dead d)
     \<and> (\<forall>f \<in> set (dr_written d). length (payload f) \<le> MAX_PAYLOAD)
     \<and> (\<exists>part. dr_wire d = wire_of (dr_written d) @ part
          \<and> (part \<noteq> [] \<longrightarrow> (\<exists>f w rest. dr_dropped d @ lk_lost (dr_link d) = [f] \<and> encode f = Inr w
                                      \<and> w = part @ rest)))"

lemma wire_of_append [simp]: "wire_of (fs @ gs) = wire_of fs @ wire_of gs"
  by (simp add: wire_of_def)

lemma wire_of_one: "encode f = Inr w \<Longrightarrow> wire_of [f] = w"
  by (simp add: wire_of_def)

lemma wrote_frame_fields [simp]:
  "lk_chan (dr_link (wrote_frame f t s d)) = lk_chan (dr_link d)"
  "lk_lost (dr_link (wrote_frame f t s d)) = lk_lost (dr_link d)"
  "dr_dead (wrote_frame f t s d) = dr_dead d" "dr_wire (wrote_frame f t s d) = dr_wire d"
  "dr_accepted (wrote_frame f t s d) = dr_accepted d"
  "dr_written (wrote_frame f t s d) = dr_written d @ [f]"
  "dr_dropped (wrote_frame f t s d) = dr_dropped d"
  by (simp_all add: wrote_frame_def Let_def)

lemma drain_inv_alive:
  assumes "drain_inv d" and "\<not> dr_dead d"
  shows "dr_dropped d = []" and "lk_lost (dr_link d) = []" and "dr_wire d = wire_of (dr_written d)"
    and "dr_accepted d = dr_written d @ ch_queue (lk_chan (dr_link d))"
  using assms by (auto simp: drain_inv_def)

lemma drain_frame_inv:
  assumes inv: "drain_inv d" and live: "\<not> dr_dead d"
  shows "drain_inv (drain_frame w d)"
proof (cases "ch_queue (lk_chan (dr_link d))")
  case Nil
  with inv show ?thesis by (simp add: drain_frame_def try_recv_def)
next
  case (Cons f q)
  note D = drain_inv_alive [OF inv live]
  have ok: "\<forall>f \<in> set (dr_written d). length (payload f) \<le> MAX_PAYLOAD"
    using inv by (simp add: drain_inv_def)
  show ?thesis
  proof (cases "encode f")
    case (Inl e)
    with Cons D ok show ?thesis
      by (simp add: drain_frame_def try_recv_def encode_def lose_frame_def drain_inv_def)
  next
    case (Inr enc)
    have part: "\<exists>rest. enc = take k enc @ rest" for k by (metis append_take_drop_id)
    from Inr have "length (payload f) \<le> MAX_PAYLOAD" by (simp add: encode_Inr_iff)
    with Cons Inr D ok inv live part show ?thesis
      by (cases w) (auto simp: drain_frame_def try_recv_def encode_def [symmetric] lose_frame_def
          drain_inv_def Let_def wire_of_one)
  qed
qed

lemma drain_step_inv:
  assumes "drain_inv d"
  shows "drain_inv (drain_step d ev)"
proof (cases ev)
  case (EvSend f)
  with assms try_send_cases [of "lk_chan (dr_link d)" f] show ?thesis
    by (auto simp: drain_step_def drain_inv_def Let_def)
next
  case (DrFrame w)
  with assms drain_frame_inv show ?thesis by (simp add: drain_step_def)
qed (use assms in \<open>auto simp: drain_step_def drain_inv_def Let_def\<close>)

lemma drain_run_inv: "drain_inv d \<Longrightarrow> drain_inv (foldl drain_step d evs)"
  by (induction evs arbitrary: d) (auto simp: drain_step_inv)

lemma drain_init_inv: "drain_inv (drain_init (new_link i now_ms) now)"
  by (simp add: drain_inv_def drain_init_def new_link_def new_chan_def wire_of_def)


lemma drain_finish_spec:
  assumes inv: "drain_inv d"
  shows "dr_accepted (drain_finish d)
      = dr_written (drain_finish d) @ dr_dropped (drain_finish d) @ lk_lost (dr_link (drain_finish d))
     \<and> length (dr_dropped (drain_finish d)) \<le> 1
     \<and> ch_queue (lk_chan (dr_link (drain_finish d))) = [] \<and> lk_writer_died (dr_link (drain_finish d))
     \<and> (\<exists>part rest. dr_wire (drain_finish d) = wire_of (dr_written (drain_finish d)) @ part
          \<and> wire_of (dr_accepted (drain_finish d)) = dr_wire (drain_finish d) @ rest)"
proof -
  from inv obtain part where part: "dr_wire d = wire_of (dr_written d) @ part"
    "part \<noteq> [] \<longrightarrow> (\<exists>f w rest. dr_dropped d @ lk_lost (dr_link d) = [f] \<and> encode f = Inr w \<and> w = part @ rest)"
    by (auto simp: drain_inv_def)
  have "\<exists>rest. wire_of (dr_dropped d @ lk_lost (dr_link d)) = part @ rest"
    using part(2) by (cases "part = []") (auto simp: wire_of_one simp del: wire_of_append)
  then obtain rest where "wire_of (dr_dropped d @ lk_lost (dr_link d)) = part @ rest" by blast
  then have w: "wire_of (dr_dropped d) @ wire_of (lk_lost (dr_link d)) @ q = part @ rest @ q" for q
    by (simp only: wire_of_append append_assoc [symmetric])
  have acc: "dr_accepted d = dr_written d @ dr_dropped d @ lk_lost (dr_link d) @ ch_queue (lk_chan (dr_link d))"
    using inv by (simp add: drain_inv_def)
  then have "\<exists>rest. wire_of (dr_accepted d) = dr_wire d @ rest"
    using part(1) by (simp add: w)
  moreover have "length (dr_dropped d) \<le> 1"
    using inv by (cases "dr_dead d") (simp_all add: drain_inv_def)
  ultimately show ?thesis
    using part(1) acc by (simp add: drain_finish_def notify_one_def Let_def)
qed

subsection \<open>Lemmas: shares of the weighted pick\<close>

fun picks :: "(real \<Rightarrow> real) \<Rightarrow> nat \<Rightarrow> pool \<Rightarrow> link option list" where
  "picks rnd 0 p = []"
| "picks rnd (Suc n) p =
     (let (r, p') = weighted_pick rnd [] p in r # picks rnd n p')"

lemma f64_sum_exact: "f64_sum id xs = sum_list xs"
proof -
  have "foldl (\<lambda>acc x. acc + x) a xs = a + sum_list xs" for a :: real
    by (induction xs arbitrary: a) simp_all
  then show ?thesis by (simp add: f64_sum_def)
qed

lemma pick_walk_interval:
  assumes "\<forall>y \<in> set ys. 0 \<le> snd y"
    and "acc + sum_list (map snd ys) \<le> a" and "a < acc + sum_list (map snd ys) + w"
  shows "pick_walk id a acc (ys @ (l, w) # zs) = Some l"
  using assms
proof (induction ys arbitrary: acc)
  case Nil
  then show ?case by simp
next
  case (Cons y ys)
  obtain m v where y: "y = (m, v)" by (cases y)
  have "0 \<le> sum_list (map snd ys)" using Cons.prems(1) by (auto intro!: sum_list_nonneg)
  then have "\<not> a < acc + v" using Cons.prems(2) y by simp
  with Cons y show ?case by (simp add: add.assoc)
qed

lemma card_grid_interval:
  assumes "0 \<le> x" and "y \<le> real n"
  shows "y - x - 1 \<le> real (card {k. k < n \<and> x \<le> real k \<and> real k < y})"
proof -
  have "{nat \<lceil>x\<rceil>..<nat \<lceil>y\<rceil>} \<subseteq> {k. k < n \<and> x \<le> real k \<and> real k < y}"
    using assms by (auto simp: less_ceiling_iff zless_nat_eq_int_zless)
  then have "card {nat \<lceil>x\<rceil>..<nat \<lceil>y\<rceil>} \<le> card {k. k < n \<and> x \<le> real k \<and> real k < y}"
    by (intro card_mono) simp_all
  then have "nat \<lceil>y\<rceil> - nat \<lceil>x\<rceil> \<le> card {k. k < n \<and> x \<le> real k \<and> real k < y}" by simp
  moreover have "y \<le> real (nat \<lceil>y\<rceil>)" by (rule real_nat_ceiling_ge)
  moreover have "real (nat \<lceil>x\<rceil>) \<le> x + 1" using assms(1) by linarith
  ultimately show ?thesis by linarith
qed

lemma sum_list_shift: "(\<Sum>r\<leftarrow>xs. r + c) = sum_list xs + real (length xs) * c"
  by (induction xs) (simp_all add: algebra_simps)

lemma pick_weights_share:
  assumes nonneg: "\<forall>r \<in> set raw. 0 \<le> r" and w: "w \<in> set (pick_weights id raw)"
  shows "0 < w" and "sum_list (pick_weights id raw) \<le> w * (40 + real (length raw))"
proof -
  let ?S = "sum_list raw" and ?n = "real (length raw)" and ?W = "pick_weights id raw"
  have S: "0 \<le> ?S" using nonneg by (auto intro: sum_list_nonneg)
  have "0 < w \<and> sum_list ?W \<le> w * (40 + ?n)"
  proof (cases "0 < ?S")
    case True
    then have n: "0 < ?n" by (cases raw) auto
    let ?g = "\<lambda>r. max (if r > 0 then r else ?S / ?n) (0.05 * ?S)"
    have W: "?W = map ?g raw"
      using True by (simp add: pick_weights_def f64_sum_exact FLOOR_SHARE_def Let_def)
    from w W have lo: "0.05 * ?S \<le> w" by auto
    have "sum_list ?W \<le> (\<Sum>r\<leftarrow>raw. r + (?S / ?n + 0.05 * ?S))"
      unfolding W using nonneg True n by (intro sum_list_mono) (auto simp: max_def)
    also have "\<dots> = ?S + ?n * (?S / ?n + 0.05 * ?S)" by (rule sum_list_shift)
    also have "\<dots> = 0.05 * ?S * (40 + ?n)"
    proof -
      have "?n * (?S / ?n) = ?S" using n by simp
      then show ?thesis by (simp only: distrib_left) (simp add: algebra_simps)
    qed
    also have "\<dots> \<le> w * (40 + ?n)" using lo by (intro mult_right_mono) simp_all
    finally show ?thesis using lo True by simp
  next
    case False
    with w show ?thesis
      by (auto simp: pick_weights_def f64_sum_exact sum_list_triv sum_list_replicate)
  qed
  then show "0 < w" and "sum_list ?W \<le> w * (40 + ?n)" by simp_all
qed

lemma length_pick_weights [simp]: "length (pick_weights rnd raw) = length raw"
  by (simp add: pick_weights_def Let_def)

lemma weighted_pick_grid:
  assumes "skip = []" and "alive = filter lk_alive (pl_links p)" and "alive \<noteq> []"
    and "ws = pick_weights id (map (\<lambda>l. max (lk_rate l) 0) alive)"
  shows "weighted_pick id skip p =
     (case pick_walk id (real (unat (pl_rr p) mod 1024) / 1024 * sum_list ws) 0 (zip alive ws) of
        Some l \<Rightarrow> Some l | None \<Rightarrow> Some (last alive), p\<lparr>pl_rr := pl_rr p + 1\<rparr>)"
  using assms(3) unfolding assms(1,2,4)
  by (simp add: weighted_pick_def Let_def f64_sum_exact WEIGHT_GRID_def split: option.splits)

lemma unat_rr_mod: "unat ((r :: u64) + word_of_nat k) mod 1024 = (unat r + k) mod 1024"
proof -
  have "unat (r + word_of_nat k) = (unat r + k) mod 2 ^ 64"
    by (simp add: unat_word_ariths unat_of_nat mod_add_right_eq)
  also have "\<dots> mod 1024 = (unat r + k) mod 1024" by (rule mod_mod_cancel) simp
  finally show ?thesis .
qed

lemma picks_map:
  "picks rnd n p = map (\<lambda>k. fst (weighted_pick rnd [] (p\<lparr>pl_rr := pl_rr p + word_of_nat k\<rparr>))) [0..<n]"
  if "filter lk_alive (pl_links p) \<noteq> []"
  using that
proof (induction n arbitrary: p)
  case 0
  then show ?case by simp
next
  case (Suc n)
  obtain r q where pk: "weighted_pick rnd [] p = (r, q)" by (cases "weighted_pick rnd [] p")
  then have "q = p\<lparr>pl_rr := pl_rr p + 1\<rparr>"
    using Suc.prems weighted_pick_None [of rnd "[]" p q] weighted_pick_Some [of rnd "[]" p _ q]
    by (cases r) (auto simp: filter_empty_conv)
  with pk Suc show ?case
    unfolding upt_conv_Cons [OF zero_less_Suc] map_Suc_upt [symmetric]
    by (simp add: add.assoc comp_def)
qed

lemma picks_share:
  assumes l: "l \<in> set (pl_links p)" "lk_alive l"
  shows "1024 \<le> (40 + alive_count p)
      * Suc (length (filter (\<lambda>r. r = Some l) (picks id 1024 p)))"
proof -
  define alive where "alive = filter lk_alive (pl_links p)"
  define ws where "ws = pick_weights id (map (\<lambda>l. max (lk_rate l) 0) alive)"
  define hit where "hit m \<longleftrightarrow> (case pick_walk id (real m / 1024 * sum_list ws) 0 (zip alive ws) of
      Some l \<Rightarrow> Some l | None \<Rightarrow> Some (last alive)) = Some l" for m
  from l have mem: "l \<in> set alive" by (simp add: alive_def)
  then have ne: "alive \<noteq> []" by auto
  have len: "length ws = length alive" by (simp add: ws_def)
  from mem obtain j where j: "j < length alive" "alive ! j = l" by (auto simp: in_set_conv_nth)
  define w A where "w = ws ! j" and "A = sum_list (take j ws)"
  have wpos: "0 < v \<and> sum_list ws \<le> v * (40 + real (length alive))" if "v \<in> set ws" for v
    using pick_weights_share [of "map (\<lambda>l. max (lk_rate l) 0) alive" v] that
    by (auto simp: ws_def)
  have w: "0 < w" "sum_list ws \<le> w * (40 + real (length alive))"
    using wpos [of w] j len by (simp_all add: w_def)
  have split: "ws = take j ws @ w # drop (Suc j) ws"
    unfolding w_def by (rule id_take_nth_drop) (use j len in simp)
  have nn: "0 \<le> sum_list (take j ws)" "0 \<le> sum_list (drop (Suc j) ws)"
    using wpos by (auto intro!: sum_list_nonneg dest: in_set_takeD in_set_dropD less_imp_le)
  have T: "A + w \<le> sum_list ws" using nn by (subst split) (simp add: A_def)
  have hits: "hit m" if "A \<le> real m / 1024 * sum_list ws" "real m / 1024 * sum_list ws < A + w" for m
  proof -
    have z: "zip alive ws = zip (take j alive) (take j ws) @ (l, w) # zip (drop (Suc j) alive) (drop (Suc j) ws)"
      using id_take_nth_drop [of j "zip alive ws"] j len by (simp add: take_zip drop_zip w_def)
    have "pick_walk id (real m / 1024 * sum_list ws) 0 (zip alive ws) = Some l"
      unfolding z using that j len wpos
      by (intro pick_walk_interval)
         (auto simp: A_def dest!: set_zip_rightD in_set_takeD intro: less_imp_le)
    then show ?thesis by (simp add: hit_def)
  qed
  have Tpos: "0 < sum_list ws" using w(1) T nn(1) by (simp add: A_def)
  let ?c = "1024 / sum_list ws"
  have "?c * (A + w) - ?c * A - 1
      \<le> real (card {k. k < 1024 \<and> ?c * A \<le> real k \<and> real k < ?c * (A + w)})"
    by (rule card_grid_interval [of "?c * A" "?c * (A + w)" 1024])
       (use T Tpos nn in \<open>simp_all add: A_def divide_simps\<close>)
  also have "\<dots> \<le> real (card {m. m < 1024 \<and> hit m})"
    using hits Tpos by (intro of_nat_mono card_mono) (auto simp: field_simps)
  finally have cnt: "?c * w - 1 \<le> real (card {m. m < 1024 \<and> hit m})"
    by (simp only: distrib_left add_diff_cancel_left')
  have at: "(fst (weighted_pick id [] (p\<lparr>pl_rr := pl_rr p + word_of_nat k\<rparr>)) = Some l)
      = hit ((unat (pl_rr p) + k) mod 1024)" for k
    using weighted_pick_grid [OF refl _ ne ws_def, of "p\<lparr>pl_rr := pl_rr p + word_of_nat k\<rparr>"]
    by (simp add: alive_def [symmetric] hit_def unat_rr_mod)
  have "length (filter (\<lambda>r. r = Some l) (picks id 1024 p))
      = length (filter hit (map (\<lambda>k. (unat (pl_rr p) + k) mod 1024) [0..<1024]))"
    by (simp only: picks_map [OF ne [unfolded alive_def]] filter_map length_map comp_def at)
  also have "\<dots> = card ({m. hit m} \<inter> {..<1024})"
    using rotation_indices [of 1024 "unat (pl_rr p)"] by (simp only: distinct_length_filter)
  also have "{m. hit m} \<inter> {..<1024} = {m. m < 1024 \<and> hit m}" by auto
  finally have n: "?c * w - 1 \<le> real (length (filter (\<lambda>r. r = Some l) (picks id 1024 p)))"
    using cnt by (simp only: of_nat_id)
  let ?N = "real (length (filter (\<lambda>r. r = Some l) (picks id 1024 p)))"
  have "1024 * w \<le> (?N + 1) * sum_list ws"
    using n Tpos by (simp add: field_simps)
  also have "\<dots> \<le> (?N + 1) * (w * (40 + real (length alive)))"
    using w(2) by (intro mult_left_mono) simp_all
  finally have "w * 1024 \<le> w * ((?N + 1) * (40 + real (length alive)))" by (simp add: algebra_simps)
  then have "1024 \<le> (?N + 1) * (40 + real (length alive))" using w(1) by simp
  also have "\<dots> = real ((40 + alive_count p) * Suc (length (filter (\<lambda>r. r = Some l) (picks id 1024 p))))"
    by (simp add: alive_count_def alive_def algebra_simps)
  finally show ?thesis by linarith
qed

subsection \<open>Lemmas: idle links\<close>

lemma sweep_then_compact:
  "pl_links (compact (snd (sweep_idle now_ms limit_ms p)))
   = filter (\<lambda>l. lk_alive l \<and> \<not> is_idle now_ms limit_ms l) (pl_links p)"
proof -
  have "filter lk_alive (map (\<lambda>l. if is_idle now_ms limit_ms l
          then l\<lparr>lk_alive := False, lk_stop := notify_one (lk_stop l)\<rparr> else l) ls)
      = filter (\<lambda>l. lk_alive l \<and> \<not> is_idle now_ms limit_ms l) ls" for ls
    by (induction ls) auto
  then show ?thesis by (simp add: compact_def sweep_idle_def Let_def)
qed

subsection \<open>Properties\<close>

text \<open>
  C19. \<open>TunnelPool::send\<close> succeeds exactly when some live link has room in its queue; then exactly
  one such queue got the frame, at its end, and every other link is as before, except that a
  link whose writer is gone may have been marked dead.  When it fails no queue changed.
\<close>

theorem pool_send_exactly_once:
  "case pool_send f p of (ok, p') \<Rightarrow>
     ok = (\<exists>l \<in> set (pl_links p). can_take l) \<and>
     (if ok then enqueued_once f (pl_links p) (pl_links p')
      else only_passed (pl_links p) (pl_links p'))"
  using pool_send_spec by (cases "pool_send f p") blast

text \<open>
  C20. A burst of \<open>send_async\<close> (from a fresh start to the return or the next wait) always ends:
  when some live link has room the frame is enqueued on exactly one link with room; otherwise no
  queue changed, and the task sleeps a millisecond if some link is still alive (all full) and
  waits for a new link if none is.  It never gives up while a link can take the frame, however
  the scheduler's floating-point operations round.
\<close>

theorem send_async_burst_delivers:
  assumes "pool_wf p" and "send_async_burst rnd f [] p = (out, p')"
  shows "(\<exists>l \<in> set (pl_links p). can_take l) = (out = Sent) \<and> burst_post f p out p'"
proof -
  have "burst_post f p out p'" using send_async_burst_spec [of p "[]" f rnd] assms by simp
  moreover have "\<exists>l \<in> set (pl_links p). can_take l" if "enqueued_once f (pl_links p) (pl_links p')"
    using that by (auto simp: enqueued_once_def intro: nth_mem)
  ultimately show ?thesis by (cases out) (auto simp: burst_post_def)
qed

theorem send_async_burst_delivers_witness:
  "fst (send_async_burst id (frame_rst 7) []
     \<lparr>pl_links = [(new_link 0 5)\<lparr>lk_alive := False\<rparr>, (new_link 1 5)\<lparr>lk_rate := 1000\<rparr>],
      pl_rr = 3, pl_added = 2\<rparr>) = Sent"
proof -
  let ?p = "\<lparr>pl_links = [(new_link 0 5)\<lparr>lk_alive := False\<rparr>, (new_link 1 5)\<lparr>lk_rate := 1000\<rparr>],
      pl_rr = 3, pl_added = 2\<rparr>"
  have wf: "pool_wf ?p" by (simp add: pool_wf_def new_link_def)
  obtain out q where b: "send_async_burst id (frame_rst 7) [] ?p = (out, q)"
    by (cases "send_async_burst id (frame_rst 7) [] ?p")
  have "\<exists>l \<in> set (pl_links ?p). can_take l"
    by (simp add: can_take_def new_link_def new_chan_def ch_room_def TUNNEL_CHANNEL_CAP_def)
  with send_async_burst_delivers [OF wf b] b show ?thesis by simp
qed

text \<open>
  C22. Round-robin fairness of control frames: as many sends as there are usable links, starting
  anywhere, put the \<open>i\<close>-th frame on the \<open>i\<close>-th link after the cursor, one frame per link.
\<close>

theorem round_robin_fair:
  assumes "length fs \<le> length (pl_links p)" and "unat (pl_rr p) + length fs < 2 ^ 64"
    and "\<forall>i < length fs. can_take (pl_links p ! ((unat (pl_rr p) + i) mod length (pl_links p)))"
  shows "length (pl_links (send_all fs p)) = length (pl_links p) \<and>
    (\<forall>i < length (pl_links p).
       pl_links (send_all fs p) ! ((unat (pl_rr p) + i) mod length (pl_links p))
       = served fs i (pl_links p ! ((unat (pl_rr p) + i) mod length (pl_links p))))"
  by (rule send_all_fair [OF assms])

theorem round_robin_fair_witness:
  "pl_links (send_all [frame_rst 1, frame_rst 2] \<lparr>pl_links = [new_link 0 5, new_link 1 5], pl_rr = 3, pl_added = 2\<rparr>)
   = [enq (frame_rst 2) (new_link 0 5), enq (frame_rst 1) (new_link 1 5)]"
proof -
  let ?p = "\<lparr>pl_links = [new_link 0 5, new_link 1 5], pl_rr = 3, pl_added = 2\<rparr>"
  let ?fs = "[frame_rst 1, frame_rst 2]"
  have take: "can_take (new_link i 5)" for i
    by (simp add: can_take_def new_link_def new_chan_def ch_room_def TUNNEL_CHANNEL_CAP_def)
  have all: "\<forall>i < length ?fs. can_take (pl_links ?p ! ((unat (pl_rr ?p) + i) mod length (pl_links ?p)))"
    using take by (auto simp: nth_Cons')
  have post: "length (pl_links (send_all ?fs ?p)) = length (pl_links ?p) \<and>
    (\<forall>i < length (pl_links ?p).
       pl_links (send_all ?fs ?p) ! ((unat (pl_rr ?p) + i) mod length (pl_links ?p))
       = served ?fs i (pl_links ?p ! ((unat (pl_rr ?p) + i) mod length (pl_links ?p))))"
    by (rule round_robin_fair [OF _ _ all]) simp_all
  then have len: "length (pl_links (send_all ?fs ?p)) = 2" by simp
  have "pl_links (send_all ?fs ?p) ! 1 = enq (frame_rst 1) (new_link 1 5)"
    using post [THEN conjunct2, rule_format, of 0] by (simp add: served_def flip: numeral_2_eq_2)
  moreover have "pl_links (send_all ?fs ?p) ! 0 = enq (frame_rst 2) (new_link 0 5)"
    using post [THEN conjunct2, rule_format, of 1] by (simp add: served_def flip: numeral_2_eq_2)
  ultimately show ?thesis using len
    by (intro nth_equalityI) (auto simp: less_Suc_eq numeral_2_eq_2)
qed



text \<open>
  C21. The drain task loses nothing silently except on a failed write.  After any schedule of
  sends, stops and writes, and the final drain: the frames the channel accepted are, in order,
  those written in full, then at most one dropped frame, then those reported in \<open>lost_frames\<close>;
  the queue is empty and the reader has been released.  The socket got the encodings of the
  written frames, in order, and then at most part of the next one.
\<close>

theorem drain_conserves:
  "let d = drain_finish (foldl drain_step (drain_init (new_link i now_ms) now) evs) in
     dr_accepted d = dr_written d @ dr_dropped d @ lk_lost (dr_link d)
     \<and> length (dr_dropped d) \<le> 1 \<and> ch_queue (lk_chan (dr_link d)) = [] \<and> lk_writer_died (dr_link d)
     \<and> (\<exists>part rest. dr_wire d = wire_of (dr_written d) @ part \<and> wire_of (dr_accepted d) = dr_wire d @ rest)"
  unfolding Let_def by (rule drain_finish_spec [OF drain_run_inv [OF drain_init_inv]])



text \<open>
  Between the final drain of the queue and the drop of the receiver (while the socket is shut
  down) the channel is still open: a frame sent then is accepted, and neither written nor
  reported.
\<close>

theorem drain_late_send_unreported:
  "let d0 = drain_finish (foldl drain_step (drain_init (new_link i now_ms) now) [EvStop, DrStop]);
       d = drain_drop (drain_step d0 (EvSend f))
   in dr_dead d0 \<and> dr_accepted d0 = [] \<and> dr_accepted d = [f] \<and> dr_written d = []
      \<and> lk_lost (dr_link d) = [] \<and> ch_queue (lk_chan (dr_link d)) = []"
  by (simp add: drain_drop_def drain_finish_def drain_step_def drain_init_def new_link_def new_chan_def
      try_send_def notify_one_def Let_def TUNNEL_CHANNEL_CAP_def)

text \<open>
  The published drain rate is a mean: a step of the time-decayed average lies between the
  previous rate and the new sample.
\<close>

theorem ewma_rate_between:
  assumes "0 \<le> dt"
  shows "min prev inst \<le> ewma_rate prev inst dt \<and> ewma_rate prev inst dt \<le> max prev inst"
proof -
  define e where "e = exp (- dt / RATE_EWMA_TAU_SECS)"
  have "0 \<le> e" "e \<le> 1" using assms by (simp_all add: e_def RATE_EWMA_TAU_SECS_def)
  moreover have "ewma_rate prev inst dt = e * prev + (1 - e) * inst"
    by (simp add: ewma_rate_def e_def Let_def algebra_simps)
  ultimately show ?thesis
    using convex_bound_le [of prev "max prev inst" inst e "1 - e"]
      convex_bound_le [of "- prev" "- min prev inst" "- inst" e "1 - e"] by simp
qed

theorem ewma_rate_between_witness: "ewma_rate 5 5 1 = 5"
  using ewma_rate_between [of 1 5 5] by simp

text \<open>
  An idle sweep followed by a compaction leaves exactly the live links that were active within
  the limit, in their old order; the number reported is the number of live links that went.
\<close>

theorem sweep_compact_keeps_active:
  "pl_links (compact (snd (sweep_idle now_ms limit_ms p)))
     = filter (\<lambda>l. lk_alive l \<and> \<not> is_idle now_ms limit_ms l) (pl_links p)
   \<and> fst (sweep_idle now_ms limit_ms p) + link_count (compact (snd (sweep_idle now_ms limit_ms p))) = alive_count p"
proof -
  have "length (filter (is_idle now_ms limit_ms) ls) + length (filter (\<lambda>l. lk_alive l \<and> \<not> is_idle now_ms limit_ms l) ls)
      = length (filter lk_alive ls)" for ls
    by (induction ls) (auto simp: is_idle_def)
  moreover have "fst (sweep_idle now_ms limit_ms p) = length (filter (is_idle now_ms limit_ms) (pl_links p))"
    by (simp add: sweep_idle_def)
  ultimately show ?thesis by (simp add: sweep_then_compact link_count_def alive_count_def)
qed

end
