(* ===== verification/Link.thy ===== *)
theory Link
  imports Tunnel
begin

text \<open>
  One tunnel from queue to decoder: the drain task of one end writes the frames of a link's queue to
  a TCP connection, the decoder of the other end reads them back.  TCP delivers a prefix of the
  bytes written, cut into reads in any way.
\<close>

text \<open>Encodings are self-delimiting: frames whose bytes start a stream of frames start its frames.\<close>

lemma encoded_prefix:
  assumes "map encode fs = map Inr ws" and "map encode gs = map Inr vs" and "concat vs = concat ws @ rest"
  shows "\<exists>hs. gs = fs @ hs"
  using assms
proof (induction fs arbitrary: ws gs vs)
  case (Cons f fs)
  then obtain w ws' where w: "ws = w # ws'" "encode f = Inr w" "map encode fs = map Inr ws'" by (cases ws) auto
  have "w \<noteq> []" using encode_length [OF w(2)] by (auto simp: frame_consts)
  then obtain v vs' where vs: "vs = v # vs'" using Cons.prems(3) w(1) by (cases vs) auto
  then obtain g gs' where g: "gs = g # gs'" "encode g = Inr v" "map encode gs' = map Inr vs'"
    using Cons.prems(2) by (cases gs) auto
  have "v @ concat vs' = w @ concat ws' @ rest" using Cons.prems(3) w(1) vs by simp
  then have "g = f \<and> concat vs' = concat ws' @ rest"
    using parse_encoded [OF g(2), of "concat vs'"] parse_encoded [OF w(2), of "concat ws' @ rest"] by simp
  then show ?case using Cons.IH [OF w(3) g(3)] g(1) by auto
qed simp

lemma wire_of_encoded:
  assumes "\<forall>f \<in> set fs. length (payload f) \<le> MAX_PAYLOAD"
  shows "\<exists>ws. map encode fs = map Inr ws \<and> wire_of fs = concat ws"
  using assms
proof (induction fs)
  case (Cons f fs)
  then obtain ws where ws: "map encode fs = map Inr ws" "wire_of fs = concat ws" by auto
  obtain w where "encode f = Inr w" using Cons.prems by (auto simp: encode_Inr_iff)
  then have "map encode (f # fs) = map Inr (w # ws)" "wire_of (f # fs) = concat (w # ws)" using ws by (simp_all add: wire_of_def)
  then show ?case by blast
qed (simp add: wire_of_def)

text \<open>All bytes on the wire belong to encodable frames that the queue accepted first.\<close>

lemma drain_wire_frames:
  assumes "drain_inv d"
  shows "\<exists>gs hs vs rest. dr_accepted d = gs @ hs \<and> map encode gs = map Inr vs \<and> concat vs = dr_wire d @ rest"
proof -
  from assms obtain part where part: "dr_wire d = wire_of (dr_written d) @ part"
    "part \<noteq> [] \<Longrightarrow> \<exists>f w rest. dr_dropped d @ lk_lost (dr_link d) = [f] \<and> encode f = Inr w \<and> w = part @ rest"
    by (auto simp: drain_inv_def)
  obtain ws where ws: "map encode (dr_written d) = map Inr ws" "wire_of (dr_written d) = concat ws"
    using wire_of_encoded [of "dr_written d"] assms by (auto simp: drain_inv_def)
  have acc: "dr_accepted d = dr_written d @ (dr_dropped d @ lk_lost (dr_link d)) @ ch_queue (lk_chan (dr_link d))"
    using assms by (simp add: drain_inv_def)
  show ?thesis
  proof (cases "part = []")
    case True
    then show ?thesis using acc ws part(1) by (intro exI [of _ "dr_written d"] exI) auto
  next
    case False
    then obtain f w rest where f: "dr_dropped d @ lk_lost (dr_link d) = [f]" "encode f = Inr w" "w = part @ rest"
      using part(2) by blast
    then have "dr_accepted d = (dr_written d @ [f]) @ ch_queue (lk_chan (dr_link d))"
      "map encode (dr_written d @ [f]) = map Inr (ws @ [w])" "concat (ws @ [w]) = dr_wire d @ rest"
      using acc ws part(1) by simp_all
    then show ?thesis by blast
  qed
qed

lemma drain_run_ok: "drain_inv (foldl drain_step (drain_init (new_link i now_ms) now) evs)"
  by (rule drain_run_inv [OF drain_init_inv])

subsection \<open>Properties\<close>

text \<open>
  A tunnel carries frames.  At any time of any run of the drain task, and whatever prefix of the
  bytes it wrote has reached the peer in whatever reads, the frames that the peer's decoder returns
  are the first frames that the link's queue accepted: none is invented, altered, repeated or
  reordered on a tunnel.  When all bytes have arrived, every frame written in full is among them.
\<close>

theorem link_carries_frames:
  assumes "d = foldl drain_step (drain_init (new_link i now_ms) now) evs"
  shows "(dr_wire d = stream_bytes rd @ later \<longrightarrow> (\<exists>rest. dr_accepted d = fst (decode_stream [] rd) @ rest))
    \<and> (dr_wire d = concat cs \<and> [] \<notin> set cs \<longrightarrow> (\<exists>rest. fst (decode_stream [] (map RdBytes cs)) = dr_written d @ rest))"
proof (intro conjI impI)
  have inv: "drain_inv d" using assms drain_run_ok by simp
  {
    assume wire: "dr_wire d = stream_bytes rd @ later"
    obtain ws t where w: "map encode (fst (decode_stream [] rd)) = map Inr ws" "stream_bytes rd = concat ws @ t"
      using decode_stream_conserves [of "[]" rd "fst (decode_stream [] rd)" "snd (decode_stream [] rd)"] by auto
    obtain gs hs vs rest where g: "dr_accepted d = gs @ hs" "map encode gs = map Inr vs" "concat vs = dr_wire d @ rest"
      using drain_wire_frames [OF inv] by blast
    have "concat vs = concat ws @ t @ later @ rest" using g(3) wire w(2) by simp
    then show "\<exists>rest. dr_accepted d = fst (decode_stream [] rd) @ rest" using encoded_prefix [OF w(1) g(2)] g(1) by auto
  next
    assume wire: "dr_wire d = concat cs \<and> [] \<notin> set cs"
    obtain ws where ws: "map encode (dr_written d) = map Inr ws" "wire_of (dr_written d) = concat ws"
      using wire_of_encoded [of "dr_written d"] inv by (auto simp: drain_inv_def)
    moreover obtain part where "dr_wire d = wire_of (dr_written d) @ part" using inv by (auto simp: drain_inv_def)
    ultimately show "\<exists>rest. fst (decode_stream [] (map RdBytes cs)) = dr_written d @ rest"
      using decode_stream_encoded [of "dr_written d" ws cs "[]" part "[]"] wire by auto
  }
qed

theorem link_carries_frames_witness:
  "\<exists>rest. fst (decode_stream [] (map RdBytes [[0, 0, 0, 9, 0, 0], [0, 0, 0, 0, 0, 0, 8, 0, 0]])) = [frame_rst 9] @ rest"
proof -
  let ?d = "foldl drain_step (drain_init (new_link 0 0) 0) [EvSend (frame_rst 9), DrFrame (WrOk 1 1)]"
  have e: "encode (frame_rst 9) = Inr [0, 0, 0, 9, 0, 0, 0, 0, 0, 0, 0, 0, 8, 0, 0]"
    by (simp add: encode_Inr_iff frame_rst_def frame_consts flag_defs put_u32_def put_u64_def put_u16_def to_be_numeral)
  have "dr_written ?d = [frame_rst 9] \<and> dr_wire ?d = [0, 0, 0, 9, 0, 0, 0, 0, 0, 0, 0, 0, 8, 0, 0]"
    using e by (simp add: drain_step_def drain_init_def new_link_def new_chan_def try_send_def
        drain_frame_def try_recv_def Let_def encode_def [symmetric] TUNNEL_CHANNEL_CAP_def wrote_frame_def)
  then show ?thesis
    using link_carries_frames [of ?d 0 0 0 "[EvSend (frame_rst 9), DrFrame (WrOk 1 1)]" "[]" "[]"
        "[[0, 0, 0, 9, 0, 0], [0, 0, 0, 0, 0, 0, 8, 0, 0]]"] by auto
qed

end
