(* ===== verification/Endpoint.thy ===== *)
theory Endpoint
  imports Link
begin

text \<open>
  The tasks that serve the tunnels at one end, for the splitter and the reassembler alike: for each
  tunnel the drain task of its link (\<open>drain_frames\<close> of \<open>src/src/tunnel.rs\<close>) and the read loop with
  its decoder (\<open>tunnel_read_loop\<close>, \<open>FrameDecoder::try_next\<close>).

  A link is shared by the pool and the tasks.  While it is in the pool the pool holds its state; a
  dead link that \<open>compact\<close> took out of the pool lives on in \<open>en_off\<close> as long as tasks hold it.
  A tunnel has the same number at both ends.  \<open>tk_got\<close> counts the bytes that the read loop has
  taken off the tunnel, \<open>tk_buf\<close> is the buffer of its decoder; the ghost \<open>tk_read\<close> lists the frames
  it has returned.
\<close>

subsection \<open>Tasks\<close>

datatype stage = Draining | Finished | Dropped | Resent

record task =
  tk_drain :: drain
  tk_stage :: stage
  tk_reading :: bool
  tk_buf :: bytes
  tk_got :: nat
  tk_read :: "frame list"

record endpoint =
  en_tasks :: "(nat, task) table"
  en_off :: "link list"

definition endpoint_init :: endpoint where
  "endpoint_init = \<lparr>en_tasks = [], en_off = []\<rparr>"

definition new_task :: "nat \<Rightarrow> u64 \<Rightarrow> real \<Rightarrow> task" where
  "new_task i now_ms now = \<lparr>tk_drain = drain_init (new_link i now_ms) now, tk_stage = Draining, tk_reading = True,
     tk_buf = [], tk_got = 0, tk_read = []\<rparr>"

definition add_task :: "nat \<Rightarrow> u64 \<Rightarrow> real \<Rightarrow> endpoint \<Rightarrow> endpoint" where
  "add_task i now_ms now e = e\<lparr>en_tasks := tins i (new_task i now_ms now) (en_tasks e)\<rparr>"

text \<open>The links that a step of the program took out of the pool.\<close>

definition detach :: "pool \<Rightarrow> pool \<Rightarrow> endpoint \<Rightarrow> endpoint" where
  "detach p p' e = e\<lparr>en_off := en_off e @ filter (\<lambda>l. lk_id l \<notin> lk_id ` set (pl_links p')) (pl_links p)\<rparr>"

definition find_link :: "nat \<Rightarrow> pool \<Rightarrow> endpoint \<Rightarrow> link option" where
  "find_link i p e = find (\<lambda>l. lk_id l = i) (pl_links p @ en_off e)"

definition upd_off :: "nat \<Rightarrow> (link \<Rightarrow> link) \<Rightarrow> endpoint \<Rightarrow> endpoint" where
  "upd_off i g e = e\<lparr>en_off := map (\<lambda>l. if lk_id l = i then g l else l) (en_off e)\<rparr>"

text \<open>
  The drain task: an arm of its loop, the end of the loop, its return.  (\<open>EvSend\<close> and \<open>EvStop\<close> of
  \<open>drain_event\<close> are not moves of the task: other tasks send and stop through the pool.)
\<close>

datatype drain_move = DStep drain_event | DFinish | DDrop

fun may_move :: "drain_move \<Rightarrow> task \<Rightarrow> bool" where
  "may_move (DStep (EvSend f)) t = False"
| "may_move (DStep EvStop) t = False"
| "may_move (DStep ev) t = (tk_stage t = Draining)"
| "may_move DFinish t = (tk_stage t = Draining \<and> dr_dead (tk_drain t))"
| "may_move DDrop t = (tk_stage t = Finished)"

fun drain_act :: "drain_move \<Rightarrow> drain \<Rightarrow> drain" where
  "drain_act (DStep ev) d = drain_step d ev"
| "drain_act DFinish d = drain_finish d"
| "drain_act DDrop d = drain_drop d"

fun next_stage :: "drain_move \<Rightarrow> stage" where
  "next_stage (DStep ev) = Draining" | "next_stage DFinish = Finished" | "next_stage DDrop = Dropped"

definition drain_task :: "nat \<Rightarrow> drain_move \<Rightarrow> pool \<Rightarrow> endpoint \<Rightarrow> pool \<times> endpoint" where
  "drain_task i m p e =
     (case (tget (en_tasks e) i, find_link i p e) of
        (Some t, Some l) \<Rightarrow>
          if may_move m t then
            let d = drain_act m ((tk_drain t)\<lparr>dr_link := l\<rparr>);
                e1 = e\<lparr>en_tasks := tins i (t\<lparr>tk_drain := d, tk_stage := next_stage m\<rparr>) (en_tasks e)\<rparr>
            in (upd_link i (\<lambda>_. dr_link d) p, upd_off i (\<lambda>_. dr_link d) e1)
          else (p, e)
      | _ \<Rightarrow> (p, e))"

text \<open>
  The frames that a drain task left behind, once it has returned.  The splitter takes them when its
  read loop has ended as well (\<open>after_reader\<close>), the reassembler at once.
\<close>

definition take_lost :: "bool \<Rightarrow> nat \<Rightarrow> pool \<Rightarrow> endpoint \<Rightarrow> (frame list \<times> endpoint) option" where
  "take_lost after_reader i p e =
     (case (tget (en_tasks e) i, find_link i p e) of
        (Some t, Some l) \<Rightarrow>
          if tk_stage t = Dropped \<and> (after_reader \<longrightarrow> \<not> tk_reading t)
          then Some (lk_lost l, upd_off i (\<lambda>l. l\<lparr>lk_lost := []\<rparr>)
                 (e\<lparr>en_tasks := tins i (t\<lparr>tk_stage := Resent\<rparr>) (en_tasks e)\<rparr>))
          else None
      | _ \<Rightarrow> None)"

text \<open>What the tunnel carries towards the other end.\<close>

definition wire :: "nat \<Rightarrow> endpoint \<Rightarrow> bytes" where
  "wire i e = (case tget (en_tasks e) i of Some t \<Rightarrow> dr_wire (tk_drain t) | None \<Rightarrow> [])"

text \<open>A read of up to \<open>k\<close> bytes, when the decoder has no complete frame and room in its buffer.\<close>

definition recv_bytes :: "nat \<Rightarrow> nat \<Rightarrow> bytes \<Rightarrow> endpoint \<Rightarrow> endpoint" where
  "recv_bytes i k w e =
     (case tget (en_tasks e) i of
        None \<Rightarrow> e
      | Some t \<Rightarrow>
          if tk_reading t \<and> parse_buffered (tk_buf t) = Inr None \<and> MAX_DECODER_BUF - length (tk_buf t) \<noteq> 0 then
            let bs = take k (drop (tk_got t) w)
            in e\<lparr>en_tasks := tins i (t\<lparr>tk_buf := tk_buf t @ bs, tk_got := tk_got t + length bs\<rparr>) (en_tasks e)\<rparr>
          else e)"

text \<open>The next frame that the decoder returns from its buffer.\<close>

definition next_frame :: "nat \<Rightarrow> endpoint \<Rightarrow> (frame \<times> endpoint) option" where
  "next_frame i e =
     (case tget (en_tasks e) i of
        None \<Rightarrow> None
      | Some t \<Rightarrow>
          if tk_reading t then
            (case parse_buffered (tk_buf t) of
               Inr (Some (f, rest)) \<Rightarrow>
                 Some (f, e\<lparr>en_tasks := tins i (t\<lparr>tk_buf := rest, tk_read := tk_read t @ [f]\<rparr>) (en_tasks e)\<rparr>)
             | _ \<Rightarrow> None)
          else None)"

definition is_reading :: "nat \<Rightarrow> endpoint \<Rightarrow> bool" where
  "is_reading i e \<longleftrightarrow> (case tget (en_tasks e) i of Some t \<Rightarrow> tk_reading t | None \<Rightarrow> False)"

text \<open>The read loop ends: the link is dead and its drain task is told to stop, in or out of the pool.\<close>

definition end_reading :: "nat \<Rightarrow> endpoint \<Rightarrow> endpoint" where
  "end_reading i e =
     (case tget (en_tasks e) i of
        None \<Rightarrow> e
      | Some t \<Rightarrow> upd_off i (\<lambda>l. l\<lparr>lk_alive := False, lk_stop := notify_one (lk_stop l)\<rparr>)
          (e\<lparr>en_tasks := tins i (t\<lparr>tk_reading := False\<rparr>) (en_tasks e)\<rparr>))"

subsection \<open>Lemmas: what the links hold\<close>

text \<open>Every frame queued at a link, or reported by it, is one of \<open>E\<close>.\<close>

definition holds :: "frame set \<Rightarrow> link list \<Rightarrow> bool" where
  "holds E ls \<longleftrightarrow> (\<forall>l \<in> set ls. set (ch_queue (lk_chan l)) \<subseteq> E \<and> set (lk_lost l) \<subseteq> E)"

lemma holds_mono: "holds E ls \<Longrightarrow> E \<subseteq> E' \<Longrightarrow> holds E' ls"
  by (fastforce simp: holds_def)

lemma holds_update:
  assumes "holds E ls" and "set (ch_queue (lk_chan l)) \<subseteq> E" and "set (lk_lost l) \<subseteq> E"
  shows "holds E (ls[j := l])"
  using assms set_update_subset_insert [of ls j l] by (fastforce simp: holds_def)

lemma holds_nth: "holds E ls \<Longrightarrow> j < length ls \<Longrightarrow> set (ch_queue (lk_chan (ls ! j))) \<subseteq> E \<and> set (lk_lost (ls ! j)) \<subseteq> E"
  by (simp add: holds_def)

lemma holds_mem: "holds E ls \<Longrightarrow> l \<in> set ls \<Longrightarrow> holds E [l]"
  by (simp add: holds_def)

lemma holds_map: "holds E ls \<Longrightarrow> (\<And>l. l \<in> set ls \<Longrightarrow> holds E [g l]) \<Longrightarrow> holds E (map g ls)"
  by (simp add: holds_def)

lemma send_from_holds:
  "send_from f js ls = (ok, ls') \<Longrightarrow> holds E ls \<Longrightarrow> \<forall>j \<in> set js. j < length ls \<Longrightarrow> holds (if ok then insert f E else E) ls'"
proof (induction f js ls arbitrary: ok ls' rule: send_from.induct)
  case (2 f j js ls)
  have j: "set (ch_queue (lk_chan (ls ! j))) \<subseteq> E" "set (lk_lost (ls ! j)) \<subseteq> E"
    using holds_nth [OF "2.prems"(2)] "2.prems"(3) by simp_all
  have dead: "holds E (ls[j := (ls ! j)\<lparr>lk_alive := False\<rparr>])"
    using "2.prems"(2) j by (intro holds_update) simp_all
  have sent: "holds (insert f E) (ls[j := (ls ! j)\<lparr>lk_chan := (lk_chan (ls ! j))\<lparr>ch_queue := ch_queue (lk_chan (ls ! j)) @ [f]\<rparr>\<rparr>])"
    using holds_mono [OF "2.prems"(2), of "insert f E"] j by (intro holds_update) auto
  note unf = send_from.simps(2) [of f j js ls]
  show ?case
  proof (cases "lk_alive (ls ! j)")
    case False
    then show ?thesis using "2.IH"(1) [OF refl False] "2.prems" by (simp add: unf Let_def)
  next
    case True
    from try_send_cases [of "lk_chan (ls ! j)" f] show ?thesis
    proof (elim disjE conjE)
      assume "try_send (lk_chan (ls ! j)) f =
          (SendOk, (lk_chan (ls ! j))\<lparr>ch_queue := ch_queue (lk_chan (ls ! j)) @ [f]\<rparr>)"
      then show ?thesis using True sent "2.prems"(1) by (auto simp: unf Let_def)
    next
      assume t: "try_send (lk_chan (ls ! j)) f = (SendFull, lk_chan (ls ! j))"
      then show ?thesis using "2.IH"(2) [OF refl _ t [symmetric] refl] True "2.prems" by (simp add: unf Let_def)
    next
      assume t: "try_send (lk_chan (ls ! j)) f = (SendClosed, lk_chan (ls ! j))"
      then show ?thesis using "2.IH"(3) [OF refl _ t [symmetric] refl _ dead] True "2.prems" by (simp add: unf Let_def)
    qed
  qed
qed simp

lemma pool_send_holds:
  assumes "pool_send f p = (ok, p')" and "holds E (pl_links p)"
  shows "holds (if ok then insert f E else E) (pl_links p')"
proof (cases "pl_links p = []")
  case False
  then obtain ls where "send_from f (map (\<lambda>i. (unat (pl_rr p) mod length (pl_links p) + i) mod length (pl_links p))
      [0..<length (pl_links p)]) (pl_links p) = (ok, ls)" "pl_links p' = ls"
    using assms(1) by (auto simp: pool_send_def Let_def split: prod.splits)
  then show ?thesis using send_from_holds [OF _ assms(2)] False by simp
qed (use assms in \<open>auto simp: pool_send_def\<close>)

lemma upd_link_holds:
  assumes "holds E (pl_links p)" and "\<And>l. l \<in> set (pl_links p) \<Longrightarrow> lk_id l = i \<Longrightarrow> holds E [g l]"
  shows "holds E (pl_links (upd_link i g p))"
  using assms by (auto simp: upd_link_def holds_def)

lemma iter_holds:
  assumes "send_async_iter rnd f full p = (out, p')" and "holds E (pl_links p)"
  shows "holds (if out = Sent then insert f E else E) (pl_links p')"
proof (cases "weighted_pick rnd full p")
  case (Pair r q)
  have q: "pl_links q = pl_links p" using weighted_pick_links [of rnd full p] Pair by simp
  show ?thesis
  proof (cases r)
    case None
    then show ?thesis using assms Pair q by (auto simp: send_async_iter_def split: if_splits)
  next
    case (Some l)
    then have "l \<in> set (pl_links p)" using weighted_pick_Some [OF Pair [unfolded Some]] by simp
    then have l: "set (ch_queue (lk_chan l)) \<subseteq> E" "set (lk_lost l) \<subseteq> E" using assms(2) by (simp_all add: holds_def)
    have dead: "holds E (pl_links (upd_link (lk_id l) (\<lambda>l. l\<lparr>lk_alive := False\<rparr>) q))"
      using assms(2) q by (intro upd_link_holds) (auto simp: holds_def)
    have sent: "holds (insert f E) (pl_links (upd_link (lk_id l)
        (\<lambda>l'. l'\<lparr>lk_chan := (lk_chan l)\<lparr>ch_queue := ch_queue (lk_chan l) @ [f]\<rparr>\<rparr>) q))"
      using holds_mono [OF assms(2), of "insert f E"] l q by (intro upd_link_holds) (auto simp: holds_def)
    show ?thesis
      using assms Pair Some q dead sent try_send_cases [of "lk_chan l" f] by (auto simp: send_async_iter_def)
  qed
qed

lemma burst_holds:
  "send_async_burst rnd f full p = (out, p') \<Longrightarrow> holds E (pl_links p) \<Longrightarrow>
     holds (if out = Sent then insert f E else E) (pl_links p')"
proof (induction rnd f full p rule: send_async_burst.induct)
  case (1 rnd f full p)
  obtain o1 p1 where it: "send_async_iter rnd f full p = (o1, p1)" by force
  note h = iter_holds [OF it "1.prems"(2)]
  show ?case
  proof (cases o1)
    case (Repick full')
    then show ?thesis
      using "1.IH" [OF it [symmetric] Repick] "1.prems"(1) h it by (simp add: send_async_burst.simps [of rnd f full p])
  qed (use "1.prems"(1) h it in \<open>auto simp: send_async_burst.simps [of rnd f full p]\<close>)
qed

lemma compact_holds: "holds E (pl_links p) \<Longrightarrow> holds E (pl_links (compact p))"
  by (simp add: compact_def holds_def Let_def)

lemma sweep_idle_holds: "holds E (pl_links p) \<Longrightarrow> holds E (pl_links (snd (sweep_idle n k p)))"
  by (fastforce simp: sweep_idle_def holds_def)

lemma pool_add_holds: "holds E (pl_links p) \<Longrightarrow> holds E (pl_links (pool_add p (new_link i ms)))"
  by (simp add: pool_add_def holds_def new_link_def new_chan_def)

lemma holds_append [simp]: "holds E (ls @ ls') \<longleftrightarrow> holds E ls \<and> holds E ls'"
  by (auto simp: holds_def)

subsection \<open>Lemmas: the wire\<close>

definition wire_ok :: "frame set \<Rightarrow> drain \<Rightarrow> bool" where
  "wire_ok E d \<longleftrightarrow> set (dr_written d) \<subseteq> E \<and> (\<forall>f \<in> set (dr_written d). length (payload f) \<le> MAX_PAYLOAD)
     \<and> (\<exists>part. dr_wire d = wire_of (dr_written d) @ part
          \<and> (part \<noteq> [] \<longrightarrow> dr_dead d \<and> (\<exists>f \<in> E. \<exists>w rest. encode f = Inr w \<and> w = part @ rest)))"

lemma wire_ok_mono: "wire_ok E d \<Longrightarrow> E \<subseteq> E' \<Longrightarrow> wire_ok E' d"
  unfolding wire_ok_def by blast

lemma wire_ok_link [simp]: "wire_ok E (d\<lparr>dr_link := l\<rparr>) = wire_ok E d"
  by (simp add: wire_ok_def)

lemma drain_frame_wire:
  assumes ok: "wire_ok E d" and live: "\<not> dr_dead d" and h: "holds E [dr_link d]"
  shows "wire_ok E (drain_frame w d) \<and> holds E [dr_link (drain_frame w d)]
    \<and> (\<exists>x. dr_wire (drain_frame w d) = dr_wire d @ x)"
proof (cases "ch_queue (lk_chan (dr_link d))")
  case Nil
  with ok h show ?thesis by (simp add: drain_frame_def try_recv_def)
next
  case (Cons f q)
  have f: "f \<in> E" "set q \<subseteq> E" "set (lk_lost (dr_link d)) \<subseteq> E" using h Cons by (auto simp: holds_def)
  have wr: "dr_wire d = wire_of (dr_written d)" "set (dr_written d) \<subseteq> E"
    "\<forall>f \<in> set (dr_written d). length (payload f) \<le> MAX_PAYLOAD" using ok live by (auto simp: wire_ok_def)
  show ?thesis
  proof (cases "encode f")
    case (Inl e)
    with Cons f wr show ?thesis
      by (simp add: drain_frame_def try_recv_def encode_def lose_frame_def wire_ok_def holds_def)
  next
    case (Inr enc)
    have part: "\<exists>rest. enc = take k enc @ rest" for k by (metis append_take_drop_id)
    from Inr have len: "length (payload f) \<le> MAX_PAYLOAD" by (simp add: encode_Inr_iff)
    show ?thesis
    proof (cases w)
      case (WrStop k)
      have "\<exists>f \<in> E. \<exists>w rest. encode f = Inr w \<and> w = take k enc @ rest" using f(1) Inr part by blast
      then show ?thesis using WrStop Cons Inr f wr ok h
        by (auto simp: drain_frame_def try_recv_def encode_def [symmetric] lose_frame_def wire_ok_def holds_def Let_def)
    next
      case (WrOk ms now)
      then show ?thesis using Cons Inr f wr len
        by (simp add: drain_frame_def try_recv_def encode_def [symmetric] wire_ok_def holds_def wire_of_one Let_def)
    next
      case (WrFail k)
      have "\<exists>f \<in> E. \<exists>w rest. encode f = Inr w \<and> w = take k enc @ rest" using f(1) Inr part by blast
      then show ?thesis using WrFail Cons Inr f wr
        by (simp add: drain_frame_def try_recv_def encode_def [symmetric] wire_ok_def holds_def Let_def)
    qed
  qed
qed

lemma drain_act_wire:
  assumes "wire_ok E d" and "holds E [dr_link d]" and "may_move m t"
  shows "wire_ok E (drain_act m d) \<and> holds E [dr_link (drain_act m d)] \<and> (\<exists>x. dr_wire (drain_act m d) = dr_wire d @ x)"
proof (cases m)
  case (DStep ev)
  then show ?thesis using assms drain_frame_wire [OF assms(1) _ assms(2)]
    by (cases ev) (auto simp: drain_step_def wire_ok_def holds_def Let_def)
next
  case DFinish
  then show ?thesis using assms(1,2) by (auto simp: drain_finish_def wire_ok_def holds_def Let_def)
next
  case DDrop
  then show ?thesis using assms(1,2) by (auto simp: drain_drop_def wire_ok_def holds_def)
qed

text \<open>The bytes of a tunnel are bytes of frames of \<open>E\<close>, so complete frames read from them are of \<open>E\<close>.\<close>

lemma wire_prefix:
  assumes "wire_ok E d" and ws: "map encode fs = map Inr ws" and "dr_wire d = concat ws @ rest"
  shows "(\<exists>more. dr_written d = fs @ more) \<or> dr_dead d \<and> (\<exists>f \<in> E. fs = dr_written d @ [f])"
proof -
  obtain part where part: "dr_wire d = wire_of (dr_written d) @ part"
    "part \<noteq> [] \<longrightarrow> dr_dead d \<and> (\<exists>f \<in> E. \<exists>w rest. encode f = Inr w \<and> w = part @ rest)" using assms(1) by (auto simp: wire_ok_def)
  obtain vs where vs: "map encode (dr_written d) = map Inr vs" "wire_of (dr_written d) = concat vs"
    using wire_of_encoded assms(1) unfolding wire_ok_def by blast
  show ?thesis
  proof (cases "part = []")
    case True
    then have "concat vs = concat ws @ rest" using part(1) vs(2) assms(3) by simp
    then show ?thesis using encoded_prefix [OF ws vs(1)] by auto
  next
    case False
    then obtain f w r where f: "dr_dead d" "f \<in> E" "encode f = Inr w" "w = part @ r" using part(2) by blast
    have "map encode (dr_written d @ [f]) = map Inr (vs @ [w])" using vs(1) f(3) by simp
    moreover have "concat (vs @ [w]) = concat ws @ rest @ r" using part(1) vs(2) assms(3) f(4) by simp
    ultimately obtain hs where "dr_written d @ [f] = fs @ hs" using encoded_prefix [OF ws] by blast
    then show ?thesis using f(1,2) by (cases hs rule: rev_cases) auto
  qed
qed

lemma wire_frames:
  assumes "wire_ok E d" and "map encode fs = map Inr ws" and "dr_wire d = concat ws @ rest"
  shows "set fs \<subseteq> E"
  using wire_prefix [OF assms] assms(1) by (auto simp: wire_ok_def)

subsection \<open>The invariant of an end\<close>

text \<open>
  \<open>end_ok E\<close>: queues, reports and wires hold frames of \<open>E\<close> only.  \<open>read_ok w\<close>: what the read loops have
  taken off the tunnels \<open>w\<close> is the encoding of the frames they returned, then what is in the buffer.
\<close>

definition end_ok :: "frame set \<Rightarrow> pool \<Rightarrow> endpoint \<Rightarrow> bool" where
  "end_ok E p e \<longleftrightarrow> holds E (pl_links p) \<and> holds E (en_off e)
     \<and> (\<forall>i t. tget (en_tasks e) i = Some t \<longrightarrow> wire_ok E (tk_drain t))"

definition read_task :: "bytes \<Rightarrow> task \<Rightarrow> bool" where
  "read_task w t \<longleftrightarrow> tk_got t \<le> length w \<and> take (tk_got t) w = wire_of (tk_read t) @ tk_buf t
     \<and> (\<forall>f \<in> set (tk_read t). length (payload f) \<le> MAX_PAYLOAD)"

lemma read_task_prefix: "read_task w t \<Longrightarrow> \<exists>ws rest. map encode (tk_read t) = map Inr ws \<and> w = concat ws @ rest"
  unfolding read_task_def using wire_of_encoded [of "tk_read t"] by (metis append_assoc append_take_drop_id)

definition read_ok :: "(nat \<Rightarrow> bytes) \<Rightarrow> endpoint \<Rightarrow> bool" where
  "read_ok w e \<longleftrightarrow> (\<forall>i t. tget (en_tasks e) i = Some t \<longrightarrow> read_task (w i) t)"

definition wires_grow :: "endpoint \<Rightarrow> endpoint \<Rightarrow> bool" where
  "wires_grow e e' \<longleftrightarrow> (\<forall>i. \<exists>x. wire i e' = wire i e @ x)"

lemma wires_grow_refl [simp]: "wires_grow e e"
  by (simp add: wires_grow_def)

lemma read_ok_grow: "read_ok (\<lambda>i. wire i e) e0 \<Longrightarrow> wires_grow e e' \<Longrightarrow> read_ok (\<lambda>i. wire i e') e0"
proof -
  assume r: "read_ok (\<lambda>i. wire i e) e0" and g: "wires_grow e e'"
  have "read_task (wire i e') t" if "tget (en_tasks e0) i = Some t" for i t
  proof -
    obtain x where "wire i e' = wire i e @ x" using g by (auto simp: wires_grow_def)
    moreover have "read_task (wire i e) t" using r that by (simp add: read_ok_def)
    ultimately show ?thesis by (simp add: read_task_def)
  qed
  then show ?thesis by (simp add: read_ok_def)
qed

lemma end_ok_mono: "end_ok E p e \<Longrightarrow> E \<subseteq> E' \<Longrightarrow> end_ok E' p e"
  unfolding end_ok_def using holds_mono wire_ok_mono by blast

lemma detach_tasks [simp]: "en_tasks (detach p p' e) = en_tasks e"
  by (simp add: detach_def)

lemma upd_off_tasks [simp]: "en_tasks (upd_off i g e) = en_tasks e" "wire j (upd_off i g e) = wire j e"
  "read_ok w (upd_off i g e) = read_ok w e"
  by (simp_all add: upd_off_def wire_def read_ok_def)

lemma detach_wire [simp]: "wire i (detach p p' e) = wire i e" "read_ok w (detach p p' e) = read_ok w e"
  "wires_grow e0 (detach p p' e) = wires_grow e0 e" "wires_grow (detach p p' e) e0 = wires_grow e e0"
  by (simp_all add: wire_def read_ok_def wires_grow_def)

lemma detach_ok: "end_ok E p e \<Longrightarrow> holds E (pl_links p') \<Longrightarrow> end_ok E p' (detach p p' e)"
  by (auto simp: end_ok_def detach_def) (simp add: holds_def)

lemma add_task_ok: "end_ok E p e \<Longrightarrow> end_ok E p (add_task i ms now e)"
  by (auto simp: end_ok_def add_task_def new_task_def drain_init_def wire_ok_def wire_of_def table_simps split: if_splits)

lemma add_task_read:
  assumes "\<not> thas (en_tasks e) i"
  shows "read_ok w e \<Longrightarrow> read_ok w (add_task i ms now e)" and "wires_grow e (add_task i ms now e)"
  using assms
  by (auto simp: read_ok_def read_task_def wires_grow_def wire_def add_task_def new_task_def drain_init_def wire_of_def
      table_simps thas_def split: if_splits)

lemma upd_off_ok:
  "end_ok E p e \<Longrightarrow> (\<And>l. holds E [l] \<Longrightarrow> holds E [g l]) \<Longrightarrow> end_ok E p (upd_off i g e)"
  by (auto simp: end_ok_def upd_off_def holds_mem intro!: holds_map)

lemma find_link_holds: "end_ok E p e \<Longrightarrow> find_link i p e = Some l \<Longrightarrow> holds E [l]"
proof -
  assume ok: "end_ok E p e" and "find_link i p e = Some l"
  then have "l \<in> set (pl_links p @ en_off e)" unfolding find_link_def by (metis find_Some_iff nth_mem)
  moreover have "holds E (pl_links p @ en_off e)" using ok by (simp add: end_ok_def)
  ultimately show "holds E [l]" by (rule holds_mem [rotated])
qed

lemma set_task_ok:
  "end_ok E p e \<Longrightarrow> wire_ok E (tk_drain t) \<Longrightarrow> end_ok E p (e\<lparr>en_tasks := tins i t (en_tasks e)\<rparr>)"
  by (auto simp: end_ok_def table_simps split: if_splits)

lemma set_task_read:
  "read_ok w e \<Longrightarrow> read_task (w i) t \<Longrightarrow> read_ok w (e\<lparr>en_tasks := tins i t (en_tasks e)\<rparr>)"
  by (auto simp: read_ok_def table_simps split: if_splits)

lemma set_task_grow:
  assumes "tget (en_tasks e) i = Some t" and "dr_wire (tk_drain t') = dr_wire (tk_drain t) @ x"
  shows "wires_grow e (e\<lparr>en_tasks := tins i t' (en_tasks e)\<rparr>)"
  using assms by (auto simp: wires_grow_def wire_def table_simps)

lemma task_facts:
  assumes "tget (en_tasks e) i = Some t"
  shows "end_ok E p e \<Longrightarrow> wire_ok E (tk_drain t)" and "read_ok w e \<Longrightarrow> read_task (w i) t"
  using assms by (auto simp: end_ok_def read_ok_def)

lemma drain_task_ok:
  assumes "drain_task i m p e = (p', e')" and ok: "end_ok E p e"
  shows "end_ok E p' e' \<and> wires_grow e e' \<and> (read_ok w e \<longrightarrow> read_ok w e')"
proof (cases "\<exists>t l. tget (en_tasks e) i = Some t \<and> find_link i p e = Some l \<and> may_move m t")
  case False
  then show ?thesis using assms by (auto simp: drain_task_def split: option.splits if_splits)
next
  case True
  then obtain t l where t: "tget (en_tasks e) i = Some t" "find_link i p e = Some l" "may_move m t" by blast
  let ?d = "drain_act m ((tk_drain t)\<lparr>dr_link := l\<rparr>)"
  let ?t = "t\<lparr>tk_drain := ?d, tk_stage := next_stage m\<rparr>"
  have eq: "p' = upd_link i (\<lambda>_. dr_link ?d) p"
    "e' = upd_off i (\<lambda>_. dr_link ?d) (e\<lparr>en_tasks := tins i ?t (en_tasks e)\<rparr>)"
    using assms(1) t by (simp_all add: drain_task_def Let_def)
  have l: "holds E [l]" using ok t(2) by (rule find_link_holds)
  have "wire_ok E ?d \<and> holds E [dr_link ?d] \<and> (\<exists>x. dr_wire ?d = dr_wire ((tk_drain t)\<lparr>dr_link := l\<rparr>) @ x)"
    by (rule drain_act_wire [OF _ _ t(3)]) (use task_facts(1) [OF t(1) ok] l in simp_all)
  then obtain x where d: "wire_ok E ?d" "holds E [dr_link ?d]" "dr_wire ?d = dr_wire (tk_drain t) @ x" by auto
  have e1: "end_ok E p (e\<lparr>en_tasks := tins i ?t (en_tasks e)\<rparr>)" using ok d(1) by (intro set_task_ok) simp_all
  have off: "end_ok E p e'" unfolding eq(2) by (rule upd_off_ok [OF e1]) (rule d(2))
  have "holds E (pl_links p')" unfolding eq(1) by (rule upd_link_holds) (use ok d(2) in \<open>auto simp: end_ok_def\<close>)
  then have "end_ok E p' e'" using off by (simp add: end_ok_def)
  moreover have "wires_grow e e'" unfolding eq(2) using set_task_grow [OF t(1), of ?t x] d(3) by (simp add: wires_grow_def)
  moreover have "read_ok w e \<Longrightarrow> read_ok w e'"
    unfolding eq(2) using task_facts(2) [OF t(1)] by (auto simp: read_task_def intro!: set_task_read)
  ultimately show ?thesis by blast
qed

lemma same_wire: "tget (en_tasks e) i = Some t \<Longrightarrow> tk_drain t' = tk_drain t \<Longrightarrow> wires_grow e (e\<lparr>en_tasks := tins i t' (en_tasks e)\<rparr>)"
  by (rule set_task_grow [where x = "[]"]) simp_all

lemma take_length_take: "take (length (take k xs)) xs = take k xs"
  by (simp add: min_def)

lemma recv_bytes_ok:
  assumes "end_ok E p e" and "read_ok w e"
  shows "end_ok E p (recv_bytes i k (w i) e) \<and> read_ok w (recv_bytes i k (w i) e) \<and> wires_grow e (recv_bytes i k (w i) e)"
proof (cases "tget (en_tasks e) i")
  case (Some t)
  have r: "read_task (w i) t" "wire_ok E (tk_drain t)" using task_facts [OF Some] assms by auto
  then have "read_task (w i) (t\<lparr>tk_buf := tk_buf t @ take k (drop (tk_got t) (w i)),
      tk_got := tk_got t + length (take k (drop (tk_got t) (w i)))\<rparr>)"
    by (auto simp: read_task_def take_add take_length_take simp del: length_take length_drop) simp
  with r show ?thesis using Some assms
    by (auto simp: recv_bytes_def Let_def intro!: set_task_ok set_task_read same_wire)
qed (use assms in \<open>simp add: recv_bytes_def\<close>)

lemma end_reading_ok:
  assumes "end_ok E p e" and "read_ok w e"
  shows "end_ok E p (end_reading i e) \<and> read_ok w (end_reading i e) \<and> wires_grow e (end_reading i e)"
proof (cases "tget (en_tasks e) i")
  case (Some t)
  let ?e = "e\<lparr>en_tasks := tins i (t\<lparr>tk_reading := False\<rparr>) (en_tasks e)\<rparr>"
  have "end_ok E p ?e" "read_ok w ?e" "wires_grow e ?e"
    using task_facts [OF Some] assms Some by (auto simp: read_task_def intro!: set_task_ok set_task_read same_wire)
  then show ?thesis using Some by (auto simp: end_reading_def wires_grow_def holds_def intro!: upd_off_ok)
qed (use assms in \<open>simp add: end_reading_def\<close>)

lemma take_lost_ok:
  assumes "take_lost b i p e = Some (lost, e')" and "end_ok E p e"
  shows "set lost \<subseteq> E \<and> end_ok E p e' \<and> wires_grow e e' \<and> (read_ok w e \<longrightarrow> read_ok w e')"
proof -
  obtain t l where t: "tget (en_tasks e) i = Some t" "find_link i p e = Some l" "lost = lk_lost l"
    "e' = upd_off i (\<lambda>l. l\<lparr>lk_lost := []\<rparr>) (e\<lparr>en_tasks := tins i (t\<lparr>tk_stage := Resent\<rparr>) (en_tasks e)\<rparr>)"
    using assms(1) by (auto simp: take_lost_def split: option.splits if_splits)
  have "end_ok E p e'" unfolding t(4) using task_facts(1) [OF t(1) assms(2)] assms(2)
    by (intro upd_off_ok set_task_ok) (auto simp: holds_def)
  moreover have "wires_grow e e'" unfolding t(4) using same_wire [OF t(1), of "t\<lparr>tk_stage := Resent\<rparr>"]
    by (simp add: wires_grow_def)
  moreover have "read_ok w e \<Longrightarrow> read_ok w e'"
    unfolding t(4) using task_facts(2) [OF t(1)] by (auto simp: read_task_def intro!: set_task_read)
  ultimately show ?thesis using find_link_holds [OF assms(2) t(2)] t(3) by (auto simp: holds_def)
qed

text \<open>A frame that a read loop returns was sent by the other end.\<close>

lemma next_frame_ok:
  assumes n: "next_frame i e = Some (f, e')" and ok: "end_ok E p e" and r: "read_ok (\<lambda>i. wire i e2) e" and peer: "end_ok E2 p2 e2"
  shows "f \<in> E2 \<and> end_ok E p e' \<and> read_ok (\<lambda>i. wire i e2) e' \<and> wires_grow e e'"
proof -
  obtain t rest where t: "tget (en_tasks e) i = Some t" "parse_buffered (tk_buf t) = Inr (Some (f, rest))"
    "e' = e\<lparr>en_tasks := tins i (t\<lparr>tk_buf := rest, tk_read := tk_read t @ [f]\<rparr>) (en_tasks e)\<rparr>"
    using n by (auto simp: next_frame_def split: option.splits if_splits sum.splits)
  obtain w where w: "encode f = Inr w" "tk_buf t = w @ rest" using parse_buffered_sound [OF t(2)] by blast
  have len: "length (payload f) \<le> MAX_PAYLOAD" using w(1) by (simp add: encode_Inr_iff)
  have got: "read_task (wire i e2) t" using task_facts(2) [OF t(1) r] .
  have "read_task (wire i e2) (t\<lparr>tk_buf := rest, tk_read := tk_read t @ [f]\<rparr>)"
    using got w len by (auto simp: read_task_def wire_of_one)
  moreover obtain ws where ws: "map encode (tk_read t) = map Inr ws" "wire_of (tk_read t) = concat ws"
    using wire_of_encoded got unfolding read_task_def by blast
  have wi: "wire i e2 = concat (ws @ [w]) @ rest @ drop (tk_got t) (wire i e2)"
    using got w ws(2) append_take_drop_id [of "tk_got t" "wire i e2"] by (auto simp: read_task_def)
  have "w \<noteq> []" using encode_length [OF w(1)] by (auto simp: frame_consts)
  then have "wire i e2 \<noteq> []" using wi by (metis append_is_Nil_conv concat_append concat.simps(2))
  then obtain u where u: "tget (en_tasks e2) i = Some u" "wire i e2 = dr_wire (tk_drain u)"
    by (auto simp: wire_def split: option.splits)
  have "map encode (tk_read t @ [f]) = map Inr (ws @ [w])" using ws(1) w(1) by simp
  then have "set (tk_read t @ [f]) \<subseteq> E2" using wire_frames task_facts(1) [OF u(1) peer] u(2) wi by metis
  ultimately show ?thesis
    unfolding t(3) using ok r task_facts(1) [OF t(1) ok] t(1) by (auto intro!: set_task_ok set_task_read same_wire)
qed

subsection \<open>The program at an end\<close>

text \<open>
  What the tunnels need of the program that uses them: its steps record what they put into the queues of
  the pool, and keep the record.  \<open>fine\<close> says which events may happen in which state.
\<close>

locale tunnel_user =
  fixes pool_of :: "'s \<Rightarrow> pool" and emitted_of :: "'s \<Rightarrow> frame list" and exec :: "'ev \<Rightarrow> 's \<Rightarrow> 's"
    and fine :: "'ev \<Rightarrow> 's \<Rightarrow> bool" and inv :: "'s \<Rightarrow> bool"
  assumes exec_inv: "inv s \<Longrightarrow> fine ev s \<Longrightarrow> inv (exec ev s)"
    and exec_emits: "inv s \<Longrightarrow> fine ev s \<Longrightarrow> set (emitted_of s) \<subseteq> set (emitted_of (exec ev s))"
    and exec_holds: "fine ev s \<Longrightarrow> holds (set (emitted_of s)) (pl_links (pool_of s)) \<Longrightarrow>
      holds (set (emitted_of (exec ev s))) (pl_links (pool_of (exec ev s)))"
begin

lemma exec_end_ok:
  assumes "inv s" and "fine ev s" and ok: "end_ok (set (emitted_of s)) (pool_of s) e"
  shows "end_ok (set (emitted_of (exec ev s))) (pool_of (exec ev s)) (detach (pool_of s) (pool_of (exec ev s)) e)"
  by (rule detach_ok [OF end_ok_mono [OF ok exec_emits [OF assms(1,2)]]])
     (use exec_holds [OF assms(2)] ok in \<open>simp add: end_ok_def\<close>)

end

end
