(* ===== verification/Reorder.thy ===== *)
theory Reorder
  imports Frame
begin

text \<open>
  The reorder buffer of \<open>src/src/reorder.rs\<close>, which both ends run once per virtual connection:
  chunks arrive out of order over several tunnels and leave in sequence order.

  \<open>reorder_buf\<close> is \<open>ReorderBuf\<close>; its \<open>BTreeMap\<close> is a table.  The byte counter is a natural
  number: the invariant \<open>rb_inv\<close> (kept by every operation) says that it is the sum of the
  buffered lengths, so the subtraction of the source never underflows.  The locale
  \<open>sequencer\<close> is the contract that the receivers rely on: what one \<open>push\<close> does to the
  buffer.  Inside it the stream lemmas are proved once (delivered data is a prefix of what was
  sent; it is all of it once everything arrived), and \<open>push\<close> is shown to meet the contract.
\<close>

subsection \<open>Definitions\<close>

record push_result =
  ready :: "bytes list"
  accepted :: bool
  overflow :: bool

record reorder_buf =
  rb_expected :: u64
  rb_pending :: "(u64, bytes) table"
  rb_pending_bytes :: nat
  rb_max_bytes :: nat
  rb_max_entries :: nat

definition with_limit :: "nat \<Rightarrow> reorder_buf" where
  "with_limit max_bytes =
     \<lparr>rb_expected = 1, rb_pending = [], rb_pending_bytes = 0, rb_max_bytes = max_bytes,
      rb_max_entries = max (max_bytes div MAX_PAYLOAD) MAX_REORDER_WINDOW\<rparr>"

definition reorder_new :: reorder_buf where
  "reorder_new = with_limit MAX_REORDER_BYTES"

lemma length_delete_less: "tget t k = Some v \<Longrightarrow> length (tdel k t) < length t"
  by (induction t) (auto simp: length_delete_le less_Suc_eq_le split: if_splits)

text \<open>\<open>while let Some(chunk) = self.pending.remove(&self.expected)\<close>\<close>

function drain_pending :: "reorder_buf \<Rightarrow> bytes list \<Rightarrow> reorder_buf \<times> bytes list" where
  "drain_pending b out =
     (case tget (rb_pending b) (rb_expected b) of
        None \<Rightarrow> (b, out)
      | Some chunk \<Rightarrow>
          drain_pending
            (b\<lparr>rb_pending := tdel (rb_expected b) (rb_pending b),
               rb_pending_bytes := rb_pending_bytes b - length chunk,
               rb_expected := rb_expected b + 1\<rparr>)
            (out @ [chunk]))"
  by pat_completeness auto
termination
  by (relation "measure (\<lambda>(b, out). length (rb_pending b))") (auto simp: length_delete_less)

declare drain_pending.simps [simp del]

definition push :: "reorder_buf \<Rightarrow> u64 \<Rightarrow> bytes \<Rightarrow> reorder_buf \<times> push_result" where
  "push b sq pl =
     (if sq < rb_expected b then (b, \<lparr>ready = [], accepted = False, overflow = False\<rparr>)
      else if sq = rb_expected b then
        (let (b', out) = drain_pending (b\<lparr>rb_expected := rb_expected b + 1\<rparr>) [pl]
         in (b', \<lparr>ready = out, accepted = True, overflow = False\<rparr>))
      else
        let can_buffer = length (rb_pending b) < rb_max_entries b
                         \<and> rb_pending_bytes b + length pl \<le> rb_max_bytes b
        in case tget (rb_pending b) sq of
             None \<Rightarrow>
               if can_buffer then
                 (b\<lparr>rb_pending_bytes := rb_pending_bytes b + length pl,
                    rb_pending := tins sq pl (rb_pending b)\<rparr>,
                  \<lparr>ready = [], accepted = True, overflow = False\<rparr>)
               else (b, \<lparr>ready = [], accepted = False, overflow = True\<rparr>)
           | Some _ \<Rightarrow> (b, \<lparr>ready = [], accepted = False, overflow = False\<rparr>))"

definition is_complete_through :: "reorder_buf \<Rightarrow> u64 \<Rightarrow> bool" where
  "is_complete_through b sq \<longleftrightarrow> rb_expected b \<ge> sq"

text \<open>The invariant of the buffer.\<close>

definition rb_inv :: "reorder_buf \<Rightarrow> bool" where
  "rb_inv b \<longleftrightarrow> twf (rb_pending b)
     \<and> rb_pending_bytes b = tsum length (rb_pending b)
     \<and> (\<forall>k v. tget (rb_pending b) k = Some v \<longrightarrow> rb_expected b < k)
     \<and> length (rb_pending b) \<le> rb_max_entries b
     \<and> rb_pending_bytes b \<le> rb_max_bytes b"

text \<open>
  Feeding a list of frames to a buffer operation; a receiver resets the connection at the first
  overflow, so feeding stops there.  The result is the buffer, what was delivered, in order, and
  whether an overflow ended it.
\<close>

fun feed :: "('b \<Rightarrow> u64 \<Rightarrow> bytes \<Rightarrow> 'b \<times> push_result) \<Rightarrow> 'b \<Rightarrow> (u64 \<times> bytes) list
    \<Rightarrow> 'b \<times> bytes list \<times> bool" where
  "feed st b [] = (b, [], False)"
| "feed st b ((sq, pl) # xs) =
     (let (b', r) = st b sq pl in
      if overflow r then (b', ready r, True)
      else let (b'', out, ovf) = feed st b' xs in (b'', ready r @ out, ovf))"

text \<open>
  The stream of a sender: chunk number \<open>i\<close> (from 1) of \<open>ps\<close> travels with sequence number \<open>i\<close>.
\<close>

definition in_stream :: "bytes list \<Rightarrow> u64 \<Rightarrow> bytes \<Rightarrow> bool" where
  "in_stream ps k v \<longleftrightarrow> 1 \<le> unat k \<and> unat k \<le> length ps \<and> v = ps ! (unat k - 1)"

text \<open>
  \<open>sent\<close> gives the chunks that the peer sends on each connection.  A frame is legitimate when
  it is one of them with its number, or the FIN that follows them.
\<close>

definition legit :: "(u32 \<Rightarrow> bytes list) \<Rightarrow> frame \<Rightarrow> bool" where
  "legit sent f \<longleftrightarrow>
     length (sent (conn_id f)) + 1 < 2 ^ 64
     \<and> (has_flag f FLAG_DATA \<longrightarrow> in_stream (sent (conn_id f)) (seq f) (payload f))
     \<and> (has_flag f FLAG_FIN \<and> \<not> has_flag f FLAG_DATA \<longrightarrow>
          seq f = word_of_nat (length (sent (conn_id f)) + 1))"

subsection \<open>The contract of a receiver's buffer\<close>

text \<open>
  \<open>step\<close> is the operation, \<open>nxt\<close> the next sequence number to deliver, \<open>held\<close> what is buffered.
\<close>

locale sequencer =
  fixes step :: "'b \<Rightarrow> u64 \<Rightarrow> bytes \<Rightarrow> 'b \<times> push_result"
    and nxt :: "'b \<Rightarrow> u64"
    and held :: "'b \<Rightarrow> u64 \<Rightarrow> bytes option"
    and ok :: "'b \<Rightarrow> bool"
  assumes ok_step: "ok b \<Longrightarrow> ok (fst (step b s p))"
    and held_above: "ok b \<Longrightarrow> held b k = Some v \<Longrightarrow> nxt b < k"
    and step_duplicate: "s < nxt b \<or> held b s \<noteq> None \<Longrightarrow> ok b \<Longrightarrow>
          step b s p = (b, \<lparr>ready = [], accepted = False, overflow = False\<rparr>)"
    and step_ahead: "ok b \<Longrightarrow> nxt b < s \<Longrightarrow> held b s = None \<Longrightarrow>
          step b s p = (b, \<lparr>ready = [], accepted = False, overflow = True\<rparr>)
          \<or> (\<exists>b'. step b s p = (b', \<lparr>ready = [], accepted = True, overflow = False\<rparr>)
              \<and> nxt b' = nxt b \<and> held b' = (held b)(s \<mapsto> p))"
    and step_next: "ok b \<Longrightarrow>
          \<exists>b' n. step b (nxt b) p =
              (b', \<lparr>ready = p # map (\<lambda>i. the (held b (nxt b + 1 + word_of_nat i))) [0..<n],
                   accepted = True, overflow = False\<rparr>)
            \<and> (\<forall>i<n. held b (nxt b + 1 + word_of_nat i) \<noteq> None)
            \<and> nxt b' = nxt b + 1 + word_of_nat n
            \<and> (\<forall>k v. held b' k = Some v \<longrightarrow> held b k = Some v)
            \<and> (\<forall>k. held b k \<noteq> None \<longrightarrow> held b' k \<noteq> None
                   \<or> (\<exists>i<n. k = nxt b + 1 + word_of_nat i))"


lemma unat_plus1_plus:
  fixes w :: u64
  assumes "unat w + 1 + i < 2 ^ 64"
  shows "unat (w + 1 + word_of_nat i) = unat w + 1 + i"
proof -
  have eq: "w + 1 + word_of_nat i = word_of_nat (unat w + 1 + i)" by simp
  show ?thesis unfolding eq using assms by (subst unat_of_nat) simp
qed

context sequencer
begin

definition stream_rel :: "bytes list \<Rightarrow> 'b \<Rightarrow> bytes list \<Rightarrow> bool" where
  "stream_rel ps b out \<longleftrightarrow> ok b \<and> 1 \<le> unat (nxt b) \<and> unat (nxt b) \<le> length ps + 1
     \<and> out = take (unat (nxt b) - 1) ps
     \<and> (\<forall>k v. held b k = Some v \<longrightarrow> in_stream ps k v)"

definition seen :: "'b \<Rightarrow> u64 \<Rightarrow> bool" where
  "seen b k \<longleftrightarrow> k < nxt b \<or> held b k \<noteq> None"

lemma run_no_wrap:
  assumes "stream_rel ps b out" and "unat (nxt b) \<le> length ps" and "length ps + 1 < 2 ^ 64"
    and "\<forall>i<n. held b (nxt b + 1 + word_of_nat i) \<noteq> None" and "i \<le> n"
  shows "unat (nxt b + 1 + word_of_nat i) = unat (nxt b) + 1 + i
         \<and> unat (nxt b) + 1 + i \<le> length ps + 1"
  using assms(5)
proof (induction i)
  case 0
  with assms(2,3) unat_plus1_plus [of "nxt b" 0] show ?case by simp
next
  case (Suc i)
  then have i: "unat (nxt b + 1 + word_of_nat i) = unat (nxt b) + 1 + i" by simp
  from Suc.prems have "i < n" by simp
  with assms(4) obtain v where "held b (nxt b + 1 + word_of_nat i) = Some v" by fastforce
  with assms(1) have "in_stream ps (nxt b + 1 + word_of_nat i) v" by (simp add: stream_rel_def)
  with i have "unat (nxt b) + 1 + Suc i \<le> length ps + 1" by (simp add: in_stream_def)
  with assms(3) unat_plus1_plus [of "nxt b" "Suc i"] show ?case by simp
qed

text \<open>One frame of the stream extends what was delivered, along the stream.\<close>

lemma step_stream:
  assumes rel: "stream_rel ps b out" and inS: "in_stream ps s p"
    and bound: "length ps + 1 < 2 ^ 64" and st: "step b s p = (b', r)"
  shows "stream_rel ps b' (out @ ready r) \<and> nxt b \<le> nxt b'"
proof -
  have okb: "ok b" using rel by (simp add: stream_rel_def)
  have okb': "ok b'" using ok_step [OF okb, of s p] st by simp
  consider "s < nxt b \<or> held b s \<noteq> None" | "nxt b < s" "held b s = None" | "s = nxt b"
    by (metis linorder_neqE)
  then show ?thesis
  proof cases
    case 1
    from step_duplicate [OF this okb, of p] st have "b' = b" "ready r = []" by auto
    with rel show ?thesis by simp
  next
    case 2
    from step_ahead [OF okb this, of p] show ?thesis
    proof
      assume "step b s p = (b, \<lparr>ready = [], accepted = False, overflow = True\<rparr>)"
      with st rel show ?thesis by auto
    next
      assume "\<exists>b'. step b s p = (b', \<lparr>ready = [], accepted = True, overflow = False\<rparr>)
              \<and> nxt b' = nxt b \<and> held b' = (held b)(s \<mapsto> p)"
      with st rel inS okb' show ?thesis by (auto simp: stream_rel_def)
    qed
  next
    case 3
    from step_next [OF okb, of p] st 3 obtain n where
      r: "ready r = p # map (\<lambda>i. the (held b (nxt b + 1 + word_of_nat i))) [0..<n]"
      and h: "\<forall>i<n. held b (nxt b + 1 + word_of_nat i) \<noteq> None"
      and nx: "nxt b' = nxt b + 1 + word_of_nat n"
      and h': "\<forall>k v. held b' k = Some v \<longrightarrow> held b k = Some v" by auto
    from inS 3 have le: "unat (nxt b) \<le> length ps" and p: "p = ps ! (unat (nxt b) - 1)"
      by (simp_all add: in_stream_def)
    note run = run_no_wrap [OF rel le bound h]
    have nb: "unat (nxt b') = unat (nxt b) + 1 + n" "unat (nxt b) + 1 + n \<le> length ps + 1"
      using run [of n] nx by simp_all
    have chunk: "the (held b (nxt b + 1 + word_of_nat i)) = ps ! (unat (nxt b) + i)" if "i < n" for i
    proof -
      from h that obtain v where v: "held b (nxt b + 1 + word_of_nat i) = Some v" by auto
      with rel have "in_stream ps (nxt b + 1 + word_of_nat i) v" by (simp add: stream_rel_def)
      with run [of i] that v show ?thesis by (simp add: in_stream_def)
    qed
    let ?e = "unat (nxt b)"
    have e1: "1 \<le> ?e" using rel by (simp add: stream_rel_def)
    have "ready r = take (Suc n) (drop (?e - 1) ps)"
      unfolding r
      by (rule nth_equalityI) (use p chunk e1 nb in \<open>auto simp: nth_Cons split: nat.splits\<close>)
    then have "out @ ready r = take (unat (nxt b') - 1) ps"
      using rel nb e1 take_add [of "?e - 1" "Suc n" ps] by (simp add: stream_rel_def)
    moreover have "nxt b \<le> nxt b'" using nb by (simp add: word_le_nat_alt)
    ultimately show ?thesis using rel nb h' okb' by (auto simp: stream_rel_def)
  qed
qed

text \<open>A frame that did not overflow is accounted for, and no earlier frame is forgotten.\<close>

lemma step_seen:
  assumes rel: "stream_rel ps b out" and inS: "in_stream ps s p"
    and bound: "length ps + 1 < 2 ^ 64" and st: "step b s p = (b', r)" and no: "\<not> overflow r"
  shows "seen b' s \<and> (seen b k \<longrightarrow> seen b' k)"
proof -
  have okb: "ok b" using rel by (simp add: stream_rel_def)
  have mono: "nxt b \<le> nxt b'" using step_stream [OF rel inS bound st] by simp
  consider "seen b s" | "nxt b < s" "held b s = None" | "s = nxt b" "held b s = None"
    by (metis linorder_neqE seen_def)
  then show ?thesis
  proof cases
    case 1
    then have "s < nxt b \<or> held b s \<noteq> None" by (simp add: seen_def)
    from step_duplicate [OF this okb, of p] st 1 show ?thesis by auto
  next
    case 2
    from step_ahead [OF okb this, of p] st no show ?thesis by (auto simp: seen_def split: if_splits)
  next
    case 3
    from step_next [OF okb, of p] st 3 obtain n where
      h: "\<forall>i<n. held b (nxt b + 1 + word_of_nat i) \<noteq> None"
      and nx: "nxt b' = nxt b + 1 + word_of_nat n"
      and keep: "\<forall>k. held b k \<noteq> None \<longrightarrow> held b' k \<noteq> None
                   \<or> (\<exists>i<n. k = nxt b + 1 + word_of_nat i)" by auto
    from inS 3 have le: "unat (nxt b) \<le> length ps" by (simp add: in_stream_def)
    note run = run_no_wrap [OF rel le bound h]
    have "nxt b + 1 + word_of_nat i < nxt b'" if "i < n" for i
      using run [of i] run [of n] nx that by (simp add: word_less_nat_alt)
    moreover have "nxt b < nxt b'" using run [of n] nx by (simp add: word_less_nat_alt)
    ultimately show ?thesis
      using keep mono 3 by (auto simp: seen_def dest: order.strict_trans2)
  qed
qed

lemma feed_stream:
  assumes "stream_rel ps b out" and "\<forall>(s, p) \<in> set xs. in_stream ps s p"
    and "length ps + 1 < 2 ^ 64" and "feed step b xs = (b', res, ovf)"
  shows "stream_rel ps b' (out @ res)
    \<and> (\<not> ovf \<longrightarrow> (\<forall>(s, p) \<in> set xs. seen b' s) \<and> (\<forall>k. seen b k \<longrightarrow> seen b' k))"
  using assms
proof (induction xs arbitrary: b out res b' ovf)
  case Nil
  then show ?case by simp
next
  case (Cons x xs)
  obtain s p where x: "x = (s, p)" by (cases x)
  obtain b1 r where st: "step b s p = (b1, r)" by fastforce
  have inS: "in_stream ps s p" and rest: "\<forall>(s, p) \<in> set xs. in_stream ps s p"
    using Cons.prems(2) x by simp_all
  note s1 = conjunct1 [OF step_stream [OF Cons.prems(1) inS Cons.prems(3) st]]
  show ?case
  proof (cases "overflow r")
    case True
    with Cons.prems(4) x st s1 show ?thesis by auto
  next
    case False
    obtain b2 res2 ovf2 where f: "feed step b1 xs = (b2, res2, ovf2)" by (metis prod_cases3)
    with False Cons.prems(4) x st have e: "b' = b2" "res = ready r @ res2" "ovf = ovf2" by auto
    note k1 = step_seen [OF Cons.prems(1) inS Cons.prems(3) st False]
    from Cons.IH [OF s1 rest Cons.prems(3) f] k1 e x show ?thesis by auto
  qed
qed

lemma feed_ok: "ok b \<Longrightarrow> ok (fst (feed step b xs))"
proof (induction xs arbitrary: b)
  case Nil
  then show ?case by simp
next
  case (Cons x xs)
  obtain s p where x: "x = (s, p)" by (cases x)
  have "ok (fst (step b s p))" by (rule ok_step [OF Cons.prems])
  with Cons.IH x show ?case by (simp add: case_prod_beta Let_def)
qed

text \<open>When every chunk was fed and nothing overflowed, everything was delivered.\<close>

lemma feed_complete:
  assumes rel: "stream_rel ps b []" and ins: "\<forall>(s, p) \<in> set xs. in_stream ps s p"
    and bound: "length ps + 1 < 2 ^ 64" and f: "feed step b xs = (b', res, ovf)"
    and no: "\<not> ovf" and all: "\<And>i. i < length ps \<Longrightarrow> word_of_nat (Suc i) \<in> fst ` set xs"
  shows "res = ps \<and> unat (nxt b') = length ps + 1 \<and> (\<forall>k. held b' k = None)"
proof -
  have r': "stream_rel ps b' res" using feed_stream [OF rel ins bound f] by simp
  then have lo: "1 \<le> unat (nxt b')" and hi: "unat (nxt b') \<le> length ps + 1" and okb: "ok b'"
    and res: "res = take (unat (nxt b') - 1) ps" by (simp_all add: stream_rel_def)
  have "\<not> unat (nxt b') \<le> length ps"
  proof
    assume le: "unat (nxt b') \<le> length ps"
    then have "unat (nxt b') - 1 < length ps" using lo by simp
    from all [OF this] lo have "nxt b' \<in> fst ` set xs" by simp
    with feed_stream [OF rel ins bound f] no have "seen b' (nxt b')" by auto
    then obtain v where "held b' (nxt b') = Some v" by (auto simp: seen_def)
    from held_above [OF okb this] show False by simp
  qed
  with hi have n: "unat (nxt b') = length ps + 1" by simp
  have "held b' k = None" for k
  proof (rule ccontr)
    assume "held b' k \<noteq> None"
    then obtain v where v: "held b' k = Some v" by auto
    with r' have "unat k \<le> length ps" by (auto simp: stream_rel_def in_stream_def)
    with held_above [OF okb v] n show False by (simp add: word_less_nat_alt)
  qed
  with n res show ?thesis by simp
qed

end


subsection \<open>The buffer meets the contract\<close>

lemma word_Suc_le: "e < k \<Longrightarrow> e + 1 \<le> (k :: 'a::len word)"
  by (rule inc_le)

text \<open>
  The drain loop: it takes the chunks at \<open>n\<close> consecutive sequence numbers and stops at the first
  gap; the byte counter follows, and what is left lies strictly ahead of the gap.
\<close>

definition drain_post :: "reorder_buf \<Rightarrow> bytes list \<Rightarrow> nat \<Rightarrow> reorder_buf \<Rightarrow> bytes list \<Rightarrow> bool" where
  "drain_post b out n b' out' \<longleftrightarrow>
     out' = out @ map (\<lambda>i. the (tget (rb_pending b) (rb_expected b + word_of_nat i))) [0..<n]
     \<and> (\<forall>i<n. tget (rb_pending b) (rb_expected b + word_of_nat i) \<noteq> None)
     \<and> rb_expected b' = rb_expected b + word_of_nat n
     \<and> (\<forall>k v. tget (rb_pending b') k = Some v \<longrightarrow> tget (rb_pending b) k = Some v)
     \<and> (\<forall>k. tget (rb_pending b) k \<noteq> None \<longrightarrow> tget (rb_pending b') k \<noteq> None
            \<or> (\<exists>i<n. k = rb_expected b + word_of_nat i))
     \<and> length (rb_pending b') \<le> length (rb_pending b)
     \<and> rb_pending_bytes b' \<le> rb_pending_bytes b
     \<and> rb_max_bytes b' = rb_max_bytes b \<and> rb_max_entries b' = rb_max_entries b"

definition drain_one :: "reorder_buf \<Rightarrow> bytes \<Rightarrow> reorder_buf" where
  "drain_one b chunk = b\<lparr>rb_pending := tdel (rb_expected b) (rb_pending b),
     rb_pending_bytes := rb_pending_bytes b - length chunk, rb_expected := rb_expected b + 1\<rparr>"

lemma drain_one_fields [simp]:
  "rb_pending (drain_one b c) = tdel (rb_expected b) (rb_pending b)"
  "rb_pending_bytes (drain_one b c) = rb_pending_bytes b - length c"
  "rb_expected (drain_one b c) = rb_expected b + 1"
  "rb_max_bytes (drain_one b c) = rb_max_bytes b" "rb_max_entries (drain_one b c) = rb_max_entries b"
  by (simp_all add: drain_one_def)

lemma drain_pending_None:
  "tget (rb_pending b) (rb_expected b) = None \<Longrightarrow> drain_pending b out = (b, out)"
  by (subst drain_pending.simps) simp

lemma drain_pending_Some:
  "tget (rb_pending b) (rb_expected b) = Some chunk \<Longrightarrow>
     drain_pending b out = drain_pending (drain_one b chunk) (out @ [chunk])"
  by (subst drain_pending.simps) (simp add: drain_one_def)

lemma drain_post_Suc:
  assumes Some: "tget (rb_pending b) (rb_expected b) = Some chunk"
    and post: "drain_post (drain_one b chunk) (out @ [chunk]) n b' out'"
  shows "drain_post b out (Suc n) b' out'"
proof -
  let ?e = "rb_expected b" and ?p = "rb_pending b"
  have shift: "?e + 1 + word_of_nat i = ?e + word_of_nat (Suc i)" for i by simp
  have held: "\<forall>i<n. tget (tdel ?e ?p) (?e + word_of_nat (Suc i)) \<noteq> None"
    and keep: "\<forall>k. tget (tdel ?e ?p) k \<noteq> None \<longrightarrow> tget (rb_pending b') k \<noteq> None
            \<or> (\<exists>i<n. k = ?e + word_of_nat (Suc i))"
    and out: "out' = out @ chunk #
            map (\<lambda>i. the (tget (tdel ?e ?p) (?e + word_of_nat (Suc i)))) [0..<n]"
    using post unfolding drain_post_def drain_one_fields shift by simp_all
  have pos: "tget ?p (?e + word_of_nat (Suc i)) = tget (tdel ?e ?p) (?e + word_of_nat (Suc i))"
    if "i < n" for i
    using held that by (auto simp: tget_tdel simp del: of_nat_Suc split: if_splits)
  have "out' = out @ map (\<lambda>i. the (tget ?p (?e + word_of_nat i))) [0..<Suc n]"
    unfolding out upt_conv_Cons [OF zero_less_Suc] map_Suc_upt [symmetric]
    using Some pos by (simp del: of_nat_Suc)
  moreover have "\<forall>i<Suc n. tget ?p (?e + word_of_nat i) \<noteq> None"
    using held pos Some by (auto simp: less_Suc_eq_0_disj simp del: of_nat_Suc)
  moreover have "tget (rb_pending b') k \<noteq> None \<or> (\<exists>i<Suc n. k = ?e + word_of_nat i)"
    if "tget ?p k \<noteq> None" for k
  proof (cases "k = ?e")
    case True
    then show ?thesis by (intro disjI2 exI [of _ 0]) simp
  next
    case False
    with that keep show ?thesis by (metis Suc_mono tget_tdel)
  qed
  moreover have "\<forall>k v. tget (rb_pending b') k = Some v \<longrightarrow> tget ?p k = Some v"
    using post unfolding drain_post_def drain_one_fields by (metis option.distinct(1) tget_tdel)
  moreover have "length (rb_pending b') \<le> length ?p" "rb_pending_bytes b' \<le> rb_pending_bytes b"
    "rb_expected b' = ?e + word_of_nat (Suc n)"
    "rb_max_bytes b' = rb_max_bytes b" "rb_max_entries b' = rb_max_entries b"
    using post length_delete_le [of ?e ?p] by (auto simp: drain_post_def)
  ultimately show ?thesis unfolding drain_post_def by blast
qed

lemma drain_pending_post: "\<exists>n. drain_post b out n (fst (drain_pending b out)) (snd (drain_pending b out))"
proof (induction b out rule: drain_pending.induct)
  case (1 b out)
  show ?case
  proof (cases "tget (rb_pending b) (rb_expected b)")
    case None
    then show ?thesis by (intro exI [of _ 0]) (simp add: drain_pending_None drain_post_def)
  next
    case (Some chunk)
    from "1.IH" [OF Some] Some show ?thesis
      by (auto simp: drain_pending_Some drain_one_def [symmetric] intro: drain_post_Suc)
  qed
qed

text \<open>The buffer invariant without the byte and entry caps, as it holds during the drain loop.\<close>

definition rb_core :: "reorder_buf \<Rightarrow> bool" where
  "rb_core b \<longleftrightarrow> twf (rb_pending b) \<and> rb_pending_bytes b = tsum length (rb_pending b)
     \<and> (\<forall>k v. tget (rb_pending b) k = Some v \<longrightarrow> rb_expected b \<le> k)"

lemma drain_one_core:
  assumes "rb_core b" and "tget (rb_pending b) (rb_expected b) = Some chunk"
  shows "rb_core (drain_one b chunk)"
proof -
  have "tsum length (tdel (rb_expected b) (rb_pending b)) + length chunk = rb_pending_bytes b"
    using assms tsum_tdel [of "rb_pending b" "rb_expected b" chunk length] by (simp add: rb_core_def)
  moreover have "rb_expected b + 1 \<le> k" if "k \<noteq> rb_expected b" "tget (rb_pending b) k = Some v" for k v
    using that assms(1) by (auto simp: rb_core_def order_less_le intro: word_Suc_le)
  ultimately show ?thesis
    using assms(1) by (auto simp: rb_core_def tget_tdel split: if_splits)
qed

lemma drain_pending_core:
  "rb_core b \<Longrightarrow> rb_core (fst (drain_pending b out))
     \<and> tget (rb_pending (fst (drain_pending b out))) (rb_expected (fst (drain_pending b out))) = None"
proof (induction b out rule: drain_pending.induct)
  case (1 b out)
  show ?case
  proof (cases "tget (rb_pending b) (rb_expected b)")
    case None
    with "1.prems" show ?thesis by (simp add: drain_pending_None)
  next
    case (Some chunk)
    have "rb_core (drain_one b chunk)" by (rule drain_one_core [OF "1.prems" Some])
    with "1.IH" [OF Some] Some show ?thesis
      by (simp add: drain_pending_Some drain_one_def [symmetric])
  qed
qed


lemma rb_inv_with_limit [simp]: "rb_inv (with_limit m)"
  by (simp add: rb_inv_def with_limit_def)

lemma rb_inv_core: "rb_inv b \<Longrightarrow> rb_core (b\<lparr>rb_expected := rb_expected b + 1\<rparr>)"
  by (auto simp: rb_inv_def rb_core_def intro: word_Suc_le)

lemma push_next:
  "push b (rb_expected b) pl =
     (fst (drain_pending (b\<lparr>rb_expected := rb_expected b + 1\<rparr>) [pl]),
      \<lparr>ready = snd (drain_pending (b\<lparr>rb_expected := rb_expected b + 1\<rparr>) [pl]),
       accepted = True, overflow = False\<rparr>)"
  by (simp add: push_def case_prod_beta)

lemma push_next_inv:
  assumes "rb_inv b"
  shows "rb_inv (fst (push b (rb_expected b) pl))"
proof -
  let ?b = "b\<lparr>rb_expected := rb_expected b + 1\<rparr>"
  let ?d = "fst (drain_pending ?b [pl])"
  have core: "rb_core ?d" and gap: "tget (rb_pending ?d) (rb_expected ?d) = None"
    using drain_pending_core [OF rb_inv_core [OF assms], of "[pl]"] by simp_all
  have "rb_expected ?d < k" if "tget (rb_pending ?d) k = Some v" for k v
    using core gap that by (auto simp: rb_core_def order_less_le)
  moreover obtain n where "drain_post ?b [pl] n ?d (snd (drain_pending ?b [pl]))"
    using drain_pending_post by blast
  ultimately show ?thesis
    using core assms unfolding push_next rb_inv_def rb_core_def by (auto simp: drain_post_def)
qed

lemma push_ahead:
  assumes "rb_inv b" and "rb_expected b < sq" and "tget (rb_pending b) sq = None"
  shows "push b sq pl =
    (if length (rb_pending b) < rb_max_entries b \<and> rb_pending_bytes b + length pl \<le> rb_max_bytes b
     then (b\<lparr>rb_pending_bytes := rb_pending_bytes b + length pl,
             rb_pending := tins sq pl (rb_pending b)\<rparr>,
           \<lparr>ready = [], accepted = True, overflow = False\<rparr>)
     else (b, \<lparr>ready = [], accepted = False, overflow = True\<rparr>))"
  using assms by (auto simp: push_def Let_def)

lemma push_duplicate:
  assumes "sq < rb_expected b \<or> tget (rb_pending b) sq \<noteq> None" and "rb_inv b"
  shows "push b sq pl = (b, \<lparr>ready = [], accepted = False, overflow = False\<rparr>)"
proof -
  have "sq \<noteq> rb_expected b" using assms by (auto simp: rb_inv_def)
  with assms show ?thesis by (auto simp: push_def Let_def)
qed

lemma push_rb_inv: "rb_inv b \<Longrightarrow> rb_inv (fst (push b sq pl))"
proof -
  assume inv: "rb_inv b"
  consider "sq < rb_expected b \<or> tget (rb_pending b) sq \<noteq> None"
    | "rb_expected b < sq" "tget (rb_pending b) sq = None" | "sq = rb_expected b"
    by (metis linorder_neqE)
  then show ?thesis
  proof cases
    case 1
    then show ?thesis using inv by (simp add: push_duplicate)
  next
    case 2
    then show ?thesis
      using inv unfolding push_ahead [OF inv 2]
      by (auto simp: rb_inv_def tget_tins tsum_tins_fresh length_tins_fresh split: if_splits)
  next
    case 3
    then show ?thesis using push_next_inv [OF inv] by simp
  qed
qed

interpretation rb: sequencer push rb_expected "\<lambda>b. tget (rb_pending b)" rb_inv
proof
  fix b :: reorder_buf and s :: u64 and p :: bytes
  assume inv: "rb_inv b"
  show "rb_inv (fst (push b s p))" by (rule push_rb_inv [OF inv])
  show "push b s p = (b, \<lparr>ready = [], accepted = False, overflow = False\<rparr>)"
    if "s < rb_expected b \<or> tget (rb_pending b) s \<noteq> None"
    by (rule push_duplicate [OF that inv])
  show "push b s p = (b, \<lparr>ready = [], accepted = False, overflow = True\<rparr>) \<or>
       (\<exists>b'. push b s p = (b', \<lparr>ready = [], accepted = True, overflow = False\<rparr>) \<and>
             rb_expected b' = rb_expected b \<and>
             tget (rb_pending b') = (tget (rb_pending b))(s \<mapsto> p))"
    if "rb_expected b < s" and "tget (rb_pending b) s = None"
    unfolding push_ahead [OF inv that] by (auto simp: update_conv')
  let ?b = "b\<lparr>rb_expected := rb_expected b + 1\<rparr>"
  obtain n where "drain_post ?b [p] n (fst (drain_pending ?b [p])) (snd (drain_pending ?b [p]))"
    using drain_pending_post by blast
  then show "\<exists>b' n. push b (rb_expected b) p =
        (b', \<lparr>ready = p # map (\<lambda>i. the (tget (rb_pending b) (rb_expected b + 1 + word_of_nat i))) [0..<n],
             accepted = True, overflow = False\<rparr>) \<and>
        (\<forall>i<n. tget (rb_pending b) (rb_expected b + 1 + word_of_nat i) \<noteq> None) \<and>
        rb_expected b' = rb_expected b + 1 + word_of_nat n \<and>
        (\<forall>k v. tget (rb_pending b') k = Some v \<longrightarrow> tget (rb_pending b) k = Some v) \<and>
        (\<forall>k. tget (rb_pending b) k \<noteq> None \<longrightarrow>
             tget (rb_pending b') k \<noteq> None \<or> (\<exists>i<n. k = rb_expected b + 1 + word_of_nat i))"
    unfolding push_next
    by (intro exI [of _ "fst (drain_pending ?b [p])"] exI [of _ n]) (simp add: drain_post_def)
next
  fix b k v
  assume "rb_inv b" and "tget (rb_pending b) k = Some v"
  then show "rb_expected b < k" by (auto simp: rb_inv_def)
qed


subsection \<open>Streams through a fresh buffer\<close>

lemma unat_one_u64 [simp]: "unat (1 :: u64) = 1"
  by simp

lemma stream_rel_init: "rb.stream_rel ps (with_limit m) []"
  by (simp add: rb.stream_rel_def) (simp add: with_limit_def)

lemma stream_rel_out: "rb.stream_rel ps b out \<Longrightarrow> out = take (unat (rb_expected b) - 1) ps"
  by (simp add: rb.stream_rel_def)

lemma complete_all:
  assumes "rb.stream_rel ps b out" and "length ps + 1 < 2 ^ 64"
    and "is_complete_through b (word_of_nat (length ps + 1))"
  shows "out = ps"
proof -
  have "unat (word_of_nat k :: u64) = k" if "k < 2 ^ 64" for k
    using that by (simp add: unat_of_nat)
  from this [OF assms(2)] have "unat (word_of_nat (length ps + 1) :: u64) = length ps + 1" .
  then have "length ps + 1 \<le> unat (rb_expected b)"
    using assms(3) by (simp add: is_complete_through_def word_le_nat_alt)
  with stream_rel_out [OF assms(1)] show ?thesis by simp
qed

lemma push_limits [simp]:
  "rb_max_bytes (fst (push b sq pl)) = rb_max_bytes b"
  "rb_max_entries (fst (push b sq pl)) = rb_max_entries b"
proof -
  obtain n where "drain_post (b\<lparr>rb_expected := rb_expected b + 1\<rparr>) [pl] n
      (fst (drain_pending (b\<lparr>rb_expected := rb_expected b + 1\<rparr>) [pl]))
      (snd (drain_pending (b\<lparr>rb_expected := rb_expected b + 1\<rparr>) [pl]))"
    using drain_pending_post by blast
  then show "rb_max_bytes (fst (push b sq pl)) = rb_max_bytes b"
    and "rb_max_entries (fst (push b sq pl)) = rb_max_entries b"
    by (auto simp: push_def Let_def drain_post_def case_prod_beta split: option.splits)
qed

lemma feed_push_limits:
  "rb_max_bytes (fst (feed push b xs)) = rb_max_bytes b
   \<and> rb_max_entries (fst (feed push b xs)) = rb_max_entries b"
  by (induction xs arbitrary: b) (auto simp: case_prod_beta Let_def)

text \<open>Distinct keys below a bound: the table is no longer than the bound allows.\<close>

lemma table_window:
  assumes "twf t" and "\<And>k v. tget t k = Some v \<Longrightarrow> lo < unat (k :: u64) \<and> unat k < hi \<and> length v \<le> c"
  shows "length t \<le> hi - Suc lo \<and> tsum length t \<le> (hi - Suc lo) * c"
proof -
  have mem: "lo < unat k \<and> unat k < hi \<and> length v \<le> c" if "(k, v) \<in> set t" for k v
    using assms(2) that tget_in_set [OF assms(1)] by blast
  have "length t = card (fst ` set t)"
    using assms(1) by (metis distinct_card length_map list.set_map twf_def)
  also have "\<dots> = card (unat ` fst ` set t)"
    by (rule card_image [symmetric]) (simp add: inj_on_def word_unat_eq_iff)
  also have "\<dots> \<le> card {Suc lo..<hi}"
    by (rule card_mono) (use mem in \<open>fastforce simp: Suc_le_eq\<close>)+
  finally have len: "length t \<le> hi - Suc lo" by simp
  have "tsum length t \<le> length t * c"
    using mem by (induction t) (auto simp: tsum_def, fastforce)
  also have "\<dots> \<le> (hi - Suc lo) * c" using len by simp
  finally show ?thesis using len by simp
qed

lemma push_skew_no_overflow:
  assumes inv: "rb_inv b" and small: "length pl \<le> c"
    and held: "\<forall>k v. tget (rb_pending b) k = Some v \<longrightarrow>
                 unat k < unat (rb_expected b) + W \<and> length v \<le> c"
    and caps: "W \<le> rb_max_entries b" "W * c \<le> rb_max_bytes b"
    and sq: "unat sq < unat (rb_expected b) + W"
  shows "\<not> overflow (snd (push b sq pl))"
proof -
  consider "sq < rb_expected b \<or> tget (rb_pending b) sq \<noteq> None"
    | "rb_expected b < sq" "tget (rb_pending b) sq = None" | "sq = rb_expected b"
    by (metis linorder_neqE)
  then show ?thesis
  proof cases
    case 1
    then show ?thesis using inv by (simp add: push_duplicate)
  next
    case 2
    let ?t = "tins sq pl (rb_pending b)"
    have "length ?t \<le> unat (rb_expected b) + W - Suc (unat (rb_expected b))
          \<and> tsum length ?t \<le> (unat (rb_expected b) + W - Suc (unat (rb_expected b))) * c"
      by (rule table_window)
         (use inv held small sq 2 in \<open>auto simp: rb_inv_def tget_tins word_less_nat_alt split: if_splits\<close>)
    then have "length ?t \<le> W" "tsum length ?t \<le> W * c"
      by (auto elim!: order.trans simp: mult_le_mono1)
    with caps 2 inv show ?thesis
      unfolding push_ahead [OF inv 2]
      by (auto simp: rb_inv_def length_tins_fresh tsum_tins_fresh)
  next
    case 3
    then show ?thesis by (simp add: push_next)
  qed
qed


subsection \<open>Properties\<close>

text \<open>
  C15. Whatever arrives, in whatever order, the data released by the reorder buffer is a prefix of
  what the sender sent: frames of a stream \<open>ps\<close>, permuted and duplicated at will, some missing,
  deliver exactly the chunks below the next expected sequence number, each once and in order.
\<close>

theorem reorder_delivers_prefix:
  assumes "length ps + 1 < 2 ^ 64" and "\<forall>(s, p) \<in> set xs. in_stream ps s p"
    and "feed push (with_limit m) xs = (b, out, ovf)"
  shows "out = take (unat (rb_expected b) - 1) ps"
  using rb.feed_stream [OF stream_rel_init assms(2,1,3)] by (simp add: rb.stream_rel_def)

theorem reorder_delivers_prefix_witness:
  "snd (feed push (with_limit 10) [(3, [3]), (1, [1]), (1, [1])]) = ([[1]], False)"
proof -
  let ?xs = "[(3, [3]), (1, [1]), (1, [1])] :: (u64 \<times> bytes) list"
  obtain b out ovf where f: "feed push (with_limit 10) ?xs = (b, out, ovf)" by (metis prod_cases3)
  then have "rb_expected b = 2" "\<not> ovf"
    by (auto simp: push_def with_limit_def drain_pending.simps frame_consts Let_def)
  moreover have "out = take (unat (rb_expected b) - 1) [[1], [2], [3]]"
    by (rule reorder_delivers_prefix [OF _ _ f]) (simp_all add: in_stream_def)
  ultimately show ?thesis using f by simp
qed

text \<open>
  C16. Once every chunk of the stream has arrived at least once and no frame was refused for lack
  of room, everything has been delivered, in order; the buffer is empty and complete through the
  FIN sequence number \<open>length ps + 1\<close>.
\<close>

theorem reorder_delivers_all:
  assumes "length ps + 1 < 2 ^ 64" and "\<forall>(s, p) \<in> set xs. in_stream ps s p"
    and "\<forall>i < length ps. word_of_nat (Suc i) \<in> fst ` set xs"
    and "feed push (with_limit m) xs = (b, out, False)"
  shows "out = ps \<and> rb_pending b = [] \<and> is_complete_through b (word_of_nat (length ps + 1))"
proof -
  from rb.feed_complete [OF stream_rel_init assms(2,1,4)] assms(3)
  have out: "out = ps" and n: "unat (rb_expected b) = length ps + 1"
    and none: "\<And>k. tget (rb_pending b) k = None" by simp_all
  from none have "tget (rb_pending b) = Map.empty" by (intro ext) simp
  then have "rb_pending b = []" by simp
  moreover have "is_complete_through b (word_of_nat (length ps + 1))"
    unfolding n [symmetric] by (simp add: is_complete_through_def)
  ultimately show ?thesis using out by blast
qed

theorem reorder_delivers_all_witness:
  "\<exists>b. feed push (with_limit 10) [(3, [3]), (1, [1]), (3, [3]), (2, [2])] = (b, [[1], [2], [3]], False)
     \<and> is_complete_through b 4"
proof -
  let ?xs = "[(3, [3]), (1, [1]), (3, [3]), (2, [2])] :: (u64 \<times> bytes) list"
  obtain b out ovf where f: "feed push (with_limit 10) ?xs = (b, out, ovf)" by (metis prod_cases3)
  then have no: "ovf = False"
    by (auto simp: push_def with_limit_def drain_pending.simps frame_consts Let_def)
  have ins: "\<forall>(s, p) \<in> set ?xs. in_stream [[1], [2], [3]] s p" by (simp add: in_stream_def)
  have all: "\<forall>i < length ([[1], [2], [3]] :: bytes list). word_of_nat (Suc i) \<in> fst ` set ?xs"
    by (auto simp: less_Suc_eq)
  have "out = [[1], [2], [3]] \<and> rb_pending b = []
      \<and> is_complete_through b (word_of_nat (length ([[1], [2], [3]] :: bytes list) + 1))"
    by (rule reorder_delivers_all [OF _ ins all f [unfolded no]]) simp
  with f no show ?thesis by simp
qed

text \<open>
  C17. The window is bounded and its accounting exact, for any input at all: buffered bytes are
  the sum of the buffered lengths and never exceed the byte budget, entries never exceed the
  entry cap, and every buffered sequence number lies strictly ahead of the next expected one.
\<close>

theorem reorder_window_bounded:
  "let b = fst (feed push (with_limit m) xs) in
     rb_pending_bytes b = tsum length (rb_pending b) \<and> rb_pending_bytes b \<le> m
     \<and> length (rb_pending b) \<le> max (m div MAX_PAYLOAD) MAX_REORDER_WINDOW
     \<and> tkeys (rb_pending b) \<subseteq> {rb_expected b<..}"
proof -
  have "rb_inv (fst (feed push (with_limit m) xs))"
    by (rule rb.feed_ok) simp
  then show ?thesis
    using feed_push_limits [of "with_limit m" xs]
    by (auto simp: rb_inv_def Let_def with_limit_def thas_def simp flip: thas_tkeys)
qed

text \<open>
  The window tolerates the skew it is sized for: as long as every frame in the window and the
  arriving one are less than \<open>W\<close> sequence numbers ahead, with chunks of at most \<open>c\<close> bytes, a
  budget of \<open>W * c\<close> bytes (and \<open>W\<close> entries) is never exceeded and no frame is refused.
\<close>

theorem reorder_tolerates_skew:
  assumes "rb_inv b" and "length pl \<le> c"
    and "\<forall>k v. tget (rb_pending b) k = Some v \<longrightarrow>
           unat k < unat (rb_expected b) + W \<and> length v \<le> c"
    and "W \<le> rb_max_entries b" and "W * c \<le> rb_max_bytes b"
    and "unat sq < unat (rb_expected b) + W"
  shows "\<not> overflow (snd (push b sq pl))"
  by (rule push_skew_no_overflow [OF assms])

theorem reorder_tolerates_skew_witness:
  "\<not> overflow (snd (push reorder_new 1024 (replicate 65535 0)))"
  by (rule reorder_tolerates_skew [where c = 65535 and W = 1024])
     (simp_all add: reorder_new_def, simp_all add: with_limit_def frame_consts)

end
