(* ===== verification/Egress.thy ===== *)
theory Egress
  imports Reorder Channel Tunnel
begin

text \<open>
  One virtual connection of the reassembler (\<open>VirtConnDe\<close> of \<open>src/src/reassembler.rs\<close>): in-order
  delivery of DATA frames to the egress channel, the half-close state machine, and the egress
  writer task that moves the channel's chunks to the target's socket.

  \<open>vconn\<close> holds the fields of \<open>VirtConnDe\<close> and, with them, the state of the two tasks that serve
  the connection: what the writer has written to the socket and whether it has ended; the next
  sequence number of the reader and whether it has ended.  Ghost fields (\<open>vc_enq\<close>, \<open>vc_forced\<close>,
  \<open>vc_clean\<close>, \<open>vc_sent\<close>, \<open>vc_fin_sent\<close>) record history and are read by no operation: the chunks
  the egress channel accepted, whether the write half was force-closed, whether the writer ended
  by an unforced half-close with everything written, the chunks the reader sent and whether it
  sent its FIN.
\<close>

subsection \<open>State\<close>

definition EGRESS_CHANNEL_CAP :: nat where "EGRESS_CHANNEL_CAP = 512"

record vconn =
  vc_cid :: u32
  vc_egress :: "bytes chan option"
  vc_reorder :: reorder_buf
  vc_cancel :: notify
  vc_cancel_writer :: notify
  vc_half_close :: notify
  vc_fin_received :: bool
  vc_fin_seq :: u64
  vc_half_close_state :: u8
  vc_is_udp :: bool
  vc_udp_v6 :: bool
  vc_egress_eof :: bool
  vc_created_at :: instant
  vc_last_active :: instant
  vc_bytes_sent :: u64
  vc_bytes_recv :: u64
  vc_frames_sent :: u64
  vc_frames_recv :: u64
  vc_sock :: bytes
  vc_wr_done :: bool
  vc_rd_seq :: u64
  vc_rd_done :: bool
  vc_enq :: "bytes list"
  vc_forced :: bool
  vc_clean :: bool
  vc_sent :: "bytes list"
  vc_fin_sent :: bool

definition new_vconn :: "u32 \<Rightarrow> bytes chan option \<Rightarrow> nat \<Rightarrow> bool \<Rightarrow> bool \<Rightarrow> instant \<Rightarrow> vconn" where
  "new_vconn cid eg reorder_window_bytes udp v6 now =
     \<lparr>vc_cid = cid, vc_egress = eg, vc_reorder = with_limit reorder_window_bytes,
      vc_cancel = False, vc_cancel_writer = False, vc_half_close = False,
      vc_fin_received = False, vc_fin_seq = 0, vc_half_close_state = 0,
      vc_is_udp = udp, vc_udp_v6 = v6, vc_egress_eof = False,
      vc_created_at = now, vc_last_active = now,
      vc_bytes_sent = 0, vc_bytes_recv = 0, vc_frames_sent = 0, vc_frames_recv = 0,
      vc_sock = [], vc_wr_done = False, vc_rd_seq = 1, vc_rd_done = False,
      vc_enq = [], vc_forced = False, vc_clean = False, vc_sent = [], vc_fin_sent = False\<rparr>"

definition new_tcp_vconn :: "u32 \<Rightarrow> nat \<Rightarrow> instant \<Rightarrow> vconn" where
  "new_tcp_vconn cid window now = new_vconn cid (Some (new_chan EGRESS_CHANNEL_CAP)) window False False now"

definition new_udp_vconn :: "u32 \<Rightarrow> nat \<Rightarrow> bool \<Rightarrow> instant \<Rightarrow> vconn" where
  "new_udp_vconn cid window v6 now = new_vconn cid None window True v6 now"

definition signal_teardown :: "vconn \<Rightarrow> vconn" where
  "signal_teardown vc = vc\<lparr>vc_cancel := notify_one (vc_cancel vc),
                           vc_cancel_writer := notify_one (vc_cancel_writer vc)\<rparr>"

subsection \<open>Delivering a DATA frame\<close>

text \<open>
  \<open>reorder.push\<close> and the loop of egress writes, under the reorder lock.  \<open>Panicked\<close> is
  \<open>egress().expect(...)\<close> on a connection without an egress channel.
\<close>

datatype delivery = Delivered | Rejected | Overflowed | EgressFailed | Panicked

definition egress_write_all :: "bytes list \<Rightarrow> vconn \<Rightarrow> delivery \<times> vconn" where
  "egress_write_all chunks vc =
     (if chunks = [] then (Delivered, vc)
      else case vc_egress vc of
             None \<Rightarrow> (Panicked, vc)
           | Some c \<Rightarrow>
               let (ok, c') = send_until_fail try_send c chunks
               in (if ok then Delivered else EgressFailed,
                   vc\<lparr>vc_egress := Some c',
                      vc_enq := vc_enq vc @ drop (length (ch_queue c)) (ch_queue c')\<rparr>))"

definition deliver :: "u64 \<Rightarrow> bytes \<Rightarrow> vconn \<Rightarrow> delivery \<times> vconn" where
  "deliver sq pl vc =
     (let (b, r) = push (vc_reorder vc) sq pl; vc1 = vc\<lparr>vc_reorder := b\<rparr> in
      if \<not> accepted r then (if overflow r then Overflowed else Rejected, vc1)
      else egress_write_all (ready r) vc1)"

subsection \<open>Half-close\<close>

definition close_write_half :: "bool \<Rightarrow> vconn \<Rightarrow> vconn" where
  "close_write_half force vc =
     (if force then
        (if vc_half_close_state vc = 2 then vc
         else vc\<lparr>vc_half_close_state := 2, vc_half_close := notify_one (vc_half_close vc), vc_forced := True\<rparr>)
      else if vc_half_close_state vc \<noteq> 0 then vc
      else
        let vc1 = vc\<lparr>vc_half_close_state := 1\<rparr> in
        if \<not> is_complete_through (vc_reorder vc1) (vc_fin_seq vc1)
        then (if vc_half_close_state vc1 = 1 then vc1\<lparr>vc_half_close_state := 0\<rparr> else vc1)
        else vc1\<lparr>vc_half_close_state := 2, vc_half_close := notify_one (vc_half_close vc1)\<rparr>)"

text \<open>The flag returned says that the force-close timer was started.\<close>

definition start_half_close :: "u64 \<Rightarrow> vconn \<Rightarrow> bool \<times> vconn" where
  "start_half_close fin_seq vc =
     (if vc_fin_received vc then (False, vc)
      else (True, close_write_half False (vc\<lparr>vc_fin_received := True, vc_fin_seq := fin_seq\<rparr>)))"

definition is_done :: "vconn \<Rightarrow> bool" where
  "is_done vc \<longleftrightarrow> \<not> (\<not> vc_fin_received vc \<or> \<not> vc_egress_eof vc \<or> vc_half_close_state vc < 2)"

subsection \<open>The egress writer\<close>

text \<open>
  \<open>write_to_egress\<close>: each arm of its \<open>select!\<close> is an event.  The arms are biased, so a chunk is
  only taken without a pending cancel; the half-close arm is polled after the channel was found
  empty, but other tasks may fill the channel before its drain loop runs, so it may find chunks.
  \<open>WrBroken k\<close>: the write failed, timed out or was cancelled after \<open>k\<close> bytes.  \<open>WClosed\<close> needs
  every sender gone (\<open>dropped\<close>).  When the writer returns, its receiver and socket half are dropped.
\<close>

datatype wr_result = WrWritten | WrBroken nat

datatype writer_event = WCancel | WClosed | WChunk wr_result | WHalfClose "wr_result list"

fun drain_queue :: "bytes list \<Rightarrow> wr_result list \<Rightarrow> bytes \<times> bool" where
  "drain_queue [] rs = ([], True)"
| "drain_queue (c # cs) [] = ([], False)"
| "drain_queue (c # cs) (WrWritten # rs) = (let (bs, ok) = drain_queue cs rs in (c @ bs, ok))"
| "drain_queue (c # cs) (WrBroken k # rs) = (take k c, False)"

definition end_writer :: "vconn \<Rightarrow> vconn" where
  "end_writer vc =
     vc\<lparr>vc_wr_done := True,
        vc_egress := (case vc_egress vc of
                        Some c \<Rightarrow> Some (c\<lparr>ch_queue := [], ch_open := False\<rparr>) | None \<Rightarrow> None)\<rparr>"

definition writer_step :: "bool \<Rightarrow> writer_event \<Rightarrow> vconn \<Rightarrow> vconn" where
  "writer_step dropped ev vc =
     (case vc_egress vc of
        None \<Rightarrow> vc
      | Some c \<Rightarrow>
          if vc_wr_done vc then vc
          else (case ev of
            WCancel \<Rightarrow> if vc_cancel_writer vc then end_writer (vc\<lparr>vc_cancel_writer := False\<rparr>) else vc
          | WClosed \<Rightarrow>
              if \<not> vc_cancel_writer vc \<and> dropped \<and> ch_queue c = [] then end_writer vc else vc
          | WChunk r \<Rightarrow>
              if vc_cancel_writer vc then vc
              else (case try_recv c of
                      (None, _) \<Rightarrow> vc
                    | (Some chunk, c') \<Rightarrow>
                        (case r of
                           WrWritten \<Rightarrow> vc\<lparr>vc_egress := Some c', vc_sock := vc_sock vc @ chunk\<rparr>
                         | WrBroken k \<Rightarrow>
                             end_writer (vc\<lparr>vc_egress := Some c', vc_sock := vc_sock vc @ take k chunk\<rparr>)))
          | WHalfClose rs \<Rightarrow>
              if vc_cancel_writer vc \<or> \<not> vc_half_close vc then vc
              else let (bs, ok) = drain_queue (ch_queue c) rs
                   in end_writer (vc\<lparr>vc_half_close := False, vc_sock := vc_sock vc @ bs,
                                     vc_clean := ok \<and> \<not> vc_forced vc\<rparr>)))"


subsection \<open>Lemmas: delivery\<close>

text \<open>What \<open>deliver\<close> and \<open>close_write_half\<close> leave alone.\<close>

lemma close_write_half_fields [simp]:
  "vc_cid (close_write_half b vc) = vc_cid vc" "vc_egress (close_write_half b vc) = vc_egress vc"
  "vc_reorder (close_write_half b vc) = vc_reorder vc" "vc_is_udp (close_write_half b vc) = vc_is_udp vc"
  "vc_fin_received (close_write_half b vc) = vc_fin_received vc" "vc_fin_seq (close_write_half b vc) = vc_fin_seq vc"
  "vc_egress_eof (close_write_half b vc) = vc_egress_eof vc" "vc_sock (close_write_half b vc) = vc_sock vc"
  "vc_wr_done (close_write_half b vc) = vc_wr_done vc" "vc_enq (close_write_half b vc) = vc_enq vc"
  "vc_clean (close_write_half b vc) = vc_clean vc" "vc_sent (close_write_half b vc) = vc_sent vc"
  "vc_fin_sent (close_write_half b vc) = vc_fin_sent vc" "vc_rd_seq (close_write_half b vc) = vc_rd_seq vc"
  "vc_rd_done (close_write_half b vc) = vc_rd_done vc" "vc_cancel (close_write_half b vc) = vc_cancel vc"
  "vc_cancel_writer (close_write_half b vc) = vc_cancel_writer vc"
  by (simp_all add: close_write_half_def Let_def)

lemma send_until_fail_queue:
  assumes "send_until_fail try_send c xs = (ok, c')"
  shows "drop (length (ch_queue c)) (ch_queue c') = take (ch_room c) xs
    \<and> ch_queue c' = ch_queue c @ take (ch_room c) xs \<and> ok = (length xs \<le> ch_room c)
    \<and> ch_open c' = ch_open c"
  using ch.send_until_fail_spec [OF assms] send_until_fail_open [of c xs] assms by simp

text \<open>
  The connection invariant, for a stream \<open>ps\<close> of chunks that the splitter sends.  \<open>conn_ok\<close> holds
  of every connection ever made; \<open>conn_live\<close> as well while it is in the table: in step with the reorder
  buffer (\<open>conn_synced\<close>), and closed when the stream is complete.
\<close>

definition data_ok :: "bytes list \<Rightarrow> vconn \<Rightarrow> bool" where
  "data_ok ps vc \<longleftrightarrow>
     (\<exists>n. vc_enq vc = take n ps) \<and> (\<exists>rest. concat (vc_enq vc) = vc_sock vc @ rest)
     \<and> (\<forall>c. vc_egress vc = Some c \<longrightarrow> \<not> vc_wr_done vc \<longrightarrow>
            (\<exists>d. vc_enq vc = d @ ch_queue c \<and> vc_sock vc = concat d))"

definition close_ok :: "bytes list \<Rightarrow> vconn \<Rightarrow> bool" where
  "close_ok ps vc \<longleftrightarrow>
     vc_half_close_state vc \<in> {0, 2}
     \<and> (vc_half_close_state vc = 2 \<and> \<not> vc_forced vc \<longrightarrow> vc_enq vc = ps)
     \<and> (vc_half_close vc \<longrightarrow> vc_half_close_state vc = 2)
     \<and> (vc_half_close_state vc = 2 \<and> \<not> vc_wr_done vc \<longrightarrow> vc_half_close vc)
     \<and> (vc_half_close_state vc = 2 \<longrightarrow> vc_fin_received vc)
     \<and> (vc_fin_received vc \<longrightarrow> vc_fin_seq vc = word_of_nat (length ps + 1))
     \<and> (vc_clean vc \<longrightarrow> vc_wr_done vc \<and> vc_sock vc = concat ps)"

definition kind_ok :: "vconn \<Rightarrow> bool" where
  "kind_ok vc \<longleftrightarrow> vc_is_udp vc = (vc_egress vc = None)
     \<and> (vc_is_udp vc \<longrightarrow> vc_enq vc = [] \<and> \<not> vc_fin_received vc)"

definition conn_ok :: "bytes list \<Rightarrow> vconn \<Rightarrow> bool" where
  "conn_ok ps vc \<longleftrightarrow> kind_ok vc \<and> data_ok ps vc \<and> close_ok ps vc"

definition conn_synced :: "bytes list \<Rightarrow> vconn \<Rightarrow> bool" where
  "conn_synced ps vc \<longleftrightarrow> \<not> vc_is_udp vc \<longrightarrow> rb.stream_rel ps (vc_reorder vc) (vc_enq vc)"

definition conn_live :: "bytes list \<Rightarrow> vconn \<Rightarrow> bool" where
  "conn_live ps vc \<longleftrightarrow> conn_synced ps vc
     \<and> (vc_fin_received vc \<and> is_complete_through (vc_reorder vc) (vc_fin_seq vc) \<longrightarrow> vc_half_close_state vc = 2)"

lemma new_vconn_data_ok: "data_ok ps (new_vconn cid eg w u v now)" if "eg = None \<or> eg = Some (new_chan k)"
  using that by (auto simp: data_ok_def new_vconn_def new_chan_def intro: exI [of _ 0])

lemma new_tcp_vconn_ok: "conn_ok ps (new_tcp_vconn cid w now) \<and> conn_live ps (new_tcp_vconn cid w now)"
  using stream_rel_init [of ps w] unfolding conn_ok_def new_tcp_vconn_def
  by (intro conjI new_vconn_data_ok) (auto simp: kind_ok_def close_ok_def conn_live_def conn_synced_def new_vconn_def)

lemma new_udp_vconn_ok: "conn_ok ps (new_udp_vconn cid w v6 now) \<and> conn_live ps (new_udp_vconn cid w v6 now)"
  unfolding conn_ok_def new_udp_vconn_def
  by (intro conjI new_vconn_data_ok) (auto simp: kind_ok_def close_ok_def conn_live_def conn_synced_def new_vconn_def)

lemma data_ok_grow:
  assumes "data_ok ps vc" and "vc_egress vc = Some c" and "ch_queue c' = ch_queue c @ xs"
    and "vc_enq vc @ xs = take m ps"
  shows "data_ok ps (vc\<lparr>vc_egress := Some c', vc_enq := vc_enq vc @ xs\<rparr>)"
proof -
  from assms(1) obtain rest where "concat (vc_enq vc) = vc_sock vc @ rest" by (auto simp: data_ok_def)
  then have "concat (vc_enq vc @ xs) = vc_sock vc @ rest @ concat xs" by simp
  moreover have "\<exists>d. vc_enq vc @ xs = d @ ch_queue c' \<and> vc_sock vc = concat d" if "\<not> vc_wr_done vc"
    using assms(1-3) that by (auto simp: data_ok_def)
  ultimately show ?thesis using assms(4) unfolding data_ok_def by auto
qed

text \<open>Chunks that follow what was enqueued in the stream: the prefix invariant grows with them.\<close>

lemma egress_write_all_ok:
  assumes ok: "conn_ok ps vc" and tcp: "\<not> vc_is_udp vc" and pre: "vc_enq vc @ chunks = take n ps"
    and w: "egress_write_all chunks vc = (r, vc')"
  shows "conn_ok ps vc' \<and> r \<in> {Delivered, EgressFailed} \<and> vc_reorder vc' = vc_reorder vc
    \<and> vc_is_udp vc' = vc_is_udp vc \<and> vc_fin_received vc' = vc_fin_received vc
    \<and> (r = Delivered \<longrightarrow> vc_enq vc' = vc_enq vc @ chunks)"
proof (cases "chunks = []")
  case True
  with w ok show ?thesis by (auto simp: egress_write_all_def)
next
  case False
  from ok tcp obtain c where c: "vc_egress vc = Some c" by (auto simp: conn_ok_def kind_ok_def)
  obtain sent c' where s: "send_until_fail try_send c chunks = (sent, c')"
    by (cases "send_until_fail try_send c chunks")
  note q = send_until_fail_queue [OF s]
  have r: "r = (if sent then Delivered else EgressFailed)"
    "vc' = vc\<lparr>vc_egress := Some c', vc_enq := vc_enq vc @ take (ch_room c) chunks\<rparr>"
    using w False c s q by (auto simp: egress_write_all_def)
  have "vc_enq vc @ take (ch_room c) chunks = take (length (vc_enq vc) + ch_room c) (vc_enq vc @ chunks)"
    by simp
  then have n: "vc_enq vc @ take (ch_room c) chunks = take (min (length (vc_enq vc) + ch_room c) n) ps"
    by (simp only: pre take_take)
  have data: "data_ok ps vc" and close: "close_ok ps vc" and kind: "kind_ok vc"
    using ok by (simp_all add: conn_ok_def)
  have "data_ok ps vc'"
    unfolding r using data_ok_grow [OF data c _ n] q by blast
  moreover have "vc_enq vc \<noteq> ps"
  proof
    assume "vc_enq vc = ps"
    with pre have "length (ps @ chunks) \<le> length ps" by (metis length_take min.cobounded1)
    with False show False by simp
  qed
  then have "close_ok ps vc'" using close unfolding r by (auto simp: close_ok_def)
  moreover have "kind_ok vc'" using kind tcp unfolding r by (simp add: kind_ok_def)
  ultimately show ?thesis using r q tcp by (auto simp: conn_ok_def)
qed

lemma deliver_ok:
  assumes ok: "conn_ok ps vc" and live: "conn_live ps vc" and tcp: "\<not> vc_is_udp vc"
    and ins: "in_stream ps sq pl" and bound: "length ps + 1 < 2 ^ 64" and d: "deliver sq pl vc = (r, vc')"
  shows "conn_ok ps vc' \<and> r \<noteq> Panicked \<and> vc_is_udp vc' = vc_is_udp vc
    \<and> vc_fin_received vc' = vc_fin_received vc \<and> (r \<noteq> EgressFailed \<longrightarrow> conn_synced ps vc')
    \<and> (r \<noteq> EgressFailed \<and> (r = Delivered \<longrightarrow> \<not> vc_fin_received vc) \<longrightarrow> conn_live ps vc')"
proof -
  obtain b pr where p: "push (vc_reorder vc) sq pl = (b, pr)" by (cases "push (vc_reorder vc) sq pl")
  have rel: "rb.stream_rel ps (vc_reorder vc) (vc_enq vc)" using live tcp by (simp add: conn_live_def conn_synced_def)
  have rel': "rb.stream_rel ps b (vc_enq vc @ ready pr)" using rb.step_stream [OF rel ins bound p] by simp
  have ok1: "conn_ok ps (vc\<lparr>vc_reorder := b\<rparr>)"
    using ok by (simp add: conn_ok_def kind_ok_def data_ok_def close_ok_def)
  show ?thesis
  proof (cases "accepted pr")
    case True
    then have w: "egress_write_all (ready pr) (vc\<lparr>vc_reorder := b\<rparr>) = (r, vc')"
      using d p by (simp add: deliver_def)
    from egress_write_all_ok [OF ok1 _ _ w] tcp stream_rel_out [OF rel'] rel' show ?thesis
      by (auto simp: conn_live_def conn_synced_def)
  next
    case False
    then have "b = vc_reorder vc" using p by (auto simp: push_def Let_def split: if_splits option.splits prod.splits)
    with False d p ok live show ?thesis
      by (auto simp: deliver_def conn_live_def split: if_splits)
  qed
qed

subsection \<open>Lemmas: half-close\<close>

lemma close_write_half_parts:
  "kind_ok vc \<Longrightarrow> kind_ok (close_write_half b vc)" "data_ok ps vc \<Longrightarrow> data_ok ps (close_write_half b vc)"
  "conn_synced ps vc \<Longrightarrow> conn_synced ps (close_write_half b vc)"
  "conn_synced ps vc \<Longrightarrow> conn_live ps (close_write_half True vc)"
  by (simp_all add: kind_ok_def data_ok_def conn_synced_def conn_live_def) (simp add: close_write_half_def)

lemma force_close_ok: "conn_ok ps vc \<Longrightarrow> vc_fin_received vc \<Longrightarrow> conn_ok ps (close_write_half True vc)"
  unfolding conn_ok_def
  by (intro conjI close_write_half_parts) (auto simp: close_ok_def close_write_half_def notify_one_def)

lemma close_write_half_ok:
  assumes ok: "conn_ok ps vc" and live: "conn_synced ps vc" and tcp: "\<not> vc_is_udp vc"
    and fin: "vc_fin_received vc" and bound: "length ps + 1 < 2 ^ 64"
  shows "conn_ok ps (close_write_half False vc) \<and> conn_live ps (close_write_half False vc)"
proof -
  have rel: "rb.stream_rel ps (vc_reorder vc) (vc_enq vc)" using live tcp by (simp add: conn_synced_def)
  have seq: "vc_fin_seq vc = word_of_nat (length ps + 1)" using ok fin by (simp add: conn_ok_def close_ok_def)
  have enq: "vc_enq vc = ps" if "is_complete_through (vc_reorder vc) (vc_fin_seq vc)"
    using complete_all [OF rel bound] that seq by simp
  have "close_ok ps (close_write_half False vc)"
  proof (cases "vc_half_close_state vc = 0 \<and> is_complete_through (vc_reorder vc) (vc_fin_seq vc)")
    case True
    with ok fin seq enq show ?thesis
      by (simp add: conn_ok_def close_ok_def close_write_half_def notify_one_def Let_def)
  next
    case False
    have "close_ok ps vc" using ok by (simp add: conn_ok_def)
    with False show ?thesis by (auto simp: close_ok_def close_write_half_def Let_def)
  qed
  moreover have "is_complete_through (vc_reorder vc) (vc_fin_seq vc) \<longrightarrow> vc_half_close_state (close_write_half False vc) = 2"
    using ok by (auto simp: conn_ok_def close_ok_def close_write_half_def Let_def)
  ultimately show ?thesis using ok live by (simp add: conn_ok_def conn_live_def close_write_half_parts)
qed

lemma start_half_close_ok:
  assumes "conn_ok ps vc" and "conn_live ps vc" and "\<not> vc_is_udp vc" and "length ps + 1 < 2 ^ 64"
    and "fs = word_of_nat (length ps + 1)" and "start_half_close fs vc = (t, vc')"
  shows "conn_ok ps vc' \<and> conn_live ps vc' \<and> vc_is_udp vc' = vc_is_udp vc \<and> vc_fin_received vc'"
proof (cases "vc_fin_received vc")
  case True
  with assms show ?thesis by (auto simp: start_half_close_def)
next
  case False
  let ?v = "vc\<lparr>vc_fin_received := True, vc_fin_seq := fs\<rparr>"
  have "conn_ok ps ?v"
    using assms False by (auto simp: conn_ok_def kind_ok_def data_ok_def close_ok_def)
  moreover have "conn_synced ps ?v" using assms by (simp add: conn_live_def conn_synced_def)
  ultimately have "conn_ok ps (close_write_half False ?v) \<and> conn_live ps (close_write_half False ?v)"
    using assms by (intro close_write_half_ok) simp_all
  with assms False show ?thesis by (auto simp: start_half_close_def)
qed

subsection \<open>Lemmas: the writer\<close>

lemma drain_queue_prefix: "drain_queue cs rs = (bs, ok) \<Longrightarrow> (\<exists>rest. concat cs = bs @ rest) \<and> (ok \<longrightarrow> bs = concat cs)"
proof (induction cs rs arbitrary: bs ok rule: drain_queue.induct)
  case (4 c cs k rs)
  then show ?case by (metis append.assoc append_take_drop_id concat.simps(2) drain_queue.simps(4) prod.inject)
qed (auto split: prod.splits)

lemma end_writer_fields [simp]:
  "vc_enq (end_writer vc) = vc_enq vc" "vc_sock (end_writer vc) = vc_sock vc" "vc_wr_done (end_writer vc)"
  "vc_is_udp (end_writer vc) = vc_is_udp vc" "vc_reorder (end_writer vc) = vc_reorder vc"
  "vc_fin_received (end_writer vc) = vc_fin_received vc" "vc_fin_seq (end_writer vc) = vc_fin_seq vc"
  "vc_half_close_state (end_writer vc) = vc_half_close_state vc" "vc_half_close (end_writer vc) = vc_half_close vc"
  "vc_forced (end_writer vc) = vc_forced vc" "vc_clean (end_writer vc) = vc_clean vc"
  "vc_egress (end_writer vc) = None \<longleftrightarrow> vc_egress vc = None"
  by (simp_all add: end_writer_def split: option.splits)

lemma end_writer_parts:
  "kind_ok vc \<Longrightarrow> kind_ok (end_writer vc)"
  "close_ok ps vc \<Longrightarrow> close_ok ps (end_writer vc)"
  "(\<exists>n. vc_enq vc = take n ps) \<Longrightarrow> (\<exists>rest. concat (vc_enq vc) = vc_sock vc @ rest) \<Longrightarrow> data_ok ps (end_writer vc)"
  by (auto simp: kind_ok_def close_ok_def data_ok_def)

lemma writer_step_ok:
  assumes ok: "conn_ok ps vc"
  shows "conn_ok ps (writer_step dropped ev vc)"
proof (cases "vc_wr_done vc \<or> vc_egress vc = None")
  case True
  with ok show ?thesis by (auto simp: writer_step_def split: option.splits)
next
  case False
  then obtain c where c: "vc_egress vc = Some c" and run: "\<not> vc_wr_done vc" by auto
  from ok have data: "data_ok ps vc" and close: "close_ok ps vc" and kind: "kind_ok vc"
    by (simp_all add: conn_ok_def)
  from data c run obtain n d where d: "vc_enq vc = take n ps" "vc_enq vc = d @ ch_queue c" "vc_sock vc = concat d"
    by (auto simp: data_ok_def)
  have clean: "\<not> vc_clean vc" using close run by (auto simp: close_ok_def)
  have pre: "\<exists>rest. concat (vc_enq vc) = vc_sock vc @ rest" using data by (simp add: data_ok_def)
  show ?thesis
  proof (cases ev)
    case WCancel
    let ?w = "vc\<lparr>vc_cancel_writer := False\<rparr>"
    have "kind_ok ?w" "close_ok ps ?w" using kind close by (simp_all add: kind_ok_def close_ok_def)
    then have "conn_ok ps (end_writer ?w)" using pre d(1) by (auto simp: conn_ok_def intro!: end_writer_parts)
    with WCancel c run ok show ?thesis by (simp add: writer_step_def)
  next
    case WClosed
    have "conn_ok ps (end_writer vc)"
      unfolding conn_ok_def using kind close pre d(1) by (intro conjI end_writer_parts) auto
    with WClosed c run ok show ?thesis by (simp add: writer_step_def)
  next
    case (WChunk r)
    show ?thesis
    proof (cases "vc_cancel_writer vc \<or> ch_queue c = []")
      case True
      with WChunk c run ok show ?thesis by (auto simp: writer_step_def try_recv_def)
    next
      case False
      then obtain chunk q where q: "ch_queue c = chunk # q" by (cases "ch_queue c") auto
      let ?w = "\<lambda>bs. vc\<lparr>vc_egress := Some (c\<lparr>ch_queue := q\<rparr>), vc_sock := vc_sock vc @ bs\<rparr>"
      have all: "concat (vc_enq vc) = vc_sock vc @ chunk @ concat q" using d(2,3) q by simp
      have parts: "kind_ok (?w bs)" "close_ok ps (?w bs)" for bs
        using kind close clean c by (simp_all add: kind_ok_def close_ok_def)
      show ?thesis
      proof (cases r)
        case WrWritten
        have "data_ok ps (?w chunk)"
          using d all q unfolding data_ok_def by (auto intro!: exI [of _ "d @ [chunk]"])
        with WrWritten WChunk False c run q parts [of chunk] show ?thesis
          by (simp add: writer_step_def try_recv_def conn_ok_def)
      next
        case (WrBroken k)
        have "\<exists>rest. chunk @ concat q = take k chunk @ rest" by (metis append.assoc append_take_drop_id)
        then have "data_ok ps (end_writer (?w (take k chunk)))"
          using d(1) all by (intro end_writer_parts) auto
        with WrBroken WChunk False c run q parts [of "take k chunk"] show ?thesis
          by (simp add: writer_step_def try_recv_def conn_ok_def end_writer_parts)
      qed
    qed
  next
    case (WHalfClose rs)
    obtain bs fin where b: "drain_queue (ch_queue c) rs = (bs, fin)" by (cases "drain_queue (ch_queue c) rs")
    let ?w = "vc\<lparr>vc_half_close := False, vc_sock := vc_sock vc @ bs, vc_clean := fin \<and> \<not> vc_forced vc\<rparr>"
    show ?thesis
    proof (cases "vc_cancel_writer vc \<or> \<not> vc_half_close vc")
      case True
      with WHalfClose c run ok show ?thesis by (simp add: writer_step_def)
    next
      case False
      then have st: "vc_half_close_state vc = 2" using close by (simp add: close_ok_def)
      have all: "concat (vc_enq vc) = vc_sock vc @ concat (ch_queue c)" using d(2,3) by simp
      note pre = drain_queue_prefix [OF b]
      have "kind_ok (end_writer ?w)" by (rule end_writer_parts) (use kind in \<open>simp add: kind_ok_def\<close>)
      moreover have "data_ok ps (end_writer ?w)"
        by (rule end_writer_parts) (use d(1) all pre in auto)
      moreover have "close_ok ps (end_writer ?w)"
        using close st pre all by (auto simp: close_ok_def)
      ultimately show ?thesis
        using WHalfClose False c run b by (simp add: writer_step_def conn_ok_def)
    qed
  qed
qed

lemma writer_step_live: "conn_live ps (writer_step dr ev vc) \<longleftrightarrow> conn_live ps vc"
  by (auto simp: conn_live_def conn_synced_def writer_step_def Let_def split: option.splits writer_event.splits prod.splits wr_result.splits)

lemma writer_step_fields:
  "vc_is_udp (writer_step dr ev vc) = vc_is_udp vc" "vc_cid (writer_step dr ev vc) = vc_cid vc"
  "vc_fin_received (writer_step dr ev vc) = vc_fin_received vc"
  by (auto simp: writer_step_def end_writer_def Let_def split: option.splits writer_event.splits prod.splits wr_result.splits)

end
