(* ===== verification/NetAddr.thy ===== *)
theory NetAddr
  imports Prelude
begin

text \<open>
  IP addresses as the standard library parses and prints them (\<open>std::net\<close>): what
  \<open>host.parse::<Ipv4Addr>()\<close>, \<open>parse::<Ipv6Addr>()\<close>, \<open>parse::<IpAddr>()\<close> and
  \<open>to_string()\<close> mean in \<open>src/src/socks5.rs\<close> and \<open>src/src/reassembler.rs\<close>.  A host name is
  the byte string of a Rust \<open>String\<close>.

  The parser follows the library's: decimal octets of at most three digits without leading
  zeros, hexadecimal groups of at most four digits, one \<open>::\<close>, an IPv4 tail.  A reader takes the
  remaining input and returns the value with the input left over.
\<close>

datatype ip_addr = V4 "u8 list" | V6 "u16 list"

definition ip_wf :: "ip_addr \<Rightarrow> bool" where
  "ip_wf ip \<longleftrightarrow> (case ip of V4 os \<Rightarrow> length os = 4 | V6 gs \<Rightarrow> length gs = 8)"

record socket_addr =
  sa_ip :: ip_addr
  sa_port :: u16

subsection \<open>Digits\<close>

definition digit_value :: "u8 \<Rightarrow> nat option" where
  "digit_value c =
     (if 0x30 \<le> c \<and> c \<le> 0x39 then Some (unat c - 48)
      else if 0x61 \<le> c \<and> c \<le> 0x66 then Some (unat c - 87)
      else if 0x41 \<le> c \<and> c \<le> 0x46 then Some (unat c - 55)
      else None)"

definition to_digit :: "nat \<Rightarrow> u8 \<Rightarrow> nat option" where
  "to_digit radix c = (case digit_value c of Some d \<Rightarrow> if d < radix then Some d else None | None \<Rightarrow> None)"

definition digit_char :: "nat \<Rightarrow> u8" where
  "digit_char d = (if d < 10 then word_of_nat (48 + d) else word_of_nat (87 + d))"

text \<open>\<open>{}\<close> of a number in a radix, most significant digit first.\<close>

fun show_radix :: "nat \<Rightarrow> nat \<Rightarrow> bytes" where
  "show_radix r n =
     (if r < 2 \<or> n < r then [digit_char n] else show_radix r (n div r) @ [digit_char (n mod r)])"

declare show_radix.simps [simp del]

definition show_dec :: "nat \<Rightarrow> bytes" where "show_dec n = show_radix 10 n"
definition show_hex :: "nat \<Rightarrow> bytes" where "show_hex n = show_radix 16 n"

text \<open>\<open>{:02x}\<close>\<close>

definition hex2 :: "u8 \<Rightarrow> bytes" where
  "hex2 b = [digit_char (unat b div 16), digit_char (unat b mod 16)]"

fun join :: "u8 \<Rightarrow> bytes list \<Rightarrow> bytes" where
  "join sep [] = []"
| "join sep [x] = x"
| "join sep (x # y # ys) = x @ [sep] @ join sep (y # ys)"

subsection \<open>Readers\<close>

type_synonym 'a reader = "bytes \<Rightarrow> ('a \<times> bytes) option"

definition read_given_char :: "u8 \<Rightarrow> unit reader" where
  "read_given_char c inp = (case inp of x # xs \<Rightarrow> if x = c then Some ((), xs) else None | [] \<Rightarrow> None)"

fun read_digits :: "nat \<Rightarrow> nat \<Rightarrow> nat \<Rightarrow> bytes \<Rightarrow> nat \<times> nat \<times> bytes" where
  "read_digits radix acc cnt [] = (acc, cnt, [])"
| "read_digits radix acc cnt (c # cs) =
     (case to_digit radix c of
        Some d \<Rightarrow> read_digits radix (acc * radix + d) (Suc cnt) cs
      | None \<Rightarrow> (acc, cnt, c # cs))"

text \<open>
  \<open>read_number\<close> with a digit limit; \<open>bound\<close> is one more than the largest value of the result type.
  The library stops at the first digit over the limit; every digit is read here, and the count
  is over the limit in the same cases.
\<close>

definition read_number :: "nat \<Rightarrow> nat \<Rightarrow> bool \<Rightarrow> nat \<Rightarrow> nat reader" where
  "read_number radix max_digits allow_zero_prefix bound inp =
     (let has_leading_zero = (case inp of c # _ \<Rightarrow> c = 0x30 | [] \<Rightarrow> False);
          (result, digit_count, rest) = read_digits radix 0 0 inp
      in if digit_count > max_digits then None
         else if digit_count = 0 then None
         else if \<not> allow_zero_prefix \<and> has_leading_zero \<and> digit_count > 1 then None
         else if result < bound then Some (result, rest) else None)"

definition read_separator :: "u8 \<Rightarrow> nat \<Rightarrow> 'a reader \<Rightarrow> 'a reader" where
  "read_separator sep index inner inp =
     (if index > 0 then
        (case read_given_char sep inp of None \<Rightarrow> None | Some (_, rest) \<Rightarrow> inner rest)
      else inner inp)"

definition read_octet :: "nat \<Rightarrow> u8 reader" where
  "read_octet i inp =
     (case read_separator 0x2E i (read_number 10 3 False 256) inp of
        Some (n, rest) \<Rightarrow> Some (word_of_nat n, rest) | None \<Rightarrow> None)"

fun read_octets :: "nat \<Rightarrow> nat \<Rightarrow> u8 list reader" where
  "read_octets i 0 inp = Some ([], inp)"
| "read_octets i (Suc n) inp =
     (case read_octet i inp of
        None \<Rightarrow> None
      | Some (o1, rest) \<Rightarrow>
          (case read_octets (Suc i) n rest of
             None \<Rightarrow> None | Some (os, rest') \<Rightarrow> Some (o1 # os, rest')))"

definition read_ipv4_addr :: "u8 list reader" where
  "read_ipv4_addr inp = read_octets 0 4 inp"

definition read_group :: "nat \<Rightarrow> u16 reader" where
  "read_group i inp =
     (case read_separator 0x3A i (read_number 16 4 True 65536) inp of
        Some (n, rest) \<Rightarrow> Some (word_of_nat n, rest) | None \<Rightarrow> None)"

text \<open>\<open>read_groups\<close>: the groups read, whether they end in an IPv4 address, the input left.\<close>

fun read_groups :: "nat \<Rightarrow> nat \<Rightarrow> bytes \<Rightarrow> u16 list \<times> bool \<times> bytes" where
  "read_groups i 0 inp = ([], False, inp)"
| "read_groups i (Suc left) inp =
     (case (if left > 0 then read_separator 0x3A i read_ipv4_addr inp else None) of
        Some (os, rest) \<Rightarrow>
          ([from_be_bytes [os ! 0, os ! 1], from_be_bytes [os ! 2, os ! 3]], True, rest)
      | None \<Rightarrow>
          (case read_group i inp of
             None \<Rightarrow> ([], False, inp)
           | Some (g, rest) \<Rightarrow>
               let (gs, v4, rest') = read_groups (Suc i) left rest in (g # gs, v4, rest')))"

definition read_ipv6_addr :: "u16 list reader" where
  "read_ipv6_addr inp =
     (let (head, head_ipv4, rest) = read_groups 0 8 inp in
      if length head = 8 then Some (head, rest)
      else if head_ipv4 then None
      else case read_given_char 0x3A rest of
             None \<Rightarrow> None
           | Some (_, r1) \<Rightarrow>
               (case read_given_char 0x3A r1 of
                  None \<Rightarrow> None
                | Some (_, r2) \<Rightarrow>
                    let (tail, _, r3) = read_groups 0 (8 - (length head + 1)) r2
                    in Some (head @ replicate (8 - length head - length tail) 0 @ tail, r3)))"

definition parse_with :: "'a reader \<Rightarrow> bytes \<Rightarrow> 'a option" where
  "parse_with p inp = (case p inp of Some (v, []) \<Rightarrow> Some v | _ \<Rightarrow> None)"

definition parse_ipv4 :: "bytes \<Rightarrow> u8 list option" where
  "parse_ipv4 s = (if length s > 15 then None else parse_with read_ipv4_addr s)"

definition parse_ipv6 :: "bytes \<Rightarrow> u16 list option" where
  "parse_ipv6 s = parse_with read_ipv6_addr s"

definition parse_ip :: "bytes \<Rightarrow> ip_addr option" where
  "parse_ip s =
     parse_with (\<lambda>inp. case read_ipv4_addr inp of
                         Some (os, r) \<Rightarrow> Some (V4 os, r)
                       | None \<Rightarrow> (case read_ipv6_addr inp of
                                    Some (gs, r) \<Rightarrow> Some (V6 gs, r) | None \<Rightarrow> None)) s"

subsection \<open>Printers\<close>

definition show_ipv4 :: "u8 list \<Rightarrow> bytes" where
  "show_ipv4 os = join 0x2E (map (\<lambda>b. show_dec (unat b)) os)"

text \<open>The expanded form that the SOCKS code prints: eight groups of four digits.\<close>

definition show_ipv6_full :: "u8 list \<Rightarrow> bytes" where
  "show_ipv6_full bs =
     join 0x3A (map (\<lambda>i. hex2 (bs ! (2 * i)) @ hex2 (bs ! (2 * i + 1))) [0..<length bs div 2])"

definition octets_of_groups :: "u16 list \<Rightarrow> u8 list" where
  "octets_of_groups gs = concat (map put_u16 gs)"

definition to_ipv4_mapped :: "u16 list \<Rightarrow> u8 list option" where
  "to_ipv4_mapped gs =
     (if take 5 gs = replicate 5 0 \<and> gs ! 5 = 0xFFFF then Some (drop 12 (octets_of_groups gs)) else None)"

text \<open>The longest run of zero groups (the first of them), as the library's \<open>Display\<close> finds it.\<close>

fun longest_zeros :: "nat \<Rightarrow> u16 list \<Rightarrow> nat \<times> nat \<Rightarrow> nat \<times> nat \<Rightarrow> nat \<times> nat" where
  "longest_zeros i [] cur best = best"
| "longest_zeros i (g # gs) (cs, cl) (bs, bl) =
     (if g = 0 then
        let cs' = (if cl = 0 then i else cs); cl' = Suc cl;
            best' = (if cl' > bl then (cs', cl') else (bs, bl))
        in longest_zeros (Suc i) gs (cs', cl') best'
      else longest_zeros (Suc i) gs (0, 0) (bs, bl))"

definition show_groups :: "u16 list \<Rightarrow> bytes" where
  "show_groups gs = join 0x3A (map (\<lambda>g. show_hex (unat g)) gs)"

definition show_ipv6 :: "u16 list \<Rightarrow> bytes" where
  "show_ipv6 gs =
     (case to_ipv4_mapped gs of
        Some os \<Rightarrow> ascii ''::ffff:'' @ show_ipv4 os
      | None \<Rightarrow>
          let (start, len) = longest_zeros 0 gs (0, 0) (0, 0) in
          if len > 1 then show_groups (take start gs) @ ascii ''::'' @ show_groups (drop (start + len) gs)
          else show_groups gs)"

definition is_unspecified :: "ip_addr \<Rightarrow> bool" where
  "is_unspecified ip =
     (case ip of V4 os \<Rightarrow> \<forall>b \<in> set os. b = 0 | V6 gs \<Rightarrow> \<forall>g \<in> set gs. g = 0)"

text \<open>\<open>normalize_ip\<close> of \<open>src/src/reassembler.rs\<close>: IPv4-mapped addresses become IPv4 again.\<close>

definition normalize_ip :: "ip_addr \<Rightarrow> bytes" where
  "normalize_ip ip =
     (case ip of
        V6 gs \<Rightarrow> (case to_ipv4_mapped gs of Some os \<Rightarrow> show_ipv4 os | None \<Rightarrow> show_ipv6 gs)
      | V4 os \<Rightarrow> show_ipv4 os)"


subsection \<open>Lemmas: numbers\<close>

lemma digit_table:
  "\<forall>d \<in> set [0..<16]. digit_value (digit_char d) = Some d \<and> (digit_char d = 0x30 \<longleftrightarrow> d = 0)
     \<and> digit_char d \<noteq> 0x2E \<and> digit_char d \<noteq> 0x3A"
  by code_simp

lemma digit_value_char: "d < 16 \<Longrightarrow> digit_value (digit_char d) = Some d"
  using digit_table by simp

lemma to_digit_char: "d < r \<Longrightarrow> r \<le> 16 \<Longrightarrow> to_digit r (digit_char d) = Some d"
  by (simp add: to_digit_def digit_value_char)

lemma digit_char_zero: "d < 16 \<Longrightarrow> digit_char d = 0x30 \<longleftrightarrow> d = 0"
  using digit_table by simp

lemma digit_char_not_sep: "d < 16 \<Longrightarrow> digit_char d \<noteq> 0x2E \<and> digit_char d \<noteq> 0x3A"
  using digit_table by simp

definition no_digit :: "nat \<Rightarrow> bytes \<Rightarrow> bool" where
  "no_digit r rest \<longleftrightarrow> (case rest of [] \<Rightarrow> True | c # _ \<Rightarrow> to_digit r c = None)"

lemma no_digit_simps [simp]:
  "no_digit r []" "no_digit r (0x2E # xs)" "no_digit r (0x3A # xs)"
  by (simp_all add: no_digit_def to_digit_def digit_value_def)

lemma read_digits_stop: "no_digit r rest \<Longrightarrow> read_digits r acc cnt rest = (acc, cnt, rest)"
  by (cases rest) (simp_all add: no_digit_def)

lemma read_digits_map:
  "\<forall>d \<in> set ds. d < r \<Longrightarrow> r \<le> 16 \<Longrightarrow> no_digit r rest \<Longrightarrow>
     read_digits r acc cnt (map digit_char ds @ rest)
     = (foldl (\<lambda>a d. a * r + d) acc ds, cnt + length ds, rest)"
  by (induction ds arbitrary: acc cnt) (simp_all add: read_digits_stop to_digit_char)

lemma read_number_digits:
  assumes "\<forall>d \<in> set ds. d < r" and "r \<le> 16" and "no_digit r rest" and "ds \<noteq> []"
    and "length ds \<le> k" and "z \<or> length ds = 1 \<or> hd ds \<noteq> 0" and "foldl (\<lambda>a d. a * r + d) 0 ds < bound"
  shows "read_number r k z bound (map digit_char ds @ rest) = Some (foldl (\<lambda>a d. a * r + d) 0 ds, rest)"
proof -
  from assms(4) obtain d ds' where ds: "ds = d # ds'" by (cases ds) auto
  have "digit_char d = 0x30 \<longleftrightarrow> d = 0" using assms(1,2) ds by (intro digit_char_zero) auto
  then have lz: "(case map digit_char ds @ rest of c # _ \<Rightarrow> c = 0x30 | [] \<Rightarrow> False) \<longleftrightarrow> hd ds = 0"
    by (simp add: ds)
  show ?thesis
    unfolding read_number_def lz read_digits_map [OF assms(1-3)] Let_def using assms by auto
qed

lemma digit_char_dec: "d < 10 \<Longrightarrow> unat (digit_char d) = 48 + d"
  by (simp add: digit_char_def unat_of_nat del: of_nat_add of_nat_numeral)

lemma show_dec_digits: "set (show_dec n) \<subseteq> {48..57} \<and> show_dec n \<noteq> []"
proof (induction n rule: less_induct)
  case (less n)
  have d: "digit_char d \<in> {48..57}" if "d < 10" for d
    using that digit_char_dec [OF that] by (simp add: word_le_nat_alt)
  show ?case
  proof (cases "n < 10")
    case True
    then show ?thesis using d [OF True] by (simp add: show_dec_def show_radix.simps)
  next
    case False
    then show ?thesis using less.IH [of "n div 10"] d [of "n mod 10"]
      by (simp add: show_dec_def show_radix.simps [of 10 n])
  qed
qed

lemma show_radix_digits:
  assumes "2 \<le> r"
  shows "\<exists>ds. show_radix r n = map digit_char ds \<and> (\<forall>d \<in> set ds. d < r) \<and> ds \<noteq> []
     \<and> foldl (\<lambda>a d. a * r + d) 0 ds = n \<and> (length ds = 1 \<or> hd ds \<noteq> 0)
     \<and> (\<forall>k. 0 < k \<longrightarrow> n < r ^ k \<longrightarrow> length ds \<le> k)"
  using assms
proof (induction r n rule: show_radix.induct)
  case (1 r n)
  show ?case
  proof (cases "n < r")
    case True
    then show ?thesis by (intro exI [of _ "[n]"]) (simp add: show_radix.simps [of r n])
  next
    case False
    with 1 obtain ds where ds: "show_radix r (n div r) = map digit_char ds" "\<forall>d \<in> set ds. d < r"
      "ds \<noteq> []" "foldl (\<lambda>a d. a * r + d) 0 ds = n div r" "length ds = 1 \<or> hd ds \<noteq> 0"
      "\<forall>k. 0 < k \<longrightarrow> n div r < r ^ k \<longrightarrow> length ds \<le> k" by auto
    have nz: "hd ds \<noteq> 0"
    proof
      assume "hd ds = 0"
      with ds(3,5) have "ds = [0]" by (cases ds) auto
      with ds(4) False "1.prems" show False by (simp add: div_eq_0_iff)
    qed
    have "length (ds @ [n mod r]) \<le> k" if k: "0 < k" "n < r ^ k" for k
    proof (cases k)
      case (Suc j)
      then have "n div r < r ^ j" using k "1.prems" by (simp add: less_mult_imp_div_less mult.commute)
      moreover have "0 < j" using Suc k False by (cases j) auto
      ultimately show ?thesis using ds(6) Suc by simp
    qed (use k in simp)
    then show ?thesis
      using ds nz False "1.prems"
      by (intro exI [of _ "ds @ [n mod r]"]) (auto simp: show_radix.simps [of r n])
  qed
qed

lemma read_show_dec:
  assumes "n < 256" and "no_digit 10 rest"
  shows "read_number 10 3 False 256 (show_dec n @ rest) = Some (n, rest)"
proof -
  obtain ds where ds: "show_radix 10 n = map digit_char ds" "\<forall>d \<in> set ds. d < 10" "ds \<noteq> []"
     "foldl (\<lambda>a d. a * 10 + d) 0 ds = n" "length ds = 1 \<or> hd ds \<noteq> 0"
     "\<forall>k. 0 < k \<longrightarrow> n < 10 ^ k \<longrightarrow> length ds \<le> k"
    using show_radix_digits [of 10 n] by auto
  have "length ds \<le> 3" using ds(6) [rule_format, of 3] assms(1) by simp
  with read_number_digits [of ds 10 rest 3 False 256] ds assms show ?thesis by (simp add: show_dec_def)
qed

lemma read_octet_show:
  "no_digit 10 rest \<Longrightarrow> read_octet 0 (show_dec (unat b) @ rest) = Some (b, rest)"
  "no_digit 10 rest \<Longrightarrow> read_octet (Suc i) (0x2E # show_dec (unat b) @ rest) = Some (b, rest)"
  using unat_less_pow [of b]
  by (simp_all add: read_octet_def read_separator_def read_given_char_def read_show_dec)

lemma read_show_ipv4:
  assumes "length os = 4" and "no_digit 10 rest"
  shows "read_ipv4_addr (show_ipv4 os @ rest) = Some (os, rest)"
proof -
  from assms(1) obtain a b c d where os: "os = [a, b, c, d]"
    by (auto simp: numeral_eq_Suc length_Suc_conv)
  have four: "(4::nat) = Suc (Suc (Suc (Suc 0)))" by simp
  show ?thesis
    unfolding os read_ipv4_addr_def four
    using assms(2) by (simp add: show_ipv4_def read_octet_show)
qed

lemma length_show_dec:
  assumes "n < 256"
  shows "length (show_dec n) \<le> 3"
proof -
  obtain ds where "show_radix 10 n = map digit_char ds" "\<forall>k. 0 < k \<longrightarrow> n < 10 ^ k \<longrightarrow> length ds \<le> k"
    using show_radix_digits [of 10 n] by auto
  then show ?thesis using assms by (auto simp: show_dec_def dest: spec [of _ 3])
qed

lemma length_show_ipv4:
  assumes "length os = 4"
  shows "length (show_ipv4 os) \<le> 15"
proof -
  from assms obtain a b c d where os: "os = [a, b, c, d]"
    by (auto simp: numeral_eq_Suc length_Suc_conv)
  have "length (show_dec (unat x)) \<le> 3" for x :: u8
    using length_show_dec [of "unat x"] unat_less_pow [of x] by simp
  from this [of a] this [of b] this [of c] this [of d] show ?thesis
    by (simp add: os show_ipv4_def)
qed

lemma parse_show_ipv4: "length os = 4 \<Longrightarrow> parse_ipv4 (show_ipv4 os) = Some os"
  using read_show_ipv4 [of os "[]"] length_show_ipv4 [of os]
  by (simp add: parse_ipv4_def parse_with_def)

lemma parse_ip_show_ipv4: "length os = 4 \<Longrightarrow> parse_ip (show_ipv4 os) = Some (V4 os)"
  using read_show_ipv4 [of os "[]"] by (simp add: parse_ip_def parse_with_def)

subsection \<open>Lemmas: IPv6\<close>

definition hex4 :: "u8 \<times> u8 \<Rightarrow> bytes" where
  "hex4 p = hex2 (fst p) @ hex2 (snd p)"

definition group_of :: "u8 \<times> u8 \<Rightarrow> u16" where
  "group_of p = from_be_bytes [fst p, snd p]"

text \<open>\<open>h\<close> is a spelling of the group \<open>g\<close>: one to four hexadecimal digits.\<close>

definition spells :: "bytes \<Rightarrow> u16 \<Rightarrow> bool" where
  "spells h g \<longleftrightarrow> (\<exists>ds. h = map digit_char ds \<and> (\<forall>d \<in> set ds. d < 16) \<and> ds \<noteq> [] \<and> length ds \<le> 4
     \<and> foldl (\<lambda>a d. a * 16 + d) 0 ds = unat g)"

lemma spells_hex4 [simp]: "spells (hex4 p) (group_of p)"
proof -
  let ?ds = "[unat (fst p) div 16, unat (fst p) mod 16, unat (snd p) div 16, unat (snd p) mod 16]"
  have "group_of p = word_of_nat (unat (fst p) * 256 + unat (snd p))"
    by (simp add: group_of_def from_be_bytes_def from_be_def)
  moreover have "unat (word_of_nat (unat (fst p) * 256 + unat (snd p)) :: u16) = unat (fst p) * 256 + unat (snd p)"
    using unat_less_pow [of "fst p"] unat_less_pow [of "snd p"] by (simp add: unat_of_nat del: of_nat_add of_nat_mult)
  ultimately have "unat (fst p) * 256 + unat (snd p) = unat (group_of p)" by simp
  then show ?thesis unfolding spells_def
    using unat_less_pow [of "fst p"] unat_less_pow [of "snd p"]
    by (intro exI [of _ ?ds]) (simp add: hex4_def hex2_def less_mult_imp_div_less)
qed

lemma spells_show [simp]: "spells (show_hex (unat g)) g"
proof -
  obtain ds where ds: "show_radix 16 (unat g) = map digit_char ds" "\<forall>d \<in> set ds. d < 16" "ds \<noteq> []"
     "foldl (\<lambda>a d. a * 16 + d) 0 ds = unat g" "\<forall>k. 0 < k \<longrightarrow> unat g < 16 ^ k \<longrightarrow> length ds \<le> k"
    using show_radix_digits [of 16 "unat g"] by auto
  have "length ds \<le> 4" using ds(5) [rule_format, of 4] unat_less_pow [of g] by simp
  with ds show ?thesis by (auto simp: spells_def show_hex_def)
qed

lemma read_group_spelled:
  assumes "spells h g" and "no_digit 16 rest"
  shows "read_group 0 (h @ rest) = Some (g, rest)"
    and "read_group (Suc i) (0x3A # h @ rest) = Some (g, rest)"
proof -
  obtain ds where ds: "h = map digit_char ds" "\<forall>d \<in> set ds. d < 16" "ds \<noteq> []" "length ds \<le> 4"
    "foldl (\<lambda>a d. a * 16 + d) 0 ds = unat g" using assms(1) by (auto simp: spells_def)
  have "read_number 16 4 True 65536 (h @ rest) = Some (unat g, rest)"
    using read_number_digits [of ds 16 rest 4 True 65536] ds assms(2) unat_less_pow [of g] by auto
  then show "read_group 0 (h @ rest) = Some (g, rest)"
    and "read_group (Suc i) (0x3A # h @ rest) = Some (g, rest)"
    by (simp_all add: read_group_def read_separator_def read_given_char_def)
qed

text \<open>No IPv4 address starts a hexadecimal group that is followed by a colon or the end.\<close>

lemma read_digits_left:
  assumes "\<forall>d \<in> set ds. d < 16" and "no_digit 10 rest"
  shows "\<exists>ds'. snd (snd (read_digits 10 acc cnt (map digit_char ds @ rest))) = map digit_char ds' @ rest
           \<and> set ds' \<subseteq> set ds"
  using assms
proof (induction ds arbitrary: acc cnt)
  case Nil
  then show ?case by (simp add: read_digits_stop)
next
  case (Cons d ds)
  show ?case
  proof (cases "to_digit 10 (digit_char d)")
    case None
    then show ?thesis by (intro exI [of _ "d # ds"]) simp
  next
    case (Some v)
    with Cons.IH [of "acc * 10 + v" "Suc cnt"] Cons.prems show ?thesis by auto
  qed
qed

lemma read_ipv4_spelled:
  assumes "spells h g" and "rest = [] \<or> (\<exists>r. rest = 0x3A # r)"
  shows "read_ipv4_addr (h @ rest) = None"
proof -
  obtain ds where ds: "h = map digit_char ds" "\<forall>d \<in> set ds. d < 16" using assms(1) by (auto simp: spells_def)
  have nd: "no_digit 10 rest" using assms(2) by auto
  obtain ds' where left: "snd (snd (read_digits 10 0 0 (h @ rest))) = map digit_char ds' @ rest"
      "set ds' \<subseteq> set ds" using read_digits_left [OF ds(2) nd, of 0 0] ds(1) by auto
  have "case map digit_char ds' @ rest of [] \<Rightarrow> True | c # _ \<Rightarrow> c \<noteq> 0x2E"
    using left(2) ds(2) digit_char_not_sep assms(2) by (cases ds') auto
  then have stop: "read_octet (Suc 0) (map digit_char ds' @ rest) = None"
    by (auto simp: read_octet_def read_separator_def read_given_char_def split: list.splits)
  have first: "r = map digit_char ds' @ rest" if "read_octet 0 (h @ rest) = Some (v, r)" for v r
    using that left(1)
    by (auto simp: read_octet_def read_separator_def read_number_def Let_def case_prod_beta split: if_splits option.splits)
  have four: "(4::nat) = Suc (Suc (Suc (Suc 0)))" by simp
  show ?thesis
    unfolding read_ipv4_addr_def four using stop first by (auto split: option.splits)
qed

lemma read_groups_step:
  assumes "spells h g" and "rest = [] \<or> (\<exists>r. rest = 0x3A # r)"
  shows "read_groups i (Suc n) ((if i = 0 then [] else [0x3A]) @ h @ rest)
    = (let (gs, v4, rest') = read_groups (Suc i) n rest in (g # gs, v4, rest'))"
proof -
  have nd: "no_digit 16 rest" using assms(2) by auto
  show ?thesis
    using read_ipv4_spelled [OF assms] read_group_spelled(1) [OF assms(1) nd] read_group_spelled(2) [OF assms(1) nd]
    by (cases i; cases n) (simp_all add: read_separator_def read_given_char_def)
qed

text \<open>Reading stops at the end of the input and at a double colon.\<close>

definition stops :: "bytes \<Rightarrow> bool" where
  "stops rest \<longleftrightarrow> rest = [] \<or> (\<exists>r. rest = 0x3A # 0x3A # r)"

lemma read_number_colon: "read_number r k z b (0x3A # xs) = None" "read_number r k z b [] = None"
  by (simp_all add: read_number_def to_digit_def digit_value_def)

lemma read_ipv4_colon: "read_ipv4_addr (0x3A # xs) = None" "read_ipv4_addr [] = None"
  using read_octets.simps(2) [of 0 3]
  by (simp_all add: read_ipv4_addr_def read_octet_def read_separator_def read_number_colon)

lemma read_groups_stops: "stops rest \<Longrightarrow> read_groups i n rest = ([], False, rest)"
  by (cases i; cases n)
     (auto simp: stops_def read_separator_def read_given_char_def read_ipv4_colon read_group_def read_number_colon)

definition spelled :: "bytes list \<Rightarrow> u16 list \<Rightarrow> bool" where
  "spelled = list_all2 spells"

lemma read_groups_tail:
  "spelled hs gs \<Longrightarrow> stops rest \<Longrightarrow> length gs \<le> n \<Longrightarrow>
     read_groups (Suc i) n (concat (map ((#) 0x3A) hs) @ rest) = (gs, False, rest)"
  unfolding spelled_def
proof (induction hs gs arbitrary: i n rule: list_all2_induct)
  case Nil
  then show ?case by (simp add: read_groups_stops)
next
  case (Cons h hs g gs)
  let ?rest = "concat (map ((#) 0x3A) hs) @ rest"
  from Cons.prems obtain m where n: "n = Suc m" "length gs \<le> m" by (cases n) auto
  have "?rest = [] \<or> (\<exists>r. ?rest = 0x3A # r)" using Cons.prems(1) by (cases hs) (auto simp: stops_def)
  from read_groups_step [where i = "Suc i" and n = m, OF Cons.hyps(1) this] Cons.IH [of m "Suc i"] Cons.prems(1) n
  show ?case by (simp del: read_groups.simps)
qed

lemma join_concat: "join sep (x # xs) = x @ concat (map (\<lambda>y. sep # y) xs)"
  by (induction xs arbitrary: x) auto

lemma read_groups_join:
  assumes "spelled hs gs" and "stops rest" and "length gs \<le> n"
  shows "read_groups 0 n (join 0x3A hs @ rest) = (gs, False, rest)"
proof (cases hs)
  case Nil
  then show ?thesis using assms by (simp add: spelled_def read_groups_stops)
next
  case (Cons h ts)
  then obtain g ks where gs: "gs = g # ks" "spells h g" "spelled ts ks"
    using assms(1) by (auto simp: spelled_def list_all2_Cons1)
  then obtain m where n: "n = Suc m" "length ks \<le> m" using assms(3) by (cases n) auto
  let ?rest = "concat (map ((#) 0x3A) ts) @ rest"
  have "?rest = [] \<or> (\<exists>r. ?rest = 0x3A # r)" using assms(2) by (cases ts) (auto simp: stops_def)
  from read_groups_step [where i = 0 and n = m, OF gs(2) this] read_groups_tail [OF gs(3) assms(2) n(2)]
  show ?thesis by (simp add: Cons join_concat gs(1) n(1) del: read_groups.simps)
qed

lemma read_ipv6_full:
  assumes "spelled hs gs" and "length gs = 8"
  shows "read_ipv6_addr (join 0x3A hs) = Some (gs, [])"
  using read_groups_join [OF assms(1), of "[]" 8] assms(2) by (simp add: read_ipv6_addr_def stops_def)

lemma spelled_hex4: "spelled (map hex4 ps) (map group_of ps)"
  by (simp add: spelled_def list_all2_map1 list_all2_map2 list_all2_same)

lemma parse_ipv6_hex:
  assumes "length ps = 8"
  shows "parse_ipv6 (join 0x3A (map hex4 ps)) = Some (map group_of ps)"
  using read_ipv6_full [OF spelled_hex4] assms by (simp add: parse_ipv6_def parse_with_def)

fun byte_pairs :: "u8 list \<Rightarrow> (u8 \<times> u8) list" where
  "byte_pairs (a # b # bs) = (a, b) # byte_pairs bs"
| "byte_pairs _ = []"

lemma byte_pairs_nth: "byte_pairs bs = map (\<lambda>i. (bs ! (2 * i), bs ! (2 * i + 1))) [0..<length bs div 2]"
proof (induction bs rule: byte_pairs.induct)
  case (1 a b bs)
  have "[0..<Suc (length bs div 2)] = 0 # map Suc [0..<length bs div 2]"
    by (metis map_Suc_upt upt_conv_Cons zero_less_Suc)
  with 1 show ?case by (simp add: comp_def)
qed auto

lemma show_ipv6_full_hex: "show_ipv6_full bs = join 0x3A (map hex4 (byte_pairs bs))"
  by (simp add: show_ipv6_full_def byte_pairs_nth hex4_def comp_def)

lemma length_byte_pairs: "length (byte_pairs bs) = length bs div 2"
  by (simp add: byte_pairs_nth)

lemma group_octets: "put_u16 (group_of (a, b)) = [a, b]"
  by (simp add: group_of_def be_simps)

lemma octets_of_byte_pairs: "even (length bs) \<Longrightarrow> octets_of_groups (map group_of (byte_pairs bs)) = bs"
  by (induction bs rule: byte_pairs.induct) (auto simp: octets_of_groups_def group_octets)

lemma parse_show_ipv6_full:
  assumes "length bs = 16"
  shows "\<exists>gs. parse_ipv6 (show_ipv6_full bs) = Some gs \<and> length gs = 8 \<and> octets_of_groups gs = bs"
  using parse_ipv6_hex [of "byte_pairs bs"] octets_of_byte_pairs [of bs] length_byte_pairs [of bs] assms
  by (simp add: show_ipv6_full_hex)

lemma length_hex4 [simp]: "length (hex4 p) = 4"
  by (simp add: hex4_def hex2_def)

lemma length_show_ipv6_full:
  assumes "length bs = 16"
  shows "length (show_ipv6_full bs) = 39"
proof -
  have "length (byte_pairs bs) = 8" using assms by (simp add: length_byte_pairs)
  then obtain p qs where ps: "byte_pairs bs = p # qs" "length qs = 7" by (cases "byte_pairs bs") auto
  have "length (concat (map (\<lambda>p. 0x3A # hex4 p) qs)) = 5 * length qs" by (induction qs) auto
  with ps show ?thesis by (simp add: show_ipv6_full_hex join_concat comp_def)
qed

lemma octets_length: "length (octets_of_groups gs) = 2 * length gs"
  by (induction gs) (simp_all add: octets_of_groups_def)

subsection \<open>Lemmas: the compressed form\<close>

definition zero_run :: "u16 list \<Rightarrow> nat \<times> nat \<Rightarrow> bool" where
  "zero_run gs r \<longleftrightarrow> fst r + snd r \<le> length gs \<and> (\<forall>j < snd r. gs ! (fst r + j) = 0)"

lemma longest_zeros_run:
  assumes "drop i F = gs" and "snd cur = 0 \<or> fst cur + snd cur = i \<and> zero_run F cur" and "zero_run F best"
  shows "zero_run F (longest_zeros i gs cur best)"
  using assms
proof (induction i gs cur best rule: longest_zeros.induct)
  case (2 i g gs cs cl bs bl)
  have "i < length F" using "2.prems"(1) by (rule_tac ccontr) simp
  then have i: "i < length F" "F ! i = g" "drop (Suc i) F = gs" using "2.prems"(1) Cons_nth_drop_Suc [of i F] by simp_all
  show ?case
  proof (cases "g = 0")
    case False
    then show ?thesis using "2.IH"(2) i "2.prems"(3) by simp
  next
    case True
    let ?cur = "(if cl = 0 then i else cs, Suc cl)"
    have "zero_run F ?cur"
      using "2.prems"(2) i True by (auto simp: zero_run_def less_Suc_eq)
    moreover have "fst ?cur + snd ?cur = Suc i" using "2.prems"(2) by auto
    ultimately show ?thesis using "2.IH"(1) [OF True refl refl refl] True i(3) "2.prems"(3) by (simp add: Let_def)
  qed
qed simp

lemma zero_run_split:
  assumes "zero_run gs (st, len)"
  shows "gs = take st gs @ replicate len 0 @ drop (st + len) gs"
proof -
  have "take len (drop st gs) = replicate len 0"
    using assms by (intro nth_equalityI) (auto simp: zero_run_def)
  then show ?thesis by (metis append_take_drop_id drop_drop add.commute)
qed

lemma spelled_groups: "spelled (map (\<lambda>g. show_hex (unat g)) gs) gs"
  by (simp add: spelled_def list_all2_map1 list_all2_same)

lemma read_ipv6_compressed:
  assumes "zero_run gs (st, len)" and "1 < len" and "length gs = 8"
  shows "read_ipv6_addr (show_groups (take st gs) @ 0x3A # 0x3A # show_groups (drop (st + len) gs)) = Some (gs, [])"
proof -
  let ?rest = "0x3A # 0x3A # show_groups (drop (st + len) gs)"
  have st: "st + len \<le> 8" using assms by (simp add: zero_run_def)
  have head: "read_groups 0 8 (show_groups (take st gs) @ ?rest) = (take st gs, False, ?rest)"
    unfolding show_groups_def by (rule read_groups_join [OF spelled_groups]) (use assms in \<open>auto simp: stops_def\<close>)
  have tail: "read_groups 0 (8 - (st + 1)) (show_groups (drop (st + len) gs)) = (drop (st + len) gs, False, [])"
    using read_groups_join [OF spelled_groups, of "[]" "drop (st + len) gs" "8 - (st + 1)"] assms(2,3)
    by (simp add: show_groups_def stops_def)
  have "8 - st - (8 - (st + len)) = len" using st by simp
  then show ?thesis
    using head tail zero_run_split [OF assms(1)] st assms(2,3) by (simp add: read_ipv6_addr_def read_given_char_def)
qed

lemma put_u16_pair: "\<exists>x y. put_u16 g = [x, y] \<and> from_be_bytes [x, y] = g"
proof -
  have "length (put_u16 g) = Suc (Suc 0)" by simp
  then obtain x y where "put_u16 g = [x, y]" by (auto simp: length_Suc_conv simp del: length_put_u16)
  then show ?thesis using be_simps(1) [of g] by auto
qed

lemma read_ipv6_mapped:
  assumes "length gs = 8" and "to_ipv4_mapped gs = Some os"
  shows "length os = 4" and "read_ipv6_addr (ascii ''::ffff:'' @ show_ipv4 os) = Some (gs, [])"
proof -
  from assms(1) obtain a b c d e f g h where gs: "gs = [a, b, c, d, e, f, g, h]"
    by (auto simp: numeral_eq_Suc length_Suc_conv)
  with assms(2) have z: "a = 0" "b = 0" "c = 0" "d = 0" "e = 0" "f = 0xFFFF" and os: "os = put_u16 g @ put_u16 h"
    by (auto simp: to_ipv4_mapped_def octets_of_groups_def numeral_eq_Suc split: if_splits)
  show len: "length os = 4" by (simp add: os)
  have pre: "ascii ''::ffff:'' @ show_ipv4 os = 0x3A # 0x3A # [0x66, 0x66, 0x66, 0x66] @ 0x3A # show_ipv4 os"
    by (simp add: ascii_def)
  have sp: "spells [0x66, 0x66, 0x66, 0x66] 0xFFFF"
    unfolding spells_def by (intro exI [of _ "[15, 15, 15, 15]"]) (simp add: digit_char_def)
  obtain g1 g2 h1 h2 where "put_u16 g = [g1, g2]" "from_be_bytes [g1, g2] = g" "put_u16 h = [h1, h2]" "from_be_bytes [h1, h2] = h"
    using put_u16_pair by metis
  then have "read_groups 1 6 (0x3A # show_ipv4 os) = ([g, h], True, [])"
    using read_show_ipv4 [OF len, of "[]"] os by (simp add: numeral_eq_Suc read_separator_def read_given_char_def)
  then have tail: "read_groups 0 7 ([0x66, 0x66, 0x66, 0x66] @ 0x3A # show_ipv4 os) = ([0xFFFF, g, h], True, [])"
    using read_groups_step [OF sp, of "0x3A # show_ipv4 os" 0 6] by (simp del: read_groups.simps)
  have head: "read_groups 0 8 (0x3A # 0x3A # r) = ([], False, 0x3A # 0x3A # r)" for r
    by (rule read_groups_stops) (simp add: stops_def)
  have five: "replicate 5 (0 :: u16) = [0, 0, 0, 0, 0]" by (simp add: numeral_eq_Suc)
  show "read_ipv6_addr (ascii ''::ffff:'' @ show_ipv4 os) = Some (gs, [])"
    using tail five by (simp add: pre read_ipv6_addr_def head read_given_char_def gs z del: read_groups.simps)
qed

lemma read_show_ipv6:
  assumes "length gs = 8"
  shows "read_ipv6_addr (show_ipv6 gs) = Some (gs, [])"
proof (cases "to_ipv4_mapped gs")
  case None
  obtain st len where l: "longest_zeros 0 gs (0, 0) (0, 0) = (st, len)" by force
  have "zero_run gs (st, len)" using longest_zeros_run [of 0 gs gs "(0, 0)" "(0, 0)"] l by (simp add: zero_run_def)
  then show ?thesis
    using None l assms read_ipv6_compressed read_ipv6_full [OF spelled_groups assms]
    by (simp add: show_ipv6_def show_groups_def [of gs] ascii_def)
qed (use assms read_ipv6_mapped in \<open>simp add: show_ipv6_def\<close>)

lemma read_ipv4_show_ipv6:
  assumes "length gs = 8"
  shows "read_ipv4_addr (show_ipv6 gs) = None"
proof -
  have groups: "read_ipv4_addr (show_groups ks @ rest) = None" if "rest = [] \<or> (\<exists>r. rest = 0x3A # r)" for ks rest
  proof (cases ks)
    case Nil
    then show ?thesis using that read_ipv4_colon by (auto simp: show_groups_def)
  next
    case (Cons k ks')
    let ?rest = "concat (map ((#) 0x3A) (map (\<lambda>g. show_hex (unat g)) ks')) @ rest"
    have "?rest = [] \<or> (\<exists>r. ?rest = 0x3A # r)" using that by (cases ks') auto
    from read_ipv4_spelled [OF spells_show this] show ?thesis
      by (simp add: Cons show_groups_def join_concat comp_def)
  qed
  show ?thesis
    using groups [of "[]" gs] groups [of "0x3A # _"] read_ipv4_colon(1)
    by (auto simp: show_ipv6_def ascii_def split: option.split prod.split)
qed

lemma parse_show_ipv6:
  assumes "length gs = 8"
  shows "parse_ipv6 (show_ipv6 gs) = Some gs" and "parse_ipv4 (show_ipv6 gs) = None"
    and "parse_ip (show_ipv6 gs) = Some (V6 gs)"
  using read_show_ipv6 [OF assms] read_ipv4_show_ipv6 [OF assms]
  by (simp_all add: parse_ipv6_def parse_ipv4_def parse_ip_def parse_with_def)

text \<open>The address that \<open>normalize_ip\<close> writes.\<close>

definition unmapped :: "ip_addr \<Rightarrow> ip_addr" where
  "unmapped ip = (case ip of V6 gs \<Rightarrow> (case to_ipv4_mapped gs of Some os \<Rightarrow> V4 os | None \<Rightarrow> ip) | V4 os \<Rightarrow> ip)"

lemma unmapped_cases:
  assumes "ip_wf ip"
  obtains os where "unmapped ip = V4 os" "length os = 4" "normalize_ip ip = show_ipv4 os"
  | gs where "unmapped ip = V6 gs" "length gs = 8" "normalize_ip ip = show_ipv6 gs"
proof (cases ip)
  case (V6 gs)
  then have gs: "length gs = 8" using assms by (simp add: ip_wf_def)
  show thesis
  proof (cases "to_ipv4_mapped gs")
    case None
    then show thesis using that(2) [of gs] V6 gs by (simp add: unmapped_def normalize_ip_def)
  next
    case (Some os)
    then show thesis using that(1) [of os] V6 read_ipv6_mapped(1) [OF gs] by (simp add: unmapped_def normalize_ip_def)
  qed
qed (use assms that(1) in \<open>simp add: ip_wf_def unmapped_def normalize_ip_def\<close>)

lemma octets_groups_inverse: "map group_of (byte_pairs (octets_of_groups gs)) = gs"
proof (induction gs)
  case (Cons g gs)
  then show ?case using put_u16_pair [of g] by (auto simp: octets_of_groups_def group_of_def)
qed (simp add: octets_of_groups_def)

lemma parse_ip_full:
  assumes "length gs = 8"
  shows "parse_ip (show_ipv6_full (octets_of_groups gs)) = Some (V6 gs)"
proof -
  let ?ps = "byte_pairs (octets_of_groups gs)"
  have ps: "map group_of ?ps = gs" by (rule octets_groups_inverse)
  then have "length ?ps = 8" using assms by (metis length_map)
  then obtain p qs where c: "?ps = p # qs" by (cases ?ps) auto
  have six: "read_ipv6_addr (join 0x3A (map hex4 ?ps)) = Some (gs, [])"
    by (rule read_ipv6_full [OF _ assms]) (use spelled_hex4 [of ?ps, unfolded ps] in assumption)
  let ?rest = "concat (map ((#) 0x3A) (map hex4 qs))"
  have "?rest = [] \<or> (\<exists>r. ?rest = 0x3A # r)" by (cases qs) auto
  from read_ipv4_spelled [OF spells_hex4 this, of p] have "read_ipv4_addr (join 0x3A (map hex4 ?ps)) = None"
    by (simp add: c join_concat comp_def)
  with six show ?thesis by (simp add: parse_ip_def parse_with_def show_ipv6_full_hex)
qed

end
