(* ===== verification/Socks5.thy ===== *)
theory Socks5
  imports NetAddr
begin

text \<open>
  The SOCKS5 server and client of \<open>src/src/socks5.rs\<close>: greeting, CONNECT and UDP ASSOCIATE on
  the splitter's side, CONNECT through the egress proxy on the reassembler's side, and the UDP
  datagram header.

  A stream is a record of what is still to be read, what has been written, and how many more
  writes the peer takes; a read past the end and a write to a gone peer are errors.  A handshake
  returns its result with the stream, so that what was written before an error is known.
\<close>

subsection \<open>Constants and data\<close>

named_theorems socks_consts

definition SOCKS_VERSION :: u8 where [socks_consts]: "SOCKS_VERSION = 0x05"
definition AUTH_NONE :: u8 where [socks_consts]: "AUTH_NONE = 0x00"
definition CMD_CONNECT :: u8 where [socks_consts]: "CMD_CONNECT = 0x01"
definition CMD_UDP_ASSOCIATE :: u8 where [socks_consts]: "CMD_UDP_ASSOCIATE = 0x03"
definition ATYP_IPV4 :: u8 where [socks_consts]: "ATYP_IPV4 = 0x01"
definition ATYP_DOMAIN :: u8 where [socks_consts]: "ATYP_DOMAIN = 0x03"
definition ATYP_IPV6 :: u8 where [socks_consts]: "ATYP_IPV6 = 0x04"
definition REP_SUCCESS :: u8 where [socks_consts]: "REP_SUCCESS = 0x00"
definition REP_CMD_NOT_SUPPORTED :: u8 where [socks_consts]: "REP_CMD_NOT_SUPPORTED = 0x07"

definition REPLY_GENERAL_FAILURE :: bytes where
  "REPLY_GENERAL_FAILURE = [SOCKS_VERSION, 0x01, 0x00, ATYP_IPV4, 0, 0, 0, 0, 0, 0]"

record target_addr =
  ta_address :: bytes
  ta_port :: u16

datatype socks_error =
    Eof | WriteFailed | NotSocks5 u8 | InvalidNmethods | AuthRequired | BadRequestVersion
  | UnsupportedCmd u8 | UnsupportedAtyp u8 | BadUtf8 | BindFailed
  | ProxyNotSocks5 u8 | ProxyAuth u8 | BadReplyVersion | ConnectFailed u8
  | DomainTooLong nat | DatagramTooShort | Fragmented | TruncatedIpv4 | TruncatedDomain
  | ZeroDomain | TruncatedDomainData | TruncatedIpv6

record stream =
  s_in :: bytes
  s_out :: bytes
  s_writes :: nat

text \<open>\<open>read_exact\<close> and \<open>write_all\<close>\<close>

definition read_exact :: "nat \<Rightarrow> stream \<Rightarrow> (socks_error + bytes) \<times> stream" where
  "read_exact n s =
     (if length (s_in s) < n then (Inl Eof, s\<lparr>s_in := []\<rparr>)
      else (Inr (take n (s_in s)), s\<lparr>s_in := drop n (s_in s)\<rparr>))"

definition write_all :: "bytes \<Rightarrow> stream \<Rightarrow> (socks_error + unit) \<times> stream" where
  "write_all bs s =
     (case s_writes s of
        0 \<Rightarrow> (Inl WriteFailed, s)
      | Suc k \<Rightarrow> (Inr (), s\<lparr>s_out := s_out s @ bs, s_writes := k\<rparr>))"

text \<open>The \<open>?\<close> operator.\<close>

definition andthen :: "(socks_error + 'a) \<times> stream \<Rightarrow> ('a \<Rightarrow> stream \<Rightarrow> (socks_error + 'b) \<times> stream)
    \<Rightarrow> (socks_error + 'b) \<times> stream" where
  "andthen r k = (case r of (Inl e, s) \<Rightarrow> (Inl e, s) | (Inr v, s) \<Rightarrow> k v s)"

subsection \<open>Addresses\<close>

definition encode_address :: "bytes \<Rightarrow> u16 \<Rightarrow> socks_error + bytes" where
  "encode_address host port =
     (case parse_ipv4 host of
        Some ip \<Rightarrow> Inr ([ATYP_IPV4] @ ip @ put_u16 port)
      | None \<Rightarrow>
          (case parse_ipv6 host of
             Some ip \<Rightarrow> Inr ([ATYP_IPV6] @ octets_of_groups ip @ put_u16 port)
           | None \<Rightarrow>
               if length host > 255 then Inl (DomainTooLong (length host))
               else Inr ([ATYP_DOMAIN, word_of_nat (length host)] @ host @ put_u16 port)))"

definition read_address :: "u8 \<Rightarrow> stream \<Rightarrow> (socks_error + target_addr) \<times> stream" where
  "read_address atyp s =
     (if atyp = ATYP_IPV4 then
        andthen (read_exact 6 s) (\<lambda>buf s.
          (Inr \<lparr>ta_address = show_ipv4 (take 4 buf), ta_port = from_be_bytes [buf ! 4, buf ! 5]\<rparr>, s))
      else if atyp = ATYP_DOMAIN then
        andthen (read_exact 1 s) (\<lambda>len s.
        andthen (read_exact (unat (len ! 0)) s) (\<lambda>addr s.
        andthen (read_exact 2 s) (\<lambda>port_buf s.
          if utf8_valid addr then (Inr \<lparr>ta_address = addr, ta_port = from_be_bytes port_buf\<rparr>, s)
          else (Inl BadUtf8, s))))
      else if atyp = ATYP_IPV6 then
        andthen (read_exact 18 s) (\<lambda>buf s.
          (Inr \<lparr>ta_address = show_ipv6_full (take 16 buf), ta_port = from_be_bytes [buf ! 16, buf ! 17]\<rparr>, s))
      else (Inl (UnsupportedAtyp atyp), s))"

definition drain_address :: "u8 \<Rightarrow> stream \<Rightarrow> (socks_error + unit) \<times> stream" where
  "drain_address atyp s =
     (if atyp = ATYP_IPV4 then andthen (read_exact 6 s) (\<lambda>_ s. (Inr (), s))
      else if atyp = ATYP_DOMAIN then
        andthen (read_exact 1 s) (\<lambda>len s.
        andthen (read_exact (unat (len ! 0) + 2) s) (\<lambda>_ s. (Inr (), s)))
      else if atyp = ATYP_IPV6 then andthen (read_exact 18 s) (\<lambda>_ s. (Inr (), s))
      else (Inl (UnsupportedAtyp atyp), s))"

definition encode_reply :: "u8 \<Rightarrow> socket_addr \<Rightarrow> bytes" where
  "encode_reply rep addr =
     [SOCKS_VERSION, rep, 0x00]
     @ (case sa_ip addr of V4 os \<Rightarrow> [ATYP_IPV4] @ os | V6 gs \<Rightarrow> [ATYP_IPV6] @ octets_of_groups gs)
     @ put_u16 (sa_port addr)"

definition udp_associate_client_addr :: "target_addr \<Rightarrow> socket_addr option" where
  "udp_associate_client_addr addr =
     (if ta_port addr = 0 then None
      else case parse_ip (ta_address addr) of
             Some ip \<Rightarrow> if \<not> is_unspecified ip then Some \<lparr>sa_ip = ip, sa_port = ta_port addr\<rparr> else None
           | None \<Rightarrow> None)"

subsection \<open>Server side\<close>

datatype socks5_result =
    Connect target_addr
  | UdpAssociate socket_addr "socket_addr option"

text \<open>
  \<open>relay\<close> is the address the relay socket was bound to, \<open>None\<close> when \<open>local_addr\<close> or \<open>bind\<close>
  failed.
\<close>

definition socks5_server_accept :: "socket_addr option \<Rightarrow> stream
    \<Rightarrow> (socks_error + socks5_result \<times> bytes) \<times> stream" where
  "socks5_server_accept relay s =
     andthen (read_exact 2 s) (\<lambda>hdr s.
     if hdr ! 0 \<noteq> SOCKS_VERSION then (Inl (NotSocks5 (hdr ! 0)), s)
     else if hdr ! 1 = 0 then (Inl InvalidNmethods, s)
     else
     andthen (read_exact (unat (hdr ! 1)) s) (\<lambda>methods s.
     if AUTH_NONE \<notin> set methods then
       andthen (write_all [SOCKS_VERSION, 0xFF] s) (\<lambda>_ s. (Inl AuthRequired, s))
     else
     andthen (write_all [SOCKS_VERSION, AUTH_NONE] s) (\<lambda>_ s.
     andthen (read_exact 4 s) (\<lambda>req s.
     if req ! 0 \<noteq> SOCKS_VERSION then (Inl BadRequestVersion, s)
     else if req ! 1 = CMD_CONNECT then
       andthen (read_address (req ! 3) s) (\<lambda>target s.
         (Inr (Connect target, [SOCKS_VERSION, REP_SUCCESS, 0x00, ATYP_IPV4, 0, 0, 0, 0, 0, 0]), s))
     else if req ! 1 = CMD_UDP_ASSOCIATE then
       andthen (read_address (req ! 3) s) (\<lambda>client_addr s.
         (case relay of
            None \<Rightarrow> (Inl BindFailed, s)
          | Some ra \<Rightarrow>
              (Inr (UdpAssociate ra (udp_associate_client_addr client_addr), encode_reply REP_SUCCESS ra), s)))
     else
       andthen (write_all [SOCKS_VERSION, REP_CMD_NOT_SUPPORTED, 0x00, ATYP_IPV4, 0, 0, 0, 0, 0, 0] s)
         (\<lambda>_ s. (Inl (UnsupportedCmd (req ! 1)), s))))))"

subsection \<open>Client side\<close>

text \<open>After \<open>TcpStream::connect(proxy)\<close> succeeded.\<close>

definition socks5_client_connect :: "bytes \<Rightarrow> u16 \<Rightarrow> stream \<Rightarrow> (socks_error + unit) \<times> stream" where
  "socks5_client_connect target port s =
     andthen (write_all [SOCKS_VERSION, 0x01, AUTH_NONE] s) (\<lambda>_ s.
     andthen (read_exact 2 s) (\<lambda>resp s.
     if resp ! 0 \<noteq> SOCKS_VERSION then (Inl (ProxyNotSocks5 (resp ! 0)), s)
     else if resp ! 1 \<noteq> AUTH_NONE then (Inl (ProxyAuth (resp ! 1)), s)
     else
     (case encode_address target port of
        Inl e \<Rightarrow> (Inl e, s)
      | Inr addr_bytes \<Rightarrow>
          andthen (write_all ([SOCKS_VERSION, CMD_CONNECT, 0x00] @ addr_bytes) s) (\<lambda>_ s.
          andthen (read_exact 4 s) (\<lambda>head s.
          if head ! 0 \<noteq> SOCKS_VERSION then (Inl BadReplyVersion, s)
          else if head ! 1 \<noteq> REP_SUCCESS then (Inl (ConnectFailed (head ! 1)), s)
          else drain_address (head ! 3) s)))))"

subsection \<open>UDP datagrams\<close>

definition encode_udp_datagram :: "target_addr \<Rightarrow> bytes \<Rightarrow> socks_error + bytes" where
  "encode_udp_datagram target dat =
     (case encode_address (ta_address target) (ta_port target) of
        Inl e \<Rightarrow> Inl e
      | Inr addr \<Rightarrow> Inr (put_u16 0 @ [0] @ addr @ dat))"

definition parse_udp_address :: "u8 \<Rightarrow> bytes \<Rightarrow> socks_error + (bytes \<times> u16 \<times> nat)" where
  "parse_udp_address atyp d =
     (if atyp = ATYP_IPV4 then
        if length d < 7 then Inl TruncatedIpv4
        else Inr (show_ipv4 [d ! 1, d ! 2, d ! 3, d ! 4], from_be_bytes [d ! 5, d ! 6], 7)
      else if atyp = ATYP_DOMAIN then
        if length d < 2 then Inl TruncatedDomain
        else let len = unat (d ! 1) in
          if len = 0 then Inl ZeroDomain
          else if length d < 4 + len then Inl TruncatedDomainData
          else if utf8_valid (take len (drop 2 d)) then
            Inr (take len (drop 2 d), from_be_bytes [d ! (2 + len), d ! (3 + len)], 4 + len)
          else Inl BadUtf8
      else if atyp = ATYP_IPV6 then
        if length d < 19 then Inl TruncatedIpv6
        else Inr (show_ipv6_full (take 16 (drop 1 d)), from_be_bytes [d ! 17, d ! 18], 19)
      else Inl (UnsupportedAtyp atyp))"

definition decode_udp_datagram :: "bytes \<Rightarrow> socks_error + (target_addr \<times> bytes)" where
  "decode_udp_datagram payload =
     (if length payload < 4 then Inl DatagramTooShort
      else if payload ! 2 \<noteq> 0 then Inl Fragmented
      else case parse_udp_address (payload ! 3) (drop 3 payload) of
             Inl e \<Rightarrow> Inl e
           | Inr (addr, port, consumed) \<Rightarrow>
               Inr (\<lparr>ta_address = addr, ta_port = port\<rparr>, drop (3 + consumed) payload))"


subsection \<open>Lemmas: addresses\<close>

lemma read_octets_length: "read_octets i n inp = Some (os, rest) \<Longrightarrow> length os = n"
  by (induction i n inp arbitrary: os rest rule: read_octets.induct) (auto split: option.splits)

lemma parse_ipv4_length: "parse_ipv4 h = Some os \<Longrightarrow> length os = 4"
  by (auto simp: parse_ipv4_def parse_with_def read_ipv4_addr_def
      split: if_splits option.splits list.splits dest!: read_octets_length)

lemma read_groups_length: "read_groups i n inp = (gs, v4, rest) \<Longrightarrow> length gs \<le> n"
  by (induction i n inp arbitrary: gs v4 rest rule: read_groups.induct)
     (auto simp: Let_def split: option.splits prod.splits if_splits)

lemma read_ipv6_addr_length:
  assumes "read_ipv6_addr inp = Some (gs, r)"
  shows "length gs = 8"
proof -
  obtain head v4 rest where h: "read_groups 0 8 inp = (head, v4, rest)" by (metis prod_cases3)
  have "length tail \<le> 8 - Suc (length head)"
    if "read_groups 0 (8 - Suc (length head)) q = (tail, v, q')" for q tail v q'
    using read_groups_length [OF that] .
  with assms h read_groups_length [OF h] show ?thesis
    by (fastforce simp: read_ipv6_addr_def Let_def split: if_splits option.splits prod.splits)
qed

lemma parse_ipv6_length: "parse_ipv6 h = Some gs \<Longrightarrow> length gs = 8"
  by (auto simp: parse_ipv6_def parse_with_def split: option.splits list.splits dest: read_ipv6_addr_length)

text \<open>
  The spelling a host has after a trip through the binary form: IPv4 literals print back in
  decimal, IPv6 literals in the expanded form, names unchanged.
\<close>

definition canon_host :: "bytes \<Rightarrow> bytes" where
  "canon_host h =
     (case parse_ipv4 h of
        Some os \<Rightarrow> show_ipv4 os
      | None \<Rightarrow> (case parse_ipv6 h of Some gs \<Rightarrow> show_ipv6_full (octets_of_groups gs) | None \<Rightarrow> h))"

definition canon_target :: "target_addr \<Rightarrow> target_addr" where
  "canon_target t = t\<lparr>ta_address := canon_host (ta_address t)\<rparr>"

lemma octets_inj: "length gs = length hs \<Longrightarrow> octets_of_groups gs = octets_of_groups hs \<Longrightarrow> gs = hs"
proof (induction gs hs rule: list_induct2)
  case (Cons g gs h hs)
  then have eq: "put_u16 g = put_u16 h" "octets_of_groups gs = octets_of_groups hs"
    by (auto simp: octets_of_groups_def)
  from eq(1) have "g = h" by (metis be_roundtrip(1))
  with eq(2) Cons show ?case by simp
qed simp

lemma parse_ipv6_full: "length gs = 8 \<Longrightarrow> parse_ipv6 (show_ipv6_full (octets_of_groups gs)) = Some gs"
  using parse_show_ipv6_full [of "octets_of_groups gs"] octets_inj [of _ gs]
  by (auto simp: octets_length)

lemma parse_ipv4_of_ipv6: "length gs = 8 \<Longrightarrow> parse_ipv4 (show_ipv6_full (octets_of_groups gs)) = None"
  using length_show_ipv6_full [of "octets_of_groups gs"] by (simp add: parse_ipv4_def octets_length)

lemma encode_address_canon: "encode_address (canon_host h) p = encode_address h p"
  by (auto simp: encode_address_def canon_host_def parse_show_ipv4 parse_ipv4_of_ipv6 parse_ipv6_full
      split: option.splits dest: parse_ipv4_length parse_ipv6_length)

text \<open>The three shapes of an encoded address.\<close>

lemma encode_address_cases:
  assumes "encode_address h p = Inr a"
  obtains os where "length os = 4" "canon_host h = show_ipv4 os" "a = ATYP_IPV4 # os @ put_u16 p"
  | os where "length os = 16" "canon_host h = show_ipv6_full os" "a = ATYP_IPV6 # os @ put_u16 p"
  | "length h \<le> 255" "canon_host h = h" "a = ATYP_DOMAIN # word_of_nat (length h) # h @ put_u16 p"
proof (cases "parse_ipv4 h")
  case (Some os)
  with assms that(1) [of os] parse_ipv4_length [OF Some] show thesis
    by (simp add: encode_address_def canon_host_def)
next
  case None
  show thesis
  proof (cases "parse_ipv6 h")
    case (Some gs)
    with None assms that(2) [of "octets_of_groups gs"] parse_ipv6_length [OF Some] show thesis
      by (simp add: encode_address_def canon_host_def octets_length)
  next
    case N6: None
    with None assms that(3) show thesis
      by (auto simp: encode_address_def canon_host_def split: if_splits)
  qed
qed

lemma from_be_two: "(from_be_bytes [put_u16 p ! 0, put_u16 p ! Suc 0] :: u16) = p"
proof -
  have "[put_u16 p ! 0, put_u16 p ! Suc 0] = put_u16 p"
    by (rule nth_equalityI) (auto simp: less_Suc_eq numeral_2_eq_2)
  then show ?thesis by (simp add: be_simps)
qed

lemma four_nth: "length os = 4 \<Longrightarrow> [os ! 0, os ! Suc 0, os ! 2, os ! 3] = os"
  by (rule nth_equalityI) (auto simp: less_Suc_eq numeral_eq_Suc)

lemma parse_encoded_address:
  assumes "encode_address h p = Inr a"
    and "parse_ipv4 h = None \<Longrightarrow> parse_ipv6 h = None \<Longrightarrow> utf8_valid h \<and> h \<noteq> []"
  shows "parse_udp_address (hd a) (a @ rest) = Inr (canon_host h, p, length a)"
  using assms(1)
proof (cases rule: encode_address_cases)
  case (1 os)
  then have "(a @ rest) ! 5 = put_u16 p ! 0" "(a @ rest) ! 6 = put_u16 p ! Suc 0"
    "[(a @ rest) ! 1, (a @ rest) ! 2, (a @ rest) ! 3, (a @ rest) ! 4] = os"
    using four_nth [of os] by (simp_all add: nth_append numeral_eq_Suc)
  with 1 show ?thesis by (simp add: parse_udp_address_def from_be_two)
next
  case (2 os)
  then have "(a @ rest) ! 17 = put_u16 p ! 0" "(a @ rest) ! 18 = put_u16 p ! Suc 0"
    by (simp_all add: nth_append numeral_eq_Suc)
  with 2 show ?thesis by (simp add: parse_udp_address_def from_be_two socks_consts)
next
  case 3
  then have n: "unat (word_of_nat (length h) :: u8) = length h" by simp
  have "(a @ rest) ! (2 + length h) = put_u16 p ! 0" "(a @ rest) ! (3 + length h) = put_u16 p ! Suc 0"
    using 3 by (simp_all add: nth_append nth_Cons')
  moreover have "utf8_valid h \<and> h \<noteq> []"
    using assms 3 by (auto simp: encode_address_def socks_consts split: option.splits)
  ultimately show ?thesis using 3 n by (simp add: parse_udp_address_def from_be_two socks_consts Let_def)
qed

lemma decode_encoded_udp:
  assumes "encode_udp_datagram t dat = Inr w"
    and "parse_ipv4 (ta_address t) = None \<Longrightarrow> parse_ipv6 (ta_address t) = None \<Longrightarrow>
      utf8_valid (ta_address t) \<and> ta_address t \<noteq> []"
  shows "decode_udp_datagram w = Inr (canon_target t, dat)"
proof -
  from assms(1) obtain a where a: "encode_address (ta_address t) (ta_port t) = Inr a"
    and w: "w = put_u16 0 @ [0] @ a @ dat" by (auto simp: encode_udp_datagram_def split: sum.splits)
  have ne: "a \<noteq> []" using a by (rule encode_address_cases) auto
  have "put_u16 0 = [0, 0]" by (simp add: put_u16_bytes)
  then have w': "w = 0 # 0 # 0 # a @ dat" using w by simp
  show ?thesis
    using parse_encoded_address [OF a assms(2), of dat] ne w'
    by (cases a) (simp_all add: decode_udp_datagram_def canon_target_def drop_Cons' numeral_eq_Suc)
qed

text \<open>A name whose first character is no hexadecimal digit, dot or colon is no IP literal.\<close>

lemma parse_name:
  assumes "digit_value c = None" and "c \<noteq> 0x3A"
  shows "parse_ipv4 (c # cs) = None" and "parse_ipv6 (c # cs) = None"
proof -
  have num: "read_number r k z b (c # cs) = None" for r k z b
    using assms by (simp add: read_number_def to_digit_def)
  have v4: "read_ipv4_addr (c # cs) = None"
    using num read_octets.simps(2) [of 0 3 "c # cs"]
    by (simp add: read_ipv4_addr_def read_octet_def read_separator_def)
  have "read_groups 0 8 (c # cs) = ([], False, c # cs)"
    using num v4 read_groups.simps(2) [of 0 7 "c # cs"] by (simp add: read_group_def read_separator_def)
  then have "read_ipv6_addr (c # cs) = None"
    using assms(2) by (simp add: read_ipv6_addr_def read_given_char_def)
  with v4 show "parse_ipv4 (c # cs) = None" and "parse_ipv6 (c # cs) = None"
    by (simp_all add: parse_ipv4_def parse_ipv6_def parse_with_def)
qed

lemma encode_address_ne: "encode_address h p = Inr a \<Longrightarrow> a \<noteq> []"
  by (erule encode_address_cases) auto

lemma read_exact_append: "length bs = n \<Longrightarrow>
    read_exact n \<lparr>s_in = bs @ rest, s_out = w, s_writes = k\<rparr> = (Inr bs, \<lparr>s_in = rest, s_out = w, s_writes = k\<rparr>)"
  by (simp add: read_exact_def)

lemma andthen_Inr [simp]: "andthen (Inr v, s) k = k v s"
  by (simp add: andthen_def)

lemma read_encoded_address:
  assumes "encode_address h p = Inr a" and "utf8_valid h"
  shows "read_address (hd a) \<lparr>s_in = tl a @ rest, s_out = w, s_writes = k\<rparr>
    = (Inr \<lparr>ta_address = canon_host h, ta_port = p\<rparr>, \<lparr>s_in = rest, s_out = w, s_writes = k\<rparr>)"
  using assms(1)
proof (cases rule: encode_address_cases)
  case (1 os)
  have "(os @ put_u16 p) ! 4 = put_u16 p ! 0" "(os @ put_u16 p) ! 5 = put_u16 p ! Suc 0"
    using 1 by (simp_all add: nth_append)
  with 1 read_exact_append [of "os @ put_u16 p" 6] show ?thesis
    by (simp add: read_address_def from_be_two)
next
  case (2 os)
  have "(os @ put_u16 p) ! 16 = put_u16 p ! 0" "(os @ put_u16 p) ! 17 = put_u16 p ! Suc 0"
    using 2 by (simp_all add: nth_append)
  with 2 read_exact_append [of "os @ put_u16 p" 18] show ?thesis
    by (simp add: read_address_def from_be_two socks_consts)
next
  case 3
  then have n: "unat (word_of_nat (length h) :: u8) = length h" by simp
  with 3 assms read_exact_append [of "[word_of_nat (length h)]" 1 "h @ put_u16 p @ rest"]
    read_exact_append [of h "length h" "put_u16 p @ rest"] read_exact_append [of "put_u16 p" 2 rest]
  show ?thesis by (simp add: read_address_def be_simps socks_consts)
qed

subsection \<open>Lemmas: what a handshake writes\<close>

lemma andthen_read_rule:
  assumes "\<And>e s'. s_out s' = s_out s \<Longrightarrow> Q (Inl e, s')" and "\<And>v s'. s_out s' = s_out s \<Longrightarrow> Q (k v s')"
  shows "Q (andthen (read_exact n s) k)"
  using assms by (simp add: andthen_def read_exact_def)

lemma andthen_write_rule:
  assumes "Q (Inl WriteFailed, s)" and "\<And>s'. s_out s' = s_out s @ bs \<Longrightarrow> Q (k () s')"
  shows "Q (andthen (write_all bs s) k)"
  using assms by (simp add: andthen_def write_all_def split: nat.splits)

lemma read_address_out: "s_out (snd (read_address t s)) = s_out s"
  by (simp add: read_address_def read_exact_def andthen_def)

lemma andthen_addr_rule:
  assumes "\<And>e s'. s_out s' = s_out s \<Longrightarrow> Q (Inl e, s')" and "\<And>v s'. s_out s' = s_out s \<Longrightarrow> Q (k v s')"
  shows "Q (andthen (read_address t s) k)"
  using assms read_address_out [of t s]
  by (cases "read_address t s") (auto simp: andthen_def split: sum.splits)

lemma if_rule: "(b \<Longrightarrow> Q x) \<Longrightarrow> (\<not> b \<Longrightarrow> Q y) \<Longrightarrow> Q (if b then x else y)"
  by simp

subsection \<open>Properties\<close>

text \<open>
  C25. UDP datagrams survive the tunnel: for a non-empty host, whatever \<open>encode_udp_datagram\<close>
  produces is decoded to the same target and the same data.  An IP literal comes back in canonical
  spelling, which encodes to the same bytes again.
\<close>

theorem udp_datagram_roundtrip:
  assumes "encode_udp_datagram t dat = Inr w" and "utf8_valid (ta_address t)" and "ta_address t \<noteq> []"
  shows "decode_udp_datagram w = Inr (canon_target t, dat) \<and> encode_udp_datagram (canon_target t) dat = Inr w"
  using decode_encoded_udp [OF assms(1)] assms
  by (simp add: encode_udp_datagram_def canon_target_def encode_address_canon)

theorem udp_datagram_roundtrip_witness:
  "decode_udp_datagram [0, 0, 0, 3, 1, 0x7A, 0, 53, 7] = Inr (\<lparr>ta_address = [0x7A], ta_port = 53\<rparr>, [7])"
proof -
  let ?t = "\<lparr>ta_address = [0x7A], ta_port = 53\<rparr>"
  have p: "parse_ipv4 [0x7A] = None" "parse_ipv6 [0x7A] = None"
    by (simp_all add: parse_name digit_value_def)
  then have "encode_udp_datagram ?t [7] = Inr [0, 0, 0, 3, 1, 0x7A, 0, 53, 7]"
    by (simp add: encode_udp_datagram_def encode_address_def socks_consts put_u16_bytes)
  from udp_datagram_roundtrip [OF this] p show ?thesis
    by (simp add: canon_target_def canon_host_def)
qed

text \<open>
  C26. The two ends of the SOCKS5 handshake fit together: for a host the client can encode, the
  bytes \<open>socks5_client_connect\<close> writes are a request that \<open>socks5_server_accept\<close> accepts, as a
  CONNECT to that host and port, and the server's bytes (the method choice and the deferred
  success reply) make the client succeed.
\<close>

theorem socks_handshake_agrees:
  assumes "encode_address h p = Inr a" and "utf8_valid h"
  shows "let reply = [SOCKS_VERSION, REP_SUCCESS, 0, ATYP_IPV4, 0, 0, 0, 0, 0, 0];
             (cr, cs) = socks5_client_connect h p
                          \<lparr>s_in = [SOCKS_VERSION, AUTH_NONE] @ reply, s_out = [], s_writes = 2\<rparr>;
             (sr, ss) = socks5_server_accept relay \<lparr>s_in = s_out cs, s_out = [], s_writes = 1\<rparr>
         in cr = Inr () \<and> s_in cs = [] \<and> s_in ss = []
            \<and> sr = Inr (Connect \<lparr>ta_address = canon_host h, ta_port = p\<rparr>, reply)
            \<and> s_out ss @ reply = [SOCKS_VERSION, AUTH_NONE] @ reply"
proof -
  from encode_address_ne [OF assms(1)] obtain t as where a: "a = t # as" by (cases a) auto
  have "socks5_client_connect h p
      \<lparr>s_in = [SOCKS_VERSION, AUTH_NONE, SOCKS_VERSION, REP_SUCCESS, 0, ATYP_IPV4, 0, 0, 0, 0, 0, 0],
       s_out = [], s_writes = 2\<rparr>
    = (Inr (), \<lparr>s_in = [], s_out = [SOCKS_VERSION, 1, AUTH_NONE, SOCKS_VERSION, CMD_CONNECT, 0] @ a, s_writes = 0\<rparr>)"
    using assms(1)
    by (simp add: socks5_client_connect_def write_all_def read_exact_def drain_address_def numeral_2_eq_2)
  moreover have "socks5_server_accept relay
      \<lparr>s_in = [SOCKS_VERSION, 1, AUTH_NONE, SOCKS_VERSION, CMD_CONNECT, 0] @ a, s_out = [], s_writes = 1\<rparr>
    = (Inr (Connect \<lparr>ta_address = canon_host h, ta_port = p\<rparr>,
            [SOCKS_VERSION, REP_SUCCESS, 0, ATYP_IPV4, 0, 0, 0, 0, 0, 0]),
       \<lparr>s_in = [], s_out = [SOCKS_VERSION, AUTH_NONE], s_writes = 0\<rparr>)"
    using read_encoded_address [OF assms, of "[]"] a
      read_exact_append [of "[SOCKS_VERSION, 1]" 2 "AUTH_NONE # SOCKS_VERSION # CMD_CONNECT # 0 # a"]
      read_exact_append [of "[AUTH_NONE]" 1 "SOCKS_VERSION # CMD_CONNECT # 0 # a"]
      read_exact_append [of "[SOCKS_VERSION, CMD_CONNECT, 0, t]" 4 as]
    by (simp add: socks5_server_accept_def write_all_def)
  ultimately show ?thesis by simp
qed

theorem socks_handshake_agrees_witness:
  "s_out (snd (socks5_server_accept None \<lparr>s_in = s_out (snd (socks5_client_connect [0x7A] 80
     \<lparr>s_in = [5, 0, 5, 0, 0, 1, 0, 0, 0, 0, 0, 0], s_out = [], s_writes = 2\<rparr>)), s_out = [], s_writes = 1\<rparr>))
   = [5, 0]"
proof -
  have "parse_ipv4 [0x7A] = None" "parse_ipv6 [0x7A] = None"
    by (simp_all add: parse_name digit_value_def)
  then have "encode_address [0x7A] 80 = Inr [ATYP_DOMAIN, 1, 0x7A, 0, 80]"
    by (simp add: encode_address_def put_u16_bytes)
  from socks_handshake_agrees [OF this, of None] show ?thesis
    by (simp add: case_prod_beta Let_def socks_consts)
qed

text \<open>
  The server never reports success by itself: whatever the client sends and wherever the
  connection breaks, the handshake writes nothing, a method choice or refusal, or the
  "command not supported" reply; on success it wrote exactly the method choice, and the success
  reply is left to the caller.
\<close>

theorem server_accept_defers_success:
  "case socks5_server_accept relay \<lparr>s_in = inp, s_out = [], s_writes = n\<rparr> of (r, s) \<Rightarrow>
     s_out s \<in> {[], [SOCKS_VERSION, 0xFF], [SOCKS_VERSION, AUTH_NONE],
                [SOCKS_VERSION, AUTH_NONE, SOCKS_VERSION, REP_CMD_NOT_SUPPORTED, 0, ATYP_IPV4, 0, 0, 0, 0, 0, 0]}
     \<and> (\<nexists>v. r = Inr v \<and> s_out s \<noteq> [SOCKS_VERSION, AUTH_NONE])"
proof -
  define post :: "(socks_error + socks5_result \<times> bytes) \<times> stream \<Rightarrow> bool" where
    "post rs \<longleftrightarrow> (case rs of (r, s) \<Rightarrow> s_out s \<in> {[], [SOCKS_VERSION, 0xFF], [SOCKS_VERSION, AUTH_NONE],
       [SOCKS_VERSION, AUTH_NONE, SOCKS_VERSION, REP_CMD_NOT_SUPPORTED, 0, ATYP_IPV4, 0, 0, 0, 0, 0, 0]}
       \<and> (\<nexists>v. r = Inr v \<and> s_out s \<noteq> [SOCKS_VERSION, AUTH_NONE]))" for rs
  note rules = andthen_read_rule [where Q = post] andthen_addr_rule [where Q = post]
    andthen_write_rule [where Q = post] if_rule [where Q = post]
  have "post (socks5_server_accept relay \<lparr>s_in = inp, s_out = [], s_writes = n\<rparr>)"
    unfolding socks5_server_accept_def
    by (intro rules) (auto simp: post_def split: option.splits)
  then show ?thesis by (simp add: post_def)
qed

end
