(* ===== verification/Reassembler.thy ===== *)
theory Reassembler
  imports Egress Socks5
begin

text \<open>
  The reassembler of \<open>src/src/reassembler.rs\<close>: the connection table, frames that arrive before
  their SYN (the pending table with its byte budget), the SYN handshake, the frame handlers, the
  egress reader, and the heartbeat.

  State.  \<open>rs\<close> holds the shared maps of \<open>run_reassembler\<close>.  The \<open>Arc\<close>s of the connections are
  addresses into \<open>rs_vcs\<close>: the table \<open>rs_conns\<close> and the tasks (reader, writer, force-close timer)
  share a connection by its address, and a connection outlives its table entry.  A SYN handler
  that waits for its connect or bind is an entry of \<open>rs_tasks\<close>; its cancel \<open>Notify\<close> is named by
  the key.  \<open>rs_udp_out\<close> collects the datagrams handed to the UDP sockets; the ghost
  field \<open>rs_emitted\<close>, read by no operation, every frame that a link's queue accepted.

  Steps.  Everything between two awaits of a task is one step; \<open>rs_exec\<close> runs one event: a
  frame, the result of a connect or bind, an arm of the reader's or writer's \<open>select!\<close>, a timer,
  the heartbeat, a link that comes or goes.  Interleavings inside such a stretch (two threads
  between two map operations) are not modelled.  Clock readings are arguments.
\<close>

subsection \<open>State\<close>

definition CLOSED_TTL :: nat where "CLOSED_TTL = 60 * 1000"
definition MAX_TUNNEL_LINKS :: nat where "MAX_TUNNEL_LINKS = 64"
definition HANDSHAKING_TTL :: nat where "HANDSHAKING_TTL = 120 * 1000"
definition MAX_CONCURRENT_SYN_HANDSHAKES :: nat where "MAX_CONCURRENT_SYN_HANDSHAKES = 64"
definition TCP_IDLE_TIMEOUT :: nat where "TCP_IDLE_TIMEOUT = 300"
definition UDP_IDLE_TIMEOUT :: nat where "UDP_IDLE_TIMEOUT = 60"
definition MAX_PENDING_FRAMES_PER_CID :: nat where "MAX_PENDING_FRAMES_PER_CID = 256"
definition PENDING_TTL_SECS :: nat where "PENDING_TTL_SECS = 30"

record pending_entry =
  pe_frames :: "frame list"
  pe_since :: instant
  pe_bytes :: nat
  pe_cancelled :: bool
  pe_cancel :: "nat option"

definition new_pending :: "instant \<Rightarrow> pending_entry" where
  "new_pending now = \<lparr>pe_frames = [], pe_since = now, pe_bytes = 0, pe_cancelled = False, pe_cancel = None\<rparr>"

record handshake =
  hs_cid :: u32
  hs_target :: syn_target
  hs_cancel :: notify
  hs_permit :: bool

record rs =
  rs_window :: nat
  rs_chunk_size :: nat
  rs_conns :: "(u32, nat) table"
  rs_vcs :: "vconn list"
  rs_pending :: "(u32, pending_entry) table"
  rs_closed :: "(u32, instant) table"
  rs_handshaking :: "(u32, instant) table"
  rs_pool :: pool
  rs_pending_bytes :: nat
  rs_resets :: u64
  rs_permits :: nat
  rs_tasks :: "(nat, handshake) table"
  rs_next_task :: nat
  rs_timers :: "nat list"
  rs_udp_out :: "(nat \<times> target_addr \<times> bytes) list"
  rs_emitted :: "frame list"

definition rs_init :: "nat \<Rightarrow> nat \<Rightarrow> rs" where
  "rs_init window chunk =
     \<lparr>rs_window = window, rs_chunk_size = chunk, rs_conns = [], rs_vcs = [], rs_pending = [],
      rs_closed = [], rs_handshaking = [], rs_pool = pool_new, rs_pending_bytes = 0, rs_resets = 0,
      rs_permits = MAX_CONCURRENT_SYN_HANDSHAKES, rs_tasks = [], rs_next_task = 0, rs_timers = [],
      rs_udp_out = [], rs_emitted = []\<rparr>"

subsection \<open>Primitive steps\<close>

definition upd_vc :: "nat \<Rightarrow> (vconn \<Rightarrow> vconn) \<Rightarrow> rs \<Rightarrow> rs" where
  "upd_vc a g s = s\<lparr>rs_vcs := (rs_vcs s)[a := g (rs_vcs s ! a)]\<rparr>"

definition send_ctl :: "frame \<Rightarrow> rs \<Rightarrow> rs" where
  "send_ctl f s =
     (let (ok, p) = pool_send f (rs_pool s)
      in s\<lparr>rs_pool := p, rs_emitted := rs_emitted s @ (if ok then [f] else [])\<rparr>)"

definition tombstone :: "instant \<Rightarrow> u32 \<Rightarrow> rs \<Rightarrow> rs" where
  "tombstone now cid s = s\<lparr>rs_closed := tins cid now (rs_closed s)\<rparr>"

definition end_handshaking :: "u32 \<Rightarrow> rs \<Rightarrow> rs" where
  "end_handshaking cid s = s\<lparr>rs_handshaking := tdel cid (rs_handshaking s)\<rparr>"

definition count_reset :: "rs \<Rightarrow> rs" where
  "count_reset s = s\<lparr>rs_resets := rs_resets s + 1\<rparr>"

text \<open>\<open>conns.remove(&cid)\<close> and, if an entry was there, \<open>signal_teardown\<close>.\<close>

definition remove_conn :: "u32 \<Rightarrow> rs \<Rightarrow> rs" where
  "remove_conn cid s =
     (case tget (rs_conns s) cid of
        None \<Rightarrow> s
      | Some a \<Rightarrow> upd_vc a signal_teardown (s\<lparr>rs_conns := tdel cid (rs_conns s)\<rparr>))"

text \<open>\<open>notify.notify_one()\<close> on the cancel of a SYN handler, if it still runs.\<close>

definition notify_task :: "nat option \<Rightarrow> rs \<Rightarrow> rs" where
  "notify_task c s =
     (case c of
        None \<Rightarrow> s
      | Some i \<Rightarrow>
          (case tget (rs_tasks s) i of
             None \<Rightarrow> s
           | Some h \<Rightarrow> s\<lparr>rs_tasks := tins i (h\<lparr>hs_cancel := notify_one (hs_cancel h)\<rparr>) (rs_tasks s)\<rparr>))"

subsection \<open>The pending table\<close>

definition remove_pending :: "u32 \<Rightarrow> rs \<Rightarrow> pending_entry option \<times> rs" where
  "remove_pending cid s =
     (case tget (rs_pending s) cid of
        None \<Rightarrow> (None, s)
      | Some e \<Rightarrow> (Some e, s\<lparr>rs_pending := tdel cid (rs_pending s),
                             rs_pending_bytes := rs_pending_bytes s - pe_bytes e\<rparr>))"

definition cancel_pending :: "u32 \<Rightarrow> rs \<Rightarrow> rs" where
  "cancel_pending cid s =
     (case tget (rs_pending s) cid of
        None \<Rightarrow> s
      | Some e \<Rightarrow> notify_task (pe_cancel e)
                    (s\<lparr>rs_pending := tins cid (e\<lparr>pe_cancelled := True\<rparr>) (rs_pending s)\<rparr>))"

definition fail_pending_conn :: "instant \<Rightarrow> u32 \<Rightarrow> rs \<Rightarrow> rs" where
  "fail_pending_conn now cid s = send_ctl (frame_rst cid) (tombstone now cid (cancel_pending cid s))"

text \<open>A pending entry that was dropped: its frames are gone, so its connection fails.\<close>

definition drop_pending :: "instant \<Rightarrow> u32 \<times> pending_entry \<Rightarrow> rs \<Rightarrow> rs" where
  "drop_pending now ke s =
     send_ctl (frame_rst (fst ke)) (tombstone now (fst ke) (notify_task (pe_cancel (snd ke)) s))"

definition sweep_stale_pending :: "instant \<Rightarrow> nat \<Rightarrow> rs \<Rightarrow> rs" where
  "sweep_stale_pending now ttl_secs s =
     (let keep = \<lambda>ke. (now - pe_since (snd ke)) div 1000 < ttl_secs;
          swept = filter (\<lambda>ke. \<not> keep ke) (rs_pending s);
          s1 = s\<lparr>rs_pending := filter keep (rs_pending s),
                 rs_pending_bytes := rs_pending_bytes s - tsum pe_bytes swept\<rparr>
      in fold (drop_pending now) swept s1)"

fun oldest :: "(u32, pending_entry) table \<Rightarrow> (u32 \<times> pending_entry) option" where
  "oldest [] = None"
| "oldest (x # xs) =
     (case oldest xs of
        None \<Rightarrow> Some x
      | Some y \<Rightarrow> if pe_since (snd x) \<le> pe_since (snd y) then Some x else Some y)"

lemma oldest_member: "oldest t = Some x \<Longrightarrow> x \<in> set t"
  by (induction t) (auto split: option.splits if_splits)

lemma oldest_filter_delete_less:
  assumes "oldest (filter P t) = Some ke"
  shows "length (tdel (fst ke) t) < length t"
proof -
  have "ke \<in> set t" using oldest_member [OF assms] by simp
  then have "fst ke \<in> fst ` set t" by (rule imageI)
  then obtain v where "tget t (fst ke) = Some v" by (metis map_of_eq_None_iff option.exhaust)
  then show ?thesis by (rule length_delete_less)
qed

lemma drop_pending_frame [simp]:
  "rs_pending (drop_pending now ke s) = rs_pending s"
  "rs_pending_bytes (drop_pending now ke s) = rs_pending_bytes s"
  by (auto simp: drop_pending_def send_ctl_def tombstone_def notify_task_def split: option.splits prod.splits)

text \<open>
  The compare-and-swap of the source succeeds at once when no other thread runs in between.
\<close>

function try_reserve_pending :: "instant \<Rightarrow> u32 option \<Rightarrow> nat \<Rightarrow> rs \<Rightarrow> bool \<times> rs" where
  "try_reserve_pending now exclude need s =
     (if rs_pending_bytes s + need \<le> MAX_PENDING_BYTES
      then (True, s\<lparr>rs_pending_bytes := rs_pending_bytes s + need\<rparr>)
      else if rs_pending s = [] then (False, s)
      else case oldest (filter (\<lambda>ke. Some (fst ke) \<noteq> exclude) (rs_pending s)) of
             None \<Rightarrow> (False, s)
           | Some ke \<Rightarrow>
               try_reserve_pending now exclude need
                 (drop_pending now ke
                    (s\<lparr>rs_pending := tdel (fst ke) (rs_pending s),
                       rs_pending_bytes := rs_pending_bytes s - pe_bytes (snd ke)\<rparr>)))"
  by pat_completeness auto

termination
  by (relation "measure (\<lambda>(now, ex, need, s). length (rs_pending s))")
     (auto simp: oldest_filter_delete_less)

declare try_reserve_pending.simps [simp del]


subsection \<open>Established connections\<close>

definition finish_if_done :: "instant \<Rightarrow> nat \<Rightarrow> u32 \<Rightarrow> rs \<Rightarrow> rs" where
  "finish_if_done now a cid s =
     (if is_done (rs_vcs s ! a)
      then (tombstone now cid s)\<lparr>rs_conns := tdel cid (rs_conns s)\<rparr>
      else s)"

definition half_close_conn :: "nat \<Rightarrow> u64 \<Rightarrow> rs \<Rightarrow> rs" where
  "half_close_conn a fin_seq s =
     (let (timer, vc) = start_half_close fin_seq (rs_vcs s ! a); s1 = upd_vc a (\<lambda>_. vc) s
      in if timer then s1\<lparr>rs_timers := a # rs_timers s1\<rparr> else s1)"

text \<open>\<open>forward_udp_datagram\<close>: what is handed to the connection's socket pair.\<close>

definition forward_udp_datagram :: "nat \<Rightarrow> bytes \<Rightarrow> rs \<Rightarrow> rs" where
  "forward_udp_datagram a pl s =
     (case decode_udp_datagram pl of
        Inl e \<Rightarrow> s
      | Inr (target, dat) \<Rightarrow>
          if \<not> vc_is_udp (rs_vcs s ! a) then s
          else s\<lparr>rs_udp_out := rs_udp_out s @ [(a, target, dat)]\<rparr>)"

text \<open>
  \<open>bind_udp_pair\<close>: the IPv4 socket must bind; the flag says whether there is an IPv6 socket too.
\<close>

definition bind_udp_pair :: "bool \<Rightarrow> bool \<Rightarrow> bool option" where
  "bind_udp_pair v4_binds v6_binds = (if v4_binds then Some v6_binds else None)"

text \<open>What \<open>timeout(.., lookup_host(..))\<close> gives, and \<open>resolve_target\<close> on it.\<close>

datatype lookup_result = LookupTimeout | LookupError | LookupAddrs "socket_addr list"

definition resolve_target :: "lookup_result \<Rightarrow> ip_addr option" where
  "resolve_target r = (case r of LookupAddrs (sa # _) \<Rightarrow> Some (sa_ip sa) | _ \<Rightarrow> None)"

text \<open>
  \<open>UdpPair::send_to\<close>: which socket sends to which address.  \<open>lookup\<close> is the resolver of the system.
\<close>

datatype udp_sock = SockV4 | SockV6

definition udp_send_to :: "(bytes \<Rightarrow> u16 \<Rightarrow> lookup_result) \<Rightarrow> bool \<Rightarrow> bytes \<Rightarrow> u16
    \<Rightarrow> (udp_sock \<times> socket_addr) option" where
  "udp_send_to lookup v6 host pt =
     (case (case parse_ip host of Some ip \<Rightarrow> Some ip | None \<Rightarrow> resolve_target (lookup host pt)) of
        None \<Rightarrow> None
      | Some ip \<Rightarrow>
          (case ip of
             V4 os \<Rightarrow> Some (SockV4, \<lparr>sa_ip = ip, sa_port = pt\<rparr>)
           | V6 gs \<Rightarrow> if v6 then Some (SockV6, \<lparr>sa_ip = ip, sa_port = pt\<rparr>) else None))"

definition note_recv :: "instant \<Rightarrow> nat \<Rightarrow> vconn \<Rightarrow> vconn" where
  "note_recv now n vc = vc\<lparr>vc_bytes_recv := vc_bytes_recv vc + word_of_nat n,
     vc_frames_recv := vc_frames_recv vc + 1, vc_last_active := now\<rparr>"

definition note_sent :: "instant \<Rightarrow> nat \<Rightarrow> vconn \<Rightarrow> vconn" where
  "note_sent now n vc = vc\<lparr>vc_bytes_sent := vc_bytes_sent vc + word_of_nat n,
     vc_frames_sent := vc_frames_sent vc + 1, vc_last_active := now\<rparr>"

text \<open>The reset of a broken connection on the DATA path.\<close>

definition reset_data_conn :: "instant \<Rightarrow> u32 \<Rightarrow> rs \<Rightarrow> rs" where
  "reset_data_conn now cid s =
     count_reset (send_ctl (frame_rst cid) (remove_conn cid (tombstone now cid s)))"

definition data_established :: "instant \<Rightarrow> nat \<Rightarrow> frame \<Rightarrow> rs \<Rightarrow> rs" where
  "data_established now a f s =
     (if vc_is_udp (rs_vcs s ! a) then
        upd_vc a (note_recv now (length (payload f))) (forward_udp_datagram a (payload f) s)
      else
        let (r, vc) = deliver (seq f) (payload f) (rs_vcs s ! a); s1 = upd_vc a (\<lambda>_. vc) s
        in (case r of
             Rejected \<Rightarrow> s1
           | Overflowed \<Rightarrow> reset_data_conn now (conn_id f) s1
           | EgressFailed \<Rightarrow> reset_data_conn now (conn_id f) s1
           | Panicked \<Rightarrow> s1
           | Delivered \<Rightarrow>
               let s2 = upd_vc a (note_recv now (length (payload f))) s1
               in if vc_fin_received (rs_vcs s2 ! a)
                  then finish_if_done now a (conn_id f) (upd_vc a (close_write_half False) s2)
                  else s2))"

subsection \<open>DATA, FIN and RST frames\<close>

text \<open>
  DATA for a cid that is not in the table.  The branch in which the entry vanished between the
  two lookups redelivers through the established path if the connection appeared meanwhile.
\<close>

definition data_unknown :: "instant \<Rightarrow> frame \<Rightarrow> rs \<Rightarrow> rs" where
  "data_unknown now f s =
     (let cid = conn_id f; plen = length (payload f) in
      if thas (rs_closed s) cid then send_ctl (frame_rst cid) s
      else if thas (rs_pending s) cid then
        (case try_reserve_pending now (Some cid) plen s of
           (False, s1) \<Rightarrow> fail_pending_conn now cid s1
         | (True, s1) \<Rightarrow>
             (case tget (rs_pending s1) cid of
                Some e \<Rightarrow>
                  if length (pe_frames e) < MAX_PENDING_FRAMES_PER_CID
                  then s1\<lparr>rs_pending := tins cid (e\<lparr>pe_frames := pe_frames e @ [f],
                                                   pe_bytes := pe_bytes e + plen\<rparr>) (rs_pending s1)\<rparr>
                  else fail_pending_conn now cid (s1\<lparr>rs_pending_bytes := rs_pending_bytes s1 - plen\<rparr>)
              | None \<Rightarrow>
                  let s2 = s1\<lparr>rs_pending_bytes := rs_pending_bytes s1 - plen\<rparr>
                  in (case tget (rs_conns s2) cid of
                        Some a \<Rightarrow> data_established now a f s2 | None \<Rightarrow> s2)))
      else if length (rs_pending s) < MAX_PENDING_CIDS then
        (case try_reserve_pending now None plen s of
           (False, s1) \<Rightarrow> fail_pending_conn now cid s1
         | (True, s1) \<Rightarrow>
             s1\<lparr>rs_pending := tins cid ((new_pending now)\<lparr>pe_frames := [f], pe_bytes := plen\<rparr>)
                                (rs_pending s1)\<rparr>)
      else fail_pending_conn now cid s)"

definition handle_data :: "instant \<Rightarrow> frame \<Rightarrow> rs \<Rightarrow> rs" where
  "handle_data now f s =
     (case tget (rs_conns s) (conn_id f) of
        Some a \<Rightarrow> data_established now a f s
      | None \<Rightarrow> data_unknown now f s)"

definition handle_fin :: "instant \<Rightarrow> frame \<Rightarrow> rs \<Rightarrow> rs" where
  "handle_fin now f s =
     (let cid = conn_id f in
      case tget (rs_conns s) cid of
        Some a \<Rightarrow>
          if vc_is_udp (rs_vcs s ! a) then s
          else finish_if_done now a cid (half_close_conn a (seq f) s)
      | None \<Rightarrow>
          if thas (rs_closed s) cid then s
          else (case tget (rs_pending s) cid of
                  Some e \<Rightarrow>
                    if length (pe_frames e) < MAX_PENDING_FRAMES_PER_CID
                    then s\<lparr>rs_pending := tins cid (e\<lparr>pe_frames := pe_frames e @ [f]\<rparr>) (rs_pending s)\<rparr>
                    else fail_pending_conn now cid s
                | None \<Rightarrow>
                    if length (rs_pending s) < MAX_PENDING_CIDS
                    then s\<lparr>rs_pending := tins cid ((new_pending now)\<lparr>pe_frames := [f]\<rparr>) (rs_pending s)\<rparr>
                    else fail_pending_conn now cid s))"

definition handle_rst :: "instant \<Rightarrow> frame \<Rightarrow> rs \<Rightarrow> rs" where
  "handle_rst now f s =
     (let cid = conn_id f in
      if thas (rs_conns s) cid then count_reset (remove_conn cid (tombstone now cid s))
      else tombstone now cid (cancel_pending cid s))"

subsection \<open>SYN frames\<close>

definition syn_fail :: "instant \<Rightarrow> u32 \<Rightarrow> rs \<Rightarrow> rs" where
  "syn_fail now cid s =
     send_ctl (frame_rst cid) (tombstone now cid (end_handshaking cid (snd (remove_pending cid s))))"

definition syn_abort :: "u32 \<Rightarrow> rs \<Rightarrow> rs" where
  "syn_abort cid s = end_handshaking cid (snd (remove_pending cid s))"

text \<open>
  Up to the first await.  A handler that goes on to connect or bind is recorded as a task;
  \<open>permit\<close> tells whether it runs on its own task with a handshake permit.
\<close>

definition syn_begin :: "instant \<Rightarrow> bool \<Rightarrow> frame \<Rightarrow> rs \<Rightarrow> rs" where
  "syn_begin now permit f s =
     (let cid = conn_id f in
      if thas (rs_conns s) cid then s
      else
        let s1 = s\<lparr>rs_handshaking := tins cid now (rs_handshaking s)\<rparr> in
        if thas (rs_handshaking s) cid then s1
        else
          let i = rs_next_task s1;
              e = (case tget (rs_pending s1) cid of Some e \<Rightarrow> e | None \<Rightarrow> new_pending now);
              s2 = s1\<lparr>rs_next_task := Suc i,
                      rs_pending := tins cid (e\<lparr>pe_cancel := Some i\<rparr>) (rs_pending s1)\<rparr>
          in if thas (rs_closed s2) cid then syn_abort cid s2
             else (case syn_decode (payload f) of
                     Inl err \<Rightarrow> syn_fail now cid s2
                   | Inr t \<Rightarrow>
                       if proto t \<noteq> PROTO_TCP \<and> proto t \<noteq> PROTO_UDP then syn_fail now cid s2
                       else s2\<lparr>rs_tasks := tins i \<lparr>hs_cid = cid, hs_target = t, hs_cancel = False,
                                                   hs_permit = permit\<rparr> (rs_tasks s2),
                               rs_permits := rs_permits s2 - (if permit then 1 else 0)\<rparr>))"

definition end_task :: "nat \<Rightarrow> handshake \<Rightarrow> rs \<Rightarrow> rs" where
  "end_task i h s = s\<lparr>rs_tasks := tdel i (rs_tasks s),
                      rs_permits := rs_permits s + (if hs_permit h then 1 else 0)\<rparr>"

text \<open>\<open>conns.insert(cid, vconn)\<close> with a fresh connection.\<close>

definition insert_conn :: "u32 \<Rightarrow> vconn \<Rightarrow> rs \<Rightarrow> rs" where
  "insert_conn cid vc s =
     s\<lparr>rs_vcs := rs_vcs s @ [vc], rs_conns := tins cid (length (rs_vcs s)) (rs_conns s)\<rparr>"

text \<open>The tail of a handshake whose pending entry was cancelled meanwhile.\<close>

definition syn_cancelled :: "instant \<Rightarrow> u32 \<Rightarrow> rs \<Rightarrow> rs" where
  "syn_cancelled now cid s = end_handshaking cid (tombstone now cid (remove_conn cid s))"

text \<open>After \<open>bind_udp_pair\<close>: failed, or bound with or without an IPv6 socket.\<close>

definition syn_udp_bound :: "instant \<Rightarrow> u32 \<Rightarrow> bool option \<Rightarrow> rs \<Rightarrow> rs" where
  "syn_udp_bound now cid bound s =
     (case bound of
        None \<Rightarrow> syn_fail now cid s
      | Some v6 \<Rightarrow>
          let a = length (rs_vcs s);
              s1 = insert_conn cid (new_udp_vconn cid (rs_window s) v6 now) s
          in (case remove_pending cid s1 of
               (None, s2) \<Rightarrow> end_handshaking cid s2
             | (Some e, s2) \<Rightarrow>
                 if pe_cancelled e then syn_cancelled now cid s2
                 else end_handshaking cid
                        (fold (\<lambda>f. forward_udp_datagram a (payload f))
                              (filter (\<lambda>f. has_flag f FLAG_DATA) (pe_frames e)) s2)))"

text \<open>Replaying the frames that came before the connection was made.\<close>

datatype replay_end = ReplayOk | ReplayReset | ReplayPanic

fun replay :: "frame list \<Rightarrow> u64 option \<Rightarrow> vconn \<Rightarrow> replay_end \<times> u64 option \<times> vconn" where
  "replay [] fin_seq vc = (ReplayOk, fin_seq, vc)"
| "replay (f # fs) fin_seq vc =
     (if has_flag f FLAG_DATA then
        (case deliver (seq f) (payload f) vc of
           (Rejected, vc') \<Rightarrow> replay fs fin_seq vc'
         | (Delivered, vc') \<Rightarrow>
             replay fs fin_seq (if vc_fin_received vc' then close_write_half False vc' else vc')
         | (Panicked, vc') \<Rightarrow> (ReplayPanic, fin_seq, vc')
         | (_, vc') \<Rightarrow> (ReplayReset, fin_seq, vc'))
      else if has_flag f FLAG_FIN then replay fs (Some (seq f)) vc
      else replay fs fin_seq vc)"

definition syn_drain :: "instant \<Rightarrow> u32 \<Rightarrow> nat \<Rightarrow> frame list \<Rightarrow> rs \<Rightarrow> rs" where
  "syn_drain now cid a fs s =
     (let (res, fin_seq, vc) = replay fs None (rs_vcs s ! a); s1 = upd_vc a (\<lambda>_. vc) s
      in (case res of
           ReplayPanic \<Rightarrow> s1
         | ReplayReset \<Rightarrow>
             end_handshaking cid (count_reset (send_ctl (frame_rst cid) (tombstone now cid (remove_conn cid s1))))
         | ReplayOk \<Rightarrow>
             (case fin_seq of
                None \<Rightarrow> end_handshaking cid s1
              | Some sq \<Rightarrow> end_handshaking cid (finish_if_done now a cid (half_close_conn a sq s1)))))"

text \<open>After the connect raced the cancel.\<close>

datatype connect_result = ConnOk | ConnErr | ConnTimeout | ConnCancelled

definition syn_connected :: "instant \<Rightarrow> u32 \<Rightarrow> connect_result \<Rightarrow> rs \<Rightarrow> rs" where
  "syn_connected now cid r s =
     (case r of
        ConnErr \<Rightarrow> syn_fail now cid s
      | ConnTimeout \<Rightarrow> syn_fail now cid s
      | ConnCancelled \<Rightarrow> tombstone now cid (syn_abort cid s)
      | ConnOk \<Rightarrow>
          if thas (rs_closed s) cid then syn_abort cid s
          else
            let a = length (rs_vcs s);
                s1 = insert_conn cid (new_tcp_vconn cid (rs_window s) now) s
            in (case remove_pending cid s1 of
                 (None, s2) \<Rightarrow> end_handshaking cid s2
               | (Some e, s2) \<Rightarrow>
                   if pe_cancelled e then syn_cancelled now cid s2
                   else syn_drain now cid a (pe_frames e) s2))"

text \<open>\<open>dispatch_frame\<close> and \<open>handle_frame\<close>: the flags are tested in the order of the source.\<close>

definition handle_frame :: "instant \<Rightarrow> bool \<Rightarrow> frame \<Rightarrow> rs \<Rightarrow> rs" where
  "handle_frame now permit f s =
     (if has_flag f FLAG_SYN then syn_begin now permit f s
      else if has_flag f FLAG_DATA then handle_data now f s
      else if has_flag f FLAG_FIN then handle_fin now f s
      else if has_flag f FLAG_RST then handle_rst now f s
      else s)"

definition dispatch_frame :: "instant \<Rightarrow> frame \<Rightarrow> rs \<Rightarrow> rs" where
  "dispatch_frame now f s = handle_frame now (has_flag f FLAG_SYN \<and> 0 < rs_permits s) f s"

subsection \<open>The egress reader\<close>

text \<open>
  \<open>read_from_egress\<close>.  \<open>RData bs True\<close>: a read returned \<open>bs\<close> and the DATA frame was taken by a
  tunnel (the burst of \<open>send_async\<close> that ends the wait); \<open>RData bs False\<close>: the wait timed out.
  \<open>REof\<close>: end of stream or a read error, then the FIN was taken by a tunnel or not.  \<open>RCancel\<close>:
  a teardown, while reading or while waiting to send a DATA frame.
\<close>

datatype reader_event = RCancel | RData bytes bool | REof bool

definition reader_step :: "(real \<Rightarrow> real) \<Rightarrow> instant \<Rightarrow> nat \<Rightarrow> reader_event \<Rightarrow> rs \<Rightarrow> rs" where
  "reader_step rnd now a ev s =
     (let vc = rs_vcs s ! a; cid = vc_cid vc in
      if vc_is_udp vc \<or> vc_rd_done vc then s
      else (case ev of
        RCancel \<Rightarrow>
          if vc_cancel vc then upd_vc a (\<lambda>vc. vc\<lparr>vc_cancel := False, vc_rd_done := True\<rparr>) s else s
      | RData bs ok \<Rightarrow>
          if bs = [] \<or> length bs > rs_chunk_size s then s
          else if ok then
            (case send_async_burst rnd (frame_data cid (vc_rd_seq vc) bs) [] (rs_pool s) of
               (Sent, p) \<Rightarrow>
                 upd_vc a (\<lambda>vc. (note_sent now (length bs) vc)
                                  \<lparr>vc_rd_seq := vc_rd_seq vc + 1, vc_sent := vc_sent vc @ [bs]\<rparr>)
                        (s\<lparr>rs_pool := p, rs_emitted := rs_emitted s @ [frame_data cid (vc_rd_seq vc) bs]\<rparr>)
             | _ \<Rightarrow> s)
          else upd_vc a (\<lambda>vc. vc\<lparr>vc_rd_done := True\<rparr>)
                 (send_ctl (frame_rst cid) (remove_conn cid (tombstone now cid s)))
      | REof ok \<Rightarrow>
          if ok then
            (case send_async_burst rnd (frame_fin cid (vc_rd_seq vc)) [] (rs_pool s) of
               (Sent, p) \<Rightarrow>
                 finish_if_done now a cid
                   (upd_vc a (\<lambda>vc. vc\<lparr>vc_rd_done := True, vc_egress_eof := True, vc_fin_sent := True\<rparr>)
                           (s\<lparr>rs_pool := p, rs_emitted := rs_emitted s @ [frame_fin cid (vc_rd_seq vc)]\<rparr>))
             | _ \<Rightarrow> s)
          else finish_if_done now a cid
                 (upd_vc a (\<lambda>vc. vc\<lparr>vc_rd_done := True, vc_egress_eof := True\<rparr>)
                         (send_ctl (frame_rst cid) s))))"

text \<open>The response reader of a UDP association.\<close>

datatype udp_event = UCancel | URecvError | URecv socket_addr bytes

definition udp_reader_step :: "instant \<Rightarrow> nat \<Rightarrow> udp_event \<Rightarrow> rs \<Rightarrow> rs" where
  "udp_reader_step now a ev s =
     (let vc = rs_vcs s ! a; cid = vc_cid vc in
      if \<not> vc_is_udp vc \<or> vc_rd_done vc then s
      else (case ev of
        UCancel \<Rightarrow>
          if vc_cancel vc then upd_vc a (\<lambda>vc. vc\<lparr>vc_cancel := False, vc_rd_done := True\<rparr>) s else s
      | URecvError \<Rightarrow> upd_vc a (\<lambda>vc. vc\<lparr>vc_rd_done := True\<rparr>) s
      | URecv src dat \<Rightarrow>
          (case encode_udp_datagram \<lparr>ta_address = normalize_ip (sa_ip src), ta_port = sa_port src\<rparr> dat of
             Inl e \<Rightarrow> s
           | Inr dgram \<Rightarrow>
               if length dgram > MAX_PAYLOAD then s
               else (case pool_send (frame_data cid (vc_rd_seq vc) dgram) (rs_pool s) of
                       (True, p) \<Rightarrow>
                         let s1 = upd_vc a (\<lambda>vc. vc\<lparr>vc_rd_seq := vc_rd_seq vc + 1,
                                                    vc_sent := vc_sent vc @ [dgram]\<rparr>)
                                    (s\<lparr>rs_pool := p,
                                       rs_emitted := rs_emitted s @ [frame_data cid (vc_rd_seq vc) dgram]\<rparr>)
                         in (case tget (rs_conns s1) cid of
                               Some b \<Rightarrow> upd_vc b (note_sent now (length dgram)) s1 | None \<Rightarrow> s1)
                     | (False, p) \<Rightarrow> s\<lparr>rs_pool := p\<rparr>))))"

subsection \<open>Heartbeat\<close>

definition idle_conn :: "instant \<Rightarrow> vconn \<Rightarrow> bool" where
  "idle_conn now vc \<longleftrightarrow>
     (now - vc_last_active vc) div 1000
       > (if vc_is_udp vc then UDP_IDLE_TIMEOUT else TCP_IDLE_TIMEOUT)"

definition sweep_conn :: "instant \<Rightarrow> u32 \<times> nat \<Rightarrow> rs \<Rightarrow> rs" where
  "sweep_conn now ca s =
     (if idle_conn now (rs_vcs s ! snd ca)
      then send_ctl (frame_rst (fst ca)) (remove_conn (fst ca) (tombstone now (fst ca) s))
      else s)"

definition heartbeat :: "instant \<Rightarrow> u64 \<Rightarrow> rs \<Rightarrow> rs" where
  "heartbeat now now_ms s =
     (let s1 = s\<lparr>rs_pool := snd (sweep_idle now_ms LINK_IDLE_TIMEOUT (compact (rs_pool s)))\<rparr>;
          s2 = fold (sweep_conn now) (rs_conns s1) s1;
          s3 = s2\<lparr>rs_closed := filter (\<lambda>kt. now - snd kt < CLOSED_TTL) (rs_closed s2),
                  rs_handshaking := filter (\<lambda>kt. now - snd kt < HANDSHAKING_TTL) (rs_handshaking s2)\<rparr>;
          s4 = sweep_stale_pending now PENDING_TTL_SECS s3
      in s4\<lparr>rs_resets := 0\<rparr>)"

subsection \<open>Links\<close>

text \<open>A tunnel connection is accepted unless the live links are at the cap.\<close>

definition accept_link :: "nat \<Rightarrow> u64 \<Rightarrow> rs \<Rightarrow> rs" where
  "accept_link i now_ms s =
     (if alive_count (rs_pool s) \<ge> MAX_TUNNEL_LINKS then s
      else s\<lparr>rs_pool := pool_add (rs_pool s) (new_link i now_ms)\<rparr>)"

text \<open>The frames a dead link reported: control frames again, a reset for each DATA frame.\<close>

definition resend_lost :: "frame \<Rightarrow> rs \<Rightarrow> rs" where
  "resend_lost f s =
     (if has_flag f FLAG_SYN \<or> has_flag f FLAG_FIN \<or> has_flag f FLAG_RST then send_ctl f s
      else send_ctl (frame_rst (conn_id f)) s)"

definition link_lost :: "nat \<Rightarrow> frame list \<Rightarrow> rs \<Rightarrow> rs" where
  "link_lost i lost s = fold resend_lost lost (s\<lparr>rs_pool := upd_link i (\<lambda>l. l\<lparr>lk_lost := []\<rparr>) (rs_pool s)\<rparr>)"

text \<open>One frame from link \<open>i\<close>: its handling, then the counters and the clock of the link.\<close>

definition read_link_frame :: "nat \<Rightarrow> instant \<Rightarrow> u64 \<Rightarrow> frame \<Rightarrow> rs \<Rightarrow> rs" where
  "read_link_frame i now now_ms f s =
     (let s1 = dispatch_frame now f s
      in s1\<lparr>rs_pool := upd_link i (\<lambda>l. l\<lparr>lk_bytes_recv := lk_bytes_recv l + word_of_nat (length (payload f)),
                                        lk_frames_recv := lk_frames_recv l + 1,
                                        lk_last_active := now_ms\<rparr>) (rs_pool s1)\<rparr>)"

definition link_ended :: "nat \<Rightarrow> rs \<Rightarrow> rs" where
  "link_ended i s =
     s\<lparr>rs_pool := upd_link i (\<lambda>l. l\<lparr>lk_alive := False, lk_stop := notify_one (lk_stop l)\<rparr>) (rs_pool s)\<rparr>"

subsection \<open>The whole reassembler\<close>

text \<open>
  Events.  \<open>EvBound\<close> and \<open>EvConnect\<close> resume the handshake task with the given key; a connect can
  only be cancelled when its notify has a permit.  \<open>EvPool\<close> stands for what the link tasks do to
  the pool (drain tasks, counters).
\<close>

datatype rs_event =
    EvFrame nat instant u64 frame
  | EvBound instant nat "bool option"
  | EvConnect instant nat connect_result
  | EvReader "real \<Rightarrow> real" instant nat reader_event
  | EvUdpReader instant nat udp_event
  | EvWriter nat writer_event
  | EvForce nat
  | EvHeartbeat instant u64
  | EvAccept nat u64
  | EvLost nat "frame list"
  | EvLinkEnd nat
  | EvPool pool

definition rs_exec :: "rs_event \<Rightarrow> rs \<Rightarrow> rs" where
  "rs_exec ev s =
     (case ev of
        EvFrame i now now_ms f \<Rightarrow> read_link_frame i now now_ms f s
      | EvBound now i bound \<Rightarrow>
          (case tget (rs_tasks s) i of
             Some h \<Rightarrow> if proto (hs_target h) = PROTO_UDP
                       then syn_udp_bound now (hs_cid h) bound (end_task i h s) else s
           | None \<Rightarrow> s)
      | EvConnect now i r \<Rightarrow>
          (case tget (rs_tasks s) i of
             Some h \<Rightarrow> if proto (hs_target h) = PROTO_TCP \<and> (r = ConnCancelled \<longrightarrow> hs_cancel h)
                       then syn_connected now (hs_cid h) r (end_task i h s) else s
           | None \<Rightarrow> s)
      | EvReader rnd now a e \<Rightarrow> if a < length (rs_vcs s) then reader_step rnd now a e s else s
      | EvUdpReader now a e \<Rightarrow> if a < length (rs_vcs s) then udp_reader_step now a e s else s
      | EvWriter a e \<Rightarrow>
          if a < length (rs_vcs s)
          then upd_vc a (writer_step (a \<notin> snd ` set (rs_conns s)) e) s else s
      | EvForce a \<Rightarrow>
          if a \<in> set (rs_timers s)
          then upd_vc a (close_write_half True) (s\<lparr>rs_timers := remove1 a (rs_timers s)\<rparr>) else s
      | EvHeartbeat now now_ms \<Rightarrow> heartbeat now now_ms s
      | EvAccept i now_ms \<Rightarrow> accept_link i now_ms s
      | EvLost i lost \<Rightarrow> link_lost i lost s
      | EvLinkEnd i \<Rightarrow> link_ended i s
      | EvPool p \<Rightarrow> s\<lparr>rs_pool := p\<rparr>)"

end
