(* ===== verification/ReassemblerInv.thy ===== *)
theory ReassemblerInv
  imports Reassembler
begin

text \<open>
  Invariants of the reassembler's steps.  \<open>pend_inv\<close>: the byte budget of the pending table is
  exact and never exceeded, per-connection and per-table caps hold, and only DATA and FIN frames
  of the right connection wait there.  \<open>conn_inv\<close>: every connection, live or torn down, has
  enqueued and written a prefix of the stream its splitter sent (\<open>conn_ok\<close>), and those still in
  the table are in step with their reorder buffer (\<open>conn_live\<close>).

  Both are proved for every event.
\<close>

named_theorems rs_fields

lemma send_ctl_fields [simp, rs_fields]:
  "rs_conns (send_ctl f s) = rs_conns s" "rs_vcs (send_ctl f s) = rs_vcs s"
  "rs_pending (send_ctl f s) = rs_pending s" "rs_pending_bytes (send_ctl f s) = rs_pending_bytes s"
  "rs_timers (send_ctl f s) = rs_timers s" "rs_closed (send_ctl f s) = rs_closed s"
  "rs_handshaking (send_ctl f s) = rs_handshaking s" "rs_window (send_ctl f s) = rs_window s"
  "rs_tasks (send_ctl f s) = rs_tasks s" "rs_next_task (send_ctl f s) = rs_next_task s"
  by (simp_all add: send_ctl_def split: prod.split)

lemma tombstone_fields [simp, rs_fields]:
  "rs_conns (tombstone n c s) = rs_conns s" "rs_vcs (tombstone n c s) = rs_vcs s"
  "rs_pending (tombstone n c s) = rs_pending s" "rs_pending_bytes (tombstone n c s) = rs_pending_bytes s"
  "rs_timers (tombstone n c s) = rs_timers s" "rs_handshaking (tombstone n c s) = rs_handshaking s"
  "rs_window (tombstone n c s) = rs_window s" "rs_closed (tombstone n c s) = tins c n (rs_closed s)"
  "rs_tasks (tombstone n c s) = rs_tasks s" "rs_next_task (tombstone n c s) = rs_next_task s"
  by (simp_all add: tombstone_def)

lemma end_handshaking_fields [simp, rs_fields]:
  "rs_conns (end_handshaking c s) = rs_conns s" "rs_vcs (end_handshaking c s) = rs_vcs s"
  "rs_pending (end_handshaking c s) = rs_pending s" "rs_pending_bytes (end_handshaking c s) = rs_pending_bytes s"
  "rs_timers (end_handshaking c s) = rs_timers s" "rs_closed (end_handshaking c s) = rs_closed s"
  by (simp_all add: end_handshaking_def)

lemma count_reset_fields [simp, rs_fields]:
  "rs_conns (count_reset s) = rs_conns s" "rs_vcs (count_reset s) = rs_vcs s"
  "rs_pending (count_reset s) = rs_pending s" "rs_pending_bytes (count_reset s) = rs_pending_bytes s"
  "rs_timers (count_reset s) = rs_timers s" "rs_closed (count_reset s) = rs_closed s"
  by (simp_all add: count_reset_def)

lemma notify_task_fields [simp, rs_fields]:
  "rs_conns (notify_task c s) = rs_conns s" "rs_vcs (notify_task c s) = rs_vcs s"
  "rs_pending (notify_task c s) = rs_pending s" "rs_pending_bytes (notify_task c s) = rs_pending_bytes s"
  "rs_timers (notify_task c s) = rs_timers s" "rs_closed (notify_task c s) = rs_closed s"
  by (auto simp: notify_task_def split: option.splits)

lemma upd_vc_fields [simp, rs_fields]:
  "rs_conns (upd_vc a g s) = rs_conns s" "rs_vcs (upd_vc a g s) = (rs_vcs s)[a := g (rs_vcs s ! a)]"
  "rs_pending (upd_vc a g s) = rs_pending s" "rs_pending_bytes (upd_vc a g s) = rs_pending_bytes s"
  "rs_timers (upd_vc a g s) = rs_timers s" "rs_closed (upd_vc a g s) = rs_closed s"
  by (simp_all add: upd_vc_def)

lemma remove_conn_fields [simp, rs_fields]:
  "rs_pending (remove_conn c s) = rs_pending s" "rs_pending_bytes (remove_conn c s) = rs_pending_bytes s"
  "rs_timers (remove_conn c s) = rs_timers s" "rs_closed (remove_conn c s) = rs_closed s"
  by (simp_all add: remove_conn_def split: option.splits)

lemma end_task_fields [simp, rs_fields]:
  "rs_conns (end_task i h s) = rs_conns s" "rs_vcs (end_task i h s) = rs_vcs s"
  "rs_pending (end_task i h s) = rs_pending s" "rs_pending_bytes (end_task i h s) = rs_pending_bytes s"
  "rs_timers (end_task i h s) = rs_timers s"
  by (simp_all add: end_task_def)

lemma cancel_pending_fields [simp, rs_fields]:
  "rs_conns (cancel_pending c s) = rs_conns s" "rs_vcs (cancel_pending c s) = rs_vcs s"
  "rs_timers (cancel_pending c s) = rs_timers s" "rs_pending_bytes (cancel_pending c s) = rs_pending_bytes s"
  by (simp_all add: cancel_pending_def split: option.splits)

lemma fail_pending_fields [simp, rs_fields]:
  "rs_conns (fail_pending_conn n c s) = rs_conns s" "rs_vcs (fail_pending_conn n c s) = rs_vcs s"
  "rs_timers (fail_pending_conn n c s) = rs_timers s"
  by (simp_all add: fail_pending_conn_def)

lemma remove_pending_fields [simp, rs_fields]:
  "rs_conns (snd (remove_pending c s)) = rs_conns s" "rs_vcs (snd (remove_pending c s)) = rs_vcs s"
  "rs_timers (snd (remove_pending c s)) = rs_timers s"
  by (simp_all add: remove_pending_def split: option.splits)

lemma drop_pending_fields [simp, rs_fields]:
  "rs_conns (drop_pending n ke s) = rs_conns s" "rs_vcs (drop_pending n ke s) = rs_vcs s"
  "rs_timers (drop_pending n ke s) = rs_timers s"
  by (simp_all add: drop_pending_def)

lemma fold_drop_pending_fields [simp, rs_fields]:
  "rs_conns (fold (drop_pending n) xs s) = rs_conns s" "rs_vcs (fold (drop_pending n) xs s) = rs_vcs s"
  "rs_timers (fold (drop_pending n) xs s) = rs_timers s" "rs_pending (fold (drop_pending n) xs s) = rs_pending s"
  "rs_pending_bytes (fold (drop_pending n) xs s) = rs_pending_bytes s"
  by (induction xs arbitrary: s) simp_all

lemma forward_udp_fields [simp, rs_fields]:
  "rs_conns (forward_udp_datagram a p s) = rs_conns s" "rs_vcs (forward_udp_datagram a p s) = rs_vcs s"
  "rs_timers (forward_udp_datagram a p s) = rs_timers s" "rs_pending (forward_udp_datagram a p s) = rs_pending s"
  "rs_pending_bytes (forward_udp_datagram a p s) = rs_pending_bytes s"
  by (auto simp: forward_udp_datagram_def split: sum.splits)

lemma fold_forward_fields [simp, rs_fields]:
  "rs_conns (fold (\<lambda>f. forward_udp_datagram a (payload f)) fs s) = rs_conns s"
  "rs_vcs (fold (\<lambda>f. forward_udp_datagram a (payload f)) fs s) = rs_vcs s"
  "rs_timers (fold (\<lambda>f. forward_udp_datagram a (payload f)) fs s) = rs_timers s"
  "rs_pending (fold (\<lambda>f. forward_udp_datagram a (payload f)) fs s) = rs_pending s"
  "rs_pending_bytes (fold (\<lambda>f. forward_udp_datagram a (payload f)) fs s) = rs_pending_bytes s"
  by (induction fs arbitrary: s) simp_all

lemma finish_if_done_fields [simp, rs_fields]:
  "rs_vcs (finish_if_done n a c s) = rs_vcs s" "rs_timers (finish_if_done n a c s) = rs_timers s"
  "rs_pending (finish_if_done n a c s) = rs_pending s" "rs_pending_bytes (finish_if_done n a c s) = rs_pending_bytes s"
  by (simp_all add: finish_if_done_def)

lemma half_close_fields [simp, rs_fields]:
  "rs_pending (half_close_conn a q s) = rs_pending s" "rs_pending_bytes (half_close_conn a q s) = rs_pending_bytes s"
  by (simp_all add: half_close_conn_def Let_def split: prod.splits)

subsection \<open>The pending table\<close>

definition data_len :: "frame list \<Rightarrow> nat" where
  "data_len fs = (\<Sum>f\<leftarrow>filter (\<lambda>f. has_flag f FLAG_DATA) fs. length (payload f))"

definition entry_ok :: "(frame \<Rightarrow> bool) \<Rightarrow> u32 \<Rightarrow> pending_entry \<Rightarrow> bool" where
  "entry_ok Q k e \<longleftrightarrow> length (pe_frames e) \<le> MAX_PENDING_FRAMES_PER_CID \<and> pe_bytes e = data_len (pe_frames e)
     \<and> (\<forall>f \<in> set (pe_frames e). conn_id f = k \<and> Q f \<and> \<not> has_flag f FLAG_SYN
          \<and> (has_flag f FLAG_DATA \<or> has_flag f FLAG_FIN))"

definition unclaimed :: "pending_entry \<Rightarrow> nat" where
  "unclaimed e = (if pe_cancel e = None then 1 else 0)"

text \<open>\<open>extra\<close>: bytes reserved and not yet recorded in an entry.\<close>

definition pend_ok :: "(frame \<Rightarrow> bool) \<Rightarrow> (u32, pending_entry) table \<Rightarrow> nat \<Rightarrow> nat \<Rightarrow> bool" where
  "pend_ok Q t n extra \<longleftrightarrow> twf t \<and> n = tsum pe_bytes t + extra \<and> n \<le> MAX_PENDING_BYTES
     \<and> tsum unclaimed t \<le> MAX_PENDING_CIDS \<and> (\<forall>k e. tget t k = Some e \<longrightarrow> entry_ok Q k e)"

definition pend_inv :: "(frame \<Rightarrow> bool) \<Rightarrow> rs \<Rightarrow> bool" where
  "pend_inv Q s \<longleftrightarrow> pend_ok Q (rs_pending s) (rs_pending_bytes s) 0"

lemma tsum_le_filter: "tsum g (filter P t) \<le> tsum g t"
  using tsum_filter [of g P t] by simp

lemma tsum_unclaimed_le: "tsum unclaimed t \<le> length t"
  by (induction t) (auto simp: unclaimed_def)

lemma pend_ok_tdel:
  assumes "pend_ok Q t n x" and "tget t k = Some e"
  shows "pend_ok Q (tdel k t) (n - pe_bytes e) x"
  using assms tsum_tdel [of t k e pe_bytes] tsum_tdel [of t k e unclaimed]
  by (auto simp: pend_ok_def tget_tdel)

lemma pend_ok_filter:
  assumes "pend_ok Q t n x"
  shows "pend_ok Q (filter P t) (n - tsum pe_bytes (filter (\<lambda>p. \<not> P p) t)) x"
proof -
  have wf: "twf t" using assms by (simp add: pend_ok_def)
  have "tget t k = Some e" if "tget (filter P t) k = Some e" for k e
    using that tget_in_set [OF wf] tget_in_set [OF twf_filter [OF wf, of P]] by auto
  then show ?thesis
    using assms tsum_filter [of pe_bytes P t] tsum_le_filter [of unclaimed P t]
    by (auto simp: pend_ok_def)
qed

lemma pend_ok_update:
  assumes "pend_ok Q t n x" and "tget t k = Some e" and "entry_ok Q k e'" and "unclaimed e' \<le> unclaimed e"
    and "pe_bytes e' = pe_bytes e + y" and "y \<le> x"
  shows "pend_ok Q (tins k e' t) n (x - y)"
  using assms tsum_tins_same [OF assms(2), of pe_bytes e'] tsum_tins_same [OF assms(2), of unclaimed e']
  by (auto simp: pend_ok_def tget_tins)

lemma pend_ok_insert:
  assumes "pend_ok Q t n x" and "tget t k = None" and "entry_ok Q k e"
    and "unclaimed e = 0 \<or> length t < MAX_PENDING_CIDS" and "pe_bytes e = x"
  shows "pend_ok Q (tins k e t) n 0"
proof -
  have "unclaimed e \<le> 1" by (simp add: unclaimed_def)
  then have "tsum unclaimed t + unclaimed e \<le> MAX_PENDING_CIDS"
    using assms(1,4) tsum_unclaimed_le [of t] by (auto simp: pend_ok_def)
  then show ?thesis
    using assms tsum_tins_fresh [OF assms(2), of pe_bytes e] tsum_tins_fresh [OF assms(2), of unclaimed e]
    by (auto simp: pend_ok_def tget_tins)
qed

text \<open>A reservation: the budget stays exact, evictions take whole entries, never the excluded one.\<close>

lemma try_reserve_spec:
  "pend_inv Q s \<Longrightarrow> try_reserve_pending now ex need s = (ok, s') \<Longrightarrow>
     pend_ok Q (rs_pending s') (rs_pending_bytes s') (if ok then need else 0)
     \<and> rs_conns s' = rs_conns s \<and> rs_vcs s' = rs_vcs s \<and> rs_timers s' = rs_timers s
     \<and> length (rs_pending s') \<le> length (rs_pending s)
     \<and> (\<forall>k. tget (rs_pending s') k = tget (rs_pending s) k \<or> tget (rs_pending s') k = None \<and> Some k \<noteq> ex)"
proof (induction now ex need s rule: try_reserve_pending.induct)
  case (1 now ex need s)
  note unf = try_reserve_pending.simps [of now ex need s]
  consider "rs_pending_bytes s + need \<le> MAX_PENDING_BYTES"
    | "\<not> rs_pending_bytes s + need \<le> MAX_PENDING_BYTES"
      "rs_pending s = [] \<or> oldest (filter (\<lambda>ke. Some (fst ke) \<noteq> ex) (rs_pending s)) = None"
    | ke where "\<not> rs_pending_bytes s + need \<le> MAX_PENDING_BYTES" "rs_pending s \<noteq> []"
      "oldest (filter (\<lambda>ke. Some (fst ke) \<noteq> ex) (rs_pending s)) = Some ke" by fastforce
  then show ?case
  proof cases
    case 1
    with "1.prems" show ?thesis by (auto simp: unf pend_inv_def pend_ok_def)
  next
    case 2
    have "try_reserve_pending now ex need s = (False, s)"
      using 2(2) by (elim disjE) (simp_all add: unf 2(1))
    with "1.prems" show ?thesis by (simp add: pend_inv_def)
  next
    case 3
    let ?s = "drop_pending now ke (s\<lparr>rs_pending := tdel (fst ke) (rs_pending s),
                rs_pending_bytes := rs_pending_bytes s - pe_bytes (snd ke)\<rparr>)"
    have wf: "twf (rs_pending s)" using "1.prems"(1) by (simp add: pend_inv_def pend_ok_def)
    from oldest_member [OF 3(3)] have mem: "ke \<in> set (rs_pending s)" and ne: "Some (fst ke) \<noteq> ex" by auto
    then have get: "tget (rs_pending s) (fst ke) = Some (snd ke)" using tget_in_set [OF wf] by simp
    have inv: "pend_inv Q ?s" using pend_ok_tdel [OF "1.prems"(1) [unfolded pend_inv_def] get]
      by (simp add: pend_inv_def)
    have run: "try_reserve_pending now ex need ?s = (ok, s')" using "1.prems"(2) 3 by (simp add: unf)
    note IH = "1.IH" [OF 3(1,2,3) inv run]
    have ih: "tget (rs_pending s') k = tget (rs_pending ?s) k \<or> tget (rs_pending s') k = None \<and> Some k \<noteq> ex" for k
      using IH by blast
    have "tget (rs_pending s') k = tget (rs_pending s) k \<or> tget (rs_pending s') k = None \<and> Some k \<noteq> ex" for k
      using ih [of k] ne by (auto simp: tget_tdel split: if_splits)
    with IH length_delete_le [of "fst ke" "rs_pending s"] show ?thesis by simp
  qed
qed

lemma pend_inv_cong:
  "rs_pending s' = rs_pending s \<Longrightarrow> rs_pending_bytes s' = rs_pending_bytes s \<Longrightarrow> pend_inv Q s' = pend_inv Q s"
  by (simp add: pend_inv_def)

lemma pend_inv_simps [simp]:
  "pend_inv Q (send_ctl f s) = pend_inv Q s" "pend_inv Q (tombstone n c s) = pend_inv Q s"
  "pend_inv Q (end_handshaking c s) = pend_inv Q s" "pend_inv Q (count_reset s) = pend_inv Q s"
  "pend_inv Q (notify_task k s) = pend_inv Q s" "pend_inv Q (upd_vc a g s) = pend_inv Q s"
  "pend_inv Q (remove_conn c s) = pend_inv Q s" "pend_inv Q (end_task i h s) = pend_inv Q s"
  "pend_inv Q (finish_if_done n a c s) = pend_inv Q s" "pend_inv Q (half_close_conn a q s) = pend_inv Q s"
  "pend_inv Q (forward_udp_datagram a b s) = pend_inv Q s" "pend_inv Q (drop_pending n ke s) = pend_inv Q s"
  by (simp_all add: pend_inv_def)

lemma entry_ok_cancel [simp]: "entry_ok Q k (e\<lparr>pe_cancelled := b\<rparr>) = entry_ok Q k e"
  "entry_ok Q k (e\<lparr>pe_cancel := c\<rparr>) = entry_ok Q k e"
  by (simp_all add: entry_ok_def)

lemma entry_ok_new [simp]: "entry_ok Q k (new_pending now)"
  by (simp add: entry_ok_def new_pending_def data_len_def)

lemma pend_ok_entry: "pend_ok Q t n x \<Longrightarrow> tget t k = Some e \<Longrightarrow> entry_ok Q k e"
  by (simp add: pend_ok_def)

lemma cancel_pending_ok: "pend_ok Q (rs_pending s) n x \<Longrightarrow> pend_ok Q (rs_pending (cancel_pending c s)) n x"
proof (cases "tget (rs_pending s) c")
  case (Some e)
  assume p: "pend_ok Q (rs_pending s) n x"
  from pend_ok_update [OF p Some, of "e\<lparr>pe_cancelled := True\<rparr>" 0] pend_ok_entry [OF p Some]
  show ?thesis by (simp add: cancel_pending_def Some unclaimed_def)
qed (simp add: cancel_pending_def)

lemma fail_pending_inv: "pend_inv Q s \<Longrightarrow> pend_inv Q (fail_pending_conn now c s)"
  using cancel_pending_ok [of Q s "rs_pending_bytes s" 0 c] by (simp add: pend_inv_def fail_pending_conn_def)

lemma remove_pending_inv: "pend_inv Q s \<Longrightarrow> pend_inv Q (snd (remove_pending c s))"
  using pend_ok_tdel [of Q "rs_pending s" "rs_pending_bytes s" 0 c]
  by (auto simp: pend_inv_def remove_pending_def split: option.splits)

lemma data_established_pending [simp]:
  "rs_pending (data_established now a f s) = rs_pending s"
  "rs_pending_bytes (data_established now a f s) = rs_pending_bytes s"
  by (simp_all add: data_established_def reset_data_conn_def Let_def split: prod.splits delivery.splits)

lemma entry_ok_add:
  assumes "entry_ok Q k e" and "length (pe_frames e) < MAX_PENDING_FRAMES_PER_CID" and "conn_id f = k" and "Q f"
    and "\<not> has_flag f FLAG_SYN" and "has_flag f FLAG_DATA \<or> has_flag f FLAG_FIN"
    and "n = (if has_flag f FLAG_DATA then length (payload f) else 0)"
  shows "entry_ok Q k (e\<lparr>pe_frames := pe_frames e @ [f], pe_bytes := pe_bytes e + n\<rparr>)"
  using assms by (auto simp: entry_ok_def data_len_def)

lemma data_unknown_inv:
  assumes inv: "pend_inv Q s" and flags: "has_flag f FLAG_DATA" "\<not> has_flag f FLAG_SYN" "Q f"
  shows "pend_inv Q (data_unknown now f s)"
proof -
  let ?k = "conn_id f" and ?n = "length (payload f)"
  consider "thas (rs_closed s) ?k" | "\<not> thas (rs_closed s) ?k" "thas (rs_pending s) ?k"
    | "\<not> thas (rs_closed s) ?k" "\<not> thas (rs_pending s) ?k" "length (rs_pending s) < MAX_PENDING_CIDS"
    | "\<not> thas (rs_closed s) ?k" "\<not> thas (rs_pending s) ?k" "\<not> length (rs_pending s) < MAX_PENDING_CIDS"
    by blast
  then show ?thesis
  proof cases
    case 1
    with inv show ?thesis by (simp add: data_unknown_def)
  next
    case 2
    obtain ok s1 where r: "try_reserve_pending now (Some ?k) ?n s = (ok, s1)"
      by (cases "try_reserve_pending now (Some ?k) ?n s")
    note sp = try_reserve_spec [OF inv r]
    from sp have "tget (rs_pending s1) ?k = tget (rs_pending s) ?k" by blast
    with 2(2) obtain e where e: "tget (rs_pending s1) ?k = Some e" by (auto simp: thas_def)
    show ?thesis
    proof (cases ok)
      case False
      with sp have "pend_inv Q s1" by (simp add: pend_inv_def)
      with False r 2 show ?thesis by (simp add: data_unknown_def fail_pending_inv)
    next
      case True
      with sp have p: "pend_ok Q (rs_pending s1) (rs_pending_bytes s1) ?n" by simp
      show ?thesis
      proof (cases "length (pe_frames e) < MAX_PENDING_FRAMES_PER_CID")
        case room: True
        let ?e = "e\<lparr>pe_frames := pe_frames e @ [f], pe_bytes := pe_bytes e + ?n\<rparr>"
        have "entry_ok Q ?k ?e"
          by (rule entry_ok_add [OF pend_ok_entry [OF p e] room]) (use flags in auto)
        from pend_ok_update [OF p e this, of ?n] True room r e 2 show ?thesis
          by (simp add: data_unknown_def pend_inv_def unclaimed_def)
      next
        case False
        have "pend_inv Q (s1\<lparr>rs_pending_bytes := rs_pending_bytes s1 - ?n\<rparr>)"
          using p by (simp add: pend_inv_def pend_ok_def)
        with False True r e 2 show ?thesis by (simp add: data_unknown_def fail_pending_inv)
      qed
    qed
  next
    case 3
    obtain ok s1 where r: "try_reserve_pending now None ?n s = (ok, s1)"
      by (cases "try_reserve_pending now None ?n s")
    note sp = try_reserve_spec [OF inv r]
    show ?thesis
    proof (cases ok)
      case False
      with sp have "pend_inv Q s1" by (simp add: pend_inv_def)
      with False r 3 show ?thesis by (simp add: data_unknown_def fail_pending_inv)
    next
      case True
      let ?e = "(new_pending now)\<lparr>pe_frames := [f], pe_bytes := ?n\<rparr>"
      have "\<forall>k. tget (rs_pending s1) k = tget (rs_pending s) k \<or> tget (rs_pending s1) k = None \<and> Some k \<noteq> None"
        using sp by (elim conjE)
      then have "tget (rs_pending s1) ?k = tget (rs_pending s) ?k \<or> tget (rs_pending s1) ?k = None" by simp
      with 3(2) have none: "tget (rs_pending s1) ?k = None" by (auto simp: thas_def)
      have "entry_ok Q ?k ?e"
        using flags by (simp add: entry_ok_def new_pending_def data_len_def MAX_PENDING_FRAMES_PER_CID_def)
      with pend_ok_insert [of Q "rs_pending s1" "rs_pending_bytes s1" ?n ?k ?e] sp none True r 3 show ?thesis
        by (simp add: data_unknown_def pend_inv_def)
    qed
  next
    case 4
    with inv show ?thesis by (simp add: data_unknown_def fail_pending_inv)
  qed
qed

lemma handle_data_inv:
  "pend_inv Q s \<Longrightarrow> has_flag f FLAG_DATA \<Longrightarrow> \<not> has_flag f FLAG_SYN \<Longrightarrow> Q f \<Longrightarrow> pend_inv Q (handle_data now f s)"
  using data_unknown_inv [of Q s f now]
  by (cases "tget (rs_conns s) (conn_id f)") (simp_all add: handle_data_def pend_inv_def)

lemma handle_fin_inv:
  assumes inv: "pend_inv Q s" and flags: "has_flag f FLAG_FIN" "\<not> has_flag f FLAG_SYN" "\<not> has_flag f FLAG_DATA" "Q f"
  shows "pend_inv Q (handle_fin now f s)"
proof -
  let ?k = "conn_id f"
  show ?thesis
  proof (cases "tget (rs_conns s) ?k = None \<and> \<not> thas (rs_closed s) ?k")
    case False
    with inv show ?thesis by (auto simp: handle_fin_def Let_def split: option.splits)
  next
    case True
    note p = inv [unfolded pend_inv_def]
    show ?thesis
    proof (cases "tget (rs_pending s) ?k")
      case (Some e)
      show ?thesis
      proof (cases "length (pe_frames e) < MAX_PENDING_FRAMES_PER_CID")
        case room: True
        have "entry_ok Q ?k (e\<lparr>pe_frames := pe_frames e @ [f], pe_bytes := pe_bytes e + 0\<rparr>)"
          by (rule entry_ok_add [OF pend_ok_entry [OF p Some] room]) (use flags in auto)
        then have "entry_ok Q ?k (e\<lparr>pe_frames := pe_frames e @ [f]\<rparr>)" by (simp add: entry_ok_def)
        from pend_ok_update [OF p Some this, of 0] True room Some show ?thesis
          by (simp add: handle_fin_def pend_inv_def unclaimed_def)
      next
        case False
        with True Some inv show ?thesis by (simp add: handle_fin_def fail_pending_inv)
      qed
    next
      case None
      let ?e = "(new_pending now)\<lparr>pe_frames := [f]\<rparr>"
      have "entry_ok Q ?k ?e"
        using flags by (simp add: entry_ok_def new_pending_def data_len_def MAX_PENDING_FRAMES_PER_CID_def)
      moreover have "pe_bytes ?e = 0" by (simp add: new_pending_def)
      ultimately have "pend_inv Q (s\<lparr>rs_pending := tins ?k ?e (rs_pending s)\<rparr>)"
        if "length (rs_pending s) < MAX_PENDING_CIDS"
        using pend_ok_insert [OF p None, of ?e] that by (simp add: pend_inv_def)
      with True None inv show ?thesis by (auto simp: handle_fin_def Let_def fail_pending_inv)
    qed
  qed
qed

lemma handle_rst_inv: "pend_inv Q s \<Longrightarrow> pend_inv Q (handle_rst now f s)"
  using cancel_pending_ok [of Q s "rs_pending_bytes s" 0 "conn_id f"]
  by (simp add: handle_rst_def Let_def) (simp add: pend_inv_def)

lemma syn_fail_inv: "pend_inv Q s \<Longrightarrow> pend_inv Q (syn_fail now c s)"
  by (simp add: syn_fail_def remove_pending_inv)

lemma syn_abort_inv: "pend_inv Q s \<Longrightarrow> pend_inv Q (syn_abort c s)"
  by (simp add: syn_abort_def remove_pending_inv)

lemma claim_entry_inv:
  assumes "pend_inv Q s" and "e = (case tget (rs_pending s) k of Some e \<Rightarrow> e | None \<Rightarrow> new_pending now)"
  shows "pend_ok Q (tins k (e\<lparr>pe_cancel := Some i\<rparr>) (rs_pending s)) (rs_pending_bytes s) 0"
proof (cases "tget (rs_pending s) k")
  case None
  note p = assms(1) [unfolded pend_inv_def]
  show ?thesis
    by (rule pend_ok_insert [OF p None]) (use None assms(2) in \<open>simp_all add: unclaimed_def\<close>, simp add: new_pending_def)
next
  case (Some e')
  note p = assms(1) [unfolded pend_inv_def]
  from pend_ok_update [OF p Some, of "e'\<lparr>pe_cancel := Some i\<rparr>" 0] pend_ok_entry [OF p Some] assms(2) Some
  show ?thesis by (simp add: unclaimed_def)
qed

lemma syn_begin_inv:
  assumes "pend_inv Q s"
  shows "pend_inv Q (syn_begin now permit f s)"
proof -
  let ?e = "case tget (rs_pending s) (conn_id f) of Some e \<Rightarrow> e | None \<Rightarrow> new_pending now"
  let ?s = "s\<lparr>rs_handshaking := tins (conn_id f) now (rs_handshaking s), rs_next_task := Suc (rs_next_task s),
      rs_pending := tins (conn_id f) (?e\<lparr>pe_cancel := Some (rs_next_task s)\<rparr>) (rs_pending s)\<rparr>"
  have s2: "pend_inv Q ?s" using claim_entry_inv [OF assms refl] by (simp add: pend_inv_def)
  have other: "pend_inv Q (s\<lparr>rs_tasks := t\<rparr>) = pend_inv Q s" "pend_inv Q (s\<lparr>rs_permits := n\<rparr>) = pend_inv Q s"
    "pend_inv Q (s\<lparr>rs_handshaking := h\<rparr>) = pend_inv Q s" for s t n h by (simp_all add: pend_inv_def)
  show ?thesis
    unfolding syn_begin_def Let_def using assms s2
    by (auto simp: syn_abort_inv syn_fail_inv other split: sum.splits)
qed

lemma insert_conn_pend [simp]: "pend_inv Q (insert_conn c v s) = pend_inv Q s"
  by (simp add: pend_inv_def insert_conn_def)

lemma remove_pending_inv': "pend_inv Q s \<Longrightarrow> remove_pending c s = (r, s') \<Longrightarrow> pend_inv Q s'"
  using remove_pending_inv [of Q s c] by simp

lemma fold_forward_inv [simp]: "pend_inv Q (fold (\<lambda>f. forward_udp_datagram a (payload f)) fs s) = pend_inv Q s"
  by (simp add: pend_inv_def)

lemma syn_udp_bound_inv:
  assumes "pend_inv Q s"
  shows "pend_inv Q (syn_udp_bound now c b s)"
proof (cases b)
  case None
  with assms show ?thesis by (simp add: syn_udp_bound_def syn_fail_inv)
next
  case (Some v6)
  let ?s = "insert_conn c (new_udp_vconn c (rs_window s) v6 now) s"
  obtain e s2 where r: "remove_pending c ?s = (e, s2)" by (cases "remove_pending c ?s")
  have "pend_inv Q s2" using remove_pending_inv' [OF _ r] assms by simp
  with r Some show ?thesis
    by (auto simp: syn_udp_bound_def syn_cancelled_def Let_def split: option.splits)
qed

lemma syn_drain_inv: "pend_inv Q s \<Longrightarrow> pend_inv Q (syn_drain now c a fs s)"
  by (simp add: syn_drain_def Let_def split: prod.splits replay_end.splits option.splits)

lemma syn_connected_inv:
  assumes "pend_inv Q s"
  shows "pend_inv Q (syn_connected now c r s)"
proof -
  let ?s = "insert_conn c (new_tcp_vconn c (rs_window s) now) s"
  obtain e s2 where r: "remove_pending c ?s = (e, s2)" by (cases "remove_pending c ?s")
  have "pend_inv Q s2" using remove_pending_inv' [OF _ r] assms by simp
  with r assms show ?thesis
    by (cases r) (auto simp: syn_connected_def syn_fail_inv syn_abort_inv syn_drain_inv syn_cancelled_def
        Let_def split: option.splits connect_result.splits)
qed

lemma dispatch_inv: "pend_inv Q s \<Longrightarrow> Q f \<Longrightarrow> pend_inv Q (dispatch_frame now f s)"
  by (simp add: dispatch_frame_def handle_frame_def syn_begin_inv handle_data_inv handle_fin_inv handle_rst_inv)

lemma pend_inv_pool [simp]: "pend_inv Q (s\<lparr>rs_pool := p\<rparr>) = pend_inv Q s" "pend_inv Q (s\<lparr>rs_emitted := em\<rparr>) = pend_inv Q s"
  by (simp_all add: pend_inv_def)

lemma fold_resend_fields [simp, rs_fields]:
  "rs_conns (fold resend_lost fs s) = rs_conns s" "rs_vcs (fold resend_lost fs s) = rs_vcs s"
  "rs_pending (fold resend_lost fs s) = rs_pending s" "rs_pending_bytes (fold resend_lost fs s) = rs_pending_bytes s"
  "rs_timers (fold resend_lost fs s) = rs_timers s" "rs_handshaking (fold resend_lost fs s) = rs_handshaking s"
  by (induction fs arbitrary: s) (simp_all add: resend_lost_def)

lemma link_lost_inv: "pend_inv Q s \<Longrightarrow> pend_inv Q (link_lost i fs s)"
  by (simp add: link_lost_def pend_inv_def)

lemma reader_step_inv: "pend_inv Q s \<Longrightarrow> pend_inv Q (reader_step rnd now a ev s)"
  by (auto simp: reader_step_def Let_def split: reader_event.splits prod.splits async_outcome.splits)

lemma udp_reader_step_inv: "pend_inv Q s \<Longrightarrow> pend_inv Q (udp_reader_step now a ev s)"
  by (auto simp: udp_reader_step_def Let_def split: udp_event.splits sum.splits prod.splits bool.splits option.splits)

lemma sweep_conn_inv [simp]: "pend_inv Q (sweep_conn now ca s) = pend_inv Q s"
  by (simp add: sweep_conn_def)

lemma fold_sweep_conn_inv [simp]: "pend_inv Q (fold (sweep_conn now) cs s) = pend_inv Q s"
  by (induction cs arbitrary: s) simp_all

lemma sweep_stale_inv: "pend_inv Q s \<Longrightarrow> pend_inv Q (sweep_stale_pending now ttl s)"
  using pend_ok_filter [of Q "rs_pending s" "rs_pending_bytes s" 0]
  by (simp add: sweep_stale_pending_def Let_def pend_inv_def)

lemma heartbeat_inv:
  assumes "pend_inv Q s"
  shows "pend_inv Q (heartbeat now now_ms s)"
proof -
  have other: "pend_inv Q (s\<lparr>rs_closed := c, rs_handshaking := h\<rparr>) = pend_inv Q s"
    "pend_inv Q (s\<lparr>rs_resets := r\<rparr>) = pend_inv Q s" for s c h r by (simp_all add: pend_inv_def)
  show ?thesis unfolding heartbeat_def Let_def other
    by (rule sweep_stale_inv) (simp only: other fold_sweep_conn_inv pend_inv_pool assms)
qed

lemma rs_exec_pend_inv:
  assumes "pend_inv Q s" and "\<And>i now ms f. ev = EvFrame i now ms f \<Longrightarrow> Q f"
  shows "pend_inv Q (rs_exec ev s)"
proof -
  have "pend_inv Q (s\<lparr>rs_timers := t\<rparr>)" for t using assms by (simp add: pend_inv_def)
  then show ?thesis
    using assms by (cases ev) (auto simp: rs_exec_def dispatch_inv syn_udp_bound_inv syn_connected_inv
        reader_step_inv udp_reader_step_inv heartbeat_inv accept_link_def link_lost_inv link_ended_def
        read_link_frame_def Let_def split: option.splits)
qed

subsection \<open>Connections\<close>

text \<open>\<open>X\<close>: connections about to be removed, which may be out of step with their buffer.\<close>

definition conn_inv_ex :: "(u32 \<Rightarrow> bytes list) \<Rightarrow> nat set \<Rightarrow> rs \<Rightarrow> bool" where
  "conn_inv_ex sent X s \<longleftrightarrow>
     (\<forall>cid a. tget (rs_conns s) cid = Some a \<longrightarrow>
        a < length (rs_vcs s) \<and> vc_cid (rs_vcs s ! a) = cid
        \<and> (a \<notin> X \<longrightarrow> conn_live (sent cid) (rs_vcs s ! a)))
     \<and> (\<forall>a < length (rs_vcs s). conn_ok (sent (vc_cid (rs_vcs s ! a))) (rs_vcs s ! a))
     \<and> (\<forall>a \<in> set (rs_timers s). a < length (rs_vcs s) \<and> vc_fin_received (rs_vcs s ! a))"

abbreviation conn_inv :: "(u32 \<Rightarrow> bytes list) \<Rightarrow> rs \<Rightarrow> bool" where
  "conn_inv sent s \<equiv> conn_inv_ex sent {} s"

lemma conn_inv_cong:
  "rs_conns s' = rs_conns s \<Longrightarrow> rs_vcs s' = rs_vcs s \<Longrightarrow> rs_timers s' = rs_timers s \<Longrightarrow>
     conn_inv_ex sent X s' = conn_inv_ex sent X s"
  by (simp add: conn_inv_ex_def)

lemma conn_inv_simps [simp]:
  "conn_inv_ex sent X (send_ctl f s) = conn_inv_ex sent X s"
  "conn_inv_ex sent X (tombstone n c s) = conn_inv_ex sent X s"
  "conn_inv_ex sent X (end_handshaking c s) = conn_inv_ex sent X s"
  "conn_inv_ex sent X (count_reset s) = conn_inv_ex sent X s"
  "conn_inv_ex sent X (notify_task k s) = conn_inv_ex sent X s"
  "conn_inv_ex sent X (end_task i h s) = conn_inv_ex sent X s"
  "conn_inv_ex sent X (cancel_pending c s) = conn_inv_ex sent X s"
  "conn_inv_ex sent X (fail_pending_conn n c s) = conn_inv_ex sent X s"
  "conn_inv_ex sent X (snd (remove_pending c s)) = conn_inv_ex sent X s"
  "conn_inv_ex sent X (drop_pending n ke s) = conn_inv_ex sent X s"
  "conn_inv_ex sent X (fold (drop_pending n) xs s) = conn_inv_ex sent X s"
  "conn_inv_ex sent X (forward_udp_datagram a p s) = conn_inv_ex sent X s"
  "conn_inv_ex sent X (fold (\<lambda>f. forward_udp_datagram a (payload f)) fs s) = conn_inv_ex sent X s"
  "conn_inv_ex sent X (s\<lparr>rs_pool := pl\<rparr>) = conn_inv_ex sent X s"
  "conn_inv_ex sent X (s\<lparr>rs_emitted := em\<rparr>) = conn_inv_ex sent X s"
  "conn_inv_ex sent X (fold resend_lost lf s) = conn_inv_ex sent X s"
  "conn_inv_ex sent X (s\<lparr>rs_pending := pd\<rparr>) = conn_inv_ex sent X s"
  "conn_inv_ex sent X (s\<lparr>rs_pending_bytes := pb\<rparr>) = conn_inv_ex sent X s"
  "conn_inv_ex sent X (s\<lparr>rs_handshaking := hk\<rparr>) = conn_inv_ex sent X s"
  "conn_inv_ex sent X (s\<lparr>rs_closed := cl\<rparr>) = conn_inv_ex sent X s"
  "conn_inv_ex sent X (s\<lparr>rs_resets := rr\<rparr>) = conn_inv_ex sent X s"
  "conn_inv_ex sent X (s\<lparr>rs_tasks := ts\<rparr>) = conn_inv_ex sent X s"
  "conn_inv_ex sent X (s\<lparr>rs_permits := pm\<rparr>) = conn_inv_ex sent X s"
  "conn_inv_ex sent X (s\<lparr>rs_next_task := nt\<rparr>) = conn_inv_ex sent X s"
  by (rule conn_inv_cong; simp)+

lemma conn_inv_mono: "conn_inv_ex sent X s \<Longrightarrow> X \<subseteq> Y \<Longrightarrow> conn_inv_ex sent Y s"
  by (auto simp: conn_inv_ex_def)

lemma conn_inv_entry:
  assumes "conn_inv_ex sent X s" and "tget (rs_conns s) c = Some a"
  shows "a < length (rs_vcs s)" and "vc_cid (rs_vcs s ! a) = c" and "conn_ok (sent c) (rs_vcs s ! a)"
    and "a \<notin> X \<Longrightarrow> conn_live (sent c) (rs_vcs s ! a)"
  using assms by (auto simp: conn_inv_ex_def)

lemma conn_inv_vc:
  "conn_inv_ex sent X s \<Longrightarrow> a < length (rs_vcs s) \<Longrightarrow> conn_ok (sent (vc_cid (rs_vcs s ! a))) (rs_vcs s ! a)"
  by (simp add: conn_inv_ex_def)

lemma conn_inv_timer:
  "conn_inv_ex sent X s \<Longrightarrow> a \<in> set (rs_timers s) \<Longrightarrow> a < length (rs_vcs s) \<and> vc_fin_received (rs_vcs s ! a)"
  by (simp add: conn_inv_ex_def)

lemma conn_inv_exI:
  assumes "\<And>c a. tget (rs_conns s) c = Some a \<Longrightarrow> a < length (rs_vcs s) \<and> vc_cid (rs_vcs s ! a) = c
        \<and> (a \<notin> X \<longrightarrow> conn_live (sent c) (rs_vcs s ! a))"
    and "\<And>a. a < length (rs_vcs s) \<Longrightarrow> conn_ok (sent (vc_cid (rs_vcs s ! a))) (rs_vcs s ! a)"
    and "\<And>a. a \<in> set (rs_timers s) \<Longrightarrow> a < length (rs_vcs s) \<and> vc_fin_received (rs_vcs s ! a)"
  shows "conn_inv_ex sent X s"
  using assms by (simp add: conn_inv_ex_def)

text \<open>Two names never share a connection, so removing one name removes the connection.\<close>

lemma conn_inv_inj:
  "conn_inv_ex sent X s \<Longrightarrow> tget (rs_conns s) c = Some a \<Longrightarrow> tget (rs_conns s) c' = Some a \<Longrightarrow> c = c'"
  using conn_inv_entry(2) by metis

lemma conn_inv_upd:
  assumes inv: "conn_inv_ex sent X s" and a: "a < length (rs_vcs s)"
    and g: "vc_cid (g (rs_vcs s ! a)) = vc_cid (rs_vcs s ! a)"
      "conn_ok (sent (vc_cid (rs_vcs s ! a))) (g (rs_vcs s ! a))"
      "vc_fin_received (rs_vcs s ! a) \<Longrightarrow> vc_fin_received (g (rs_vcs s ! a))"
    and live: "a \<in> Y \<or> (conn_live (sent (vc_cid (rs_vcs s ! a))) (rs_vcs s ! a) \<longrightarrow>
                conn_live (sent (vc_cid (rs_vcs s ! a))) (g (rs_vcs s ! a)))"
    and XY: "X \<subseteq> Y"
  shows "conn_inv_ex sent Y (upd_vc a g s)"
proof -
  have "conn_live (sent c) ((rs_vcs s)[a := g (rs_vcs s ! a)] ! b)"
    if "tget (rs_conns s) c = Some b" "b \<notin> Y" for c b
    using that inv a live XY by (cases "b = a") (auto simp: conn_inv_ex_def)
  then show ?thesis
    using conn_inv_entry(1,2) [OF inv] conn_inv_vc [OF inv] conn_inv_timer [OF inv] a g
    by (intro conn_inv_exI) (auto simp: nth_list_update)
qed

lemma conn_inv_upd_ex:
  assumes inv: "conn_inv_ex sent {a} s" and a: "a < length (rs_vcs s)"
    and g: "vc_cid (g (rs_vcs s ! a)) = vc_cid (rs_vcs s ! a)"
      "conn_ok (sent (vc_cid (rs_vcs s ! a))) (g (rs_vcs s ! a))"
      "vc_fin_received (rs_vcs s ! a) \<Longrightarrow> vc_fin_received (g (rs_vcs s ! a))"
      "conn_live (sent (vc_cid (rs_vcs s ! a))) (g (rs_vcs s ! a))"
  shows "conn_inv sent (upd_vc a g s)"
  using conn_inv_entry [OF inv] conn_inv_vc [OF inv] conn_inv_timer [OF inv] a g
  by (intro conn_inv_exI) (auto simp: nth_list_update)

lemma conn_inv_tdel:
  assumes inv: "conn_inv_ex sent X s"
  shows "conn_inv_ex sent X (s\<lparr>rs_conns := tdel c (rs_conns s)\<rparr>)"
  using conn_inv_entry [OF inv] conn_inv_vc [OF inv] conn_inv_timer [OF inv]
  by (intro conn_inv_exI) (auto simp: tget_tdel split: if_splits)

lemma conn_inv_tdel_ex:
  assumes inv: "conn_inv_ex sent {a} s" and c: "tget (rs_conns s) c = Some a"
  shows "conn_inv sent (s\<lparr>rs_conns := tdel c (rs_conns s)\<rparr>)"
proof -
  have "b \<noteq> a" if "tget (rs_conns s) c' = Some b" "c' \<noteq> c" for c' b
    using conn_inv_inj [OF inv c] that by auto
  then show ?thesis
    using conn_inv_entry [OF inv] conn_inv_vc [OF inv] conn_inv_timer [OF inv]
    by (intro conn_inv_exI) (auto simp: tget_tdel split: if_splits)
qed

lemma teardown_parts [simp]:
  "vc_cid (signal_teardown vc) = vc_cid vc" "conn_ok ps (signal_teardown vc) = conn_ok ps vc"
  "conn_live ps (signal_teardown vc) = conn_live ps vc" "vc_fin_received (signal_teardown vc) = vc_fin_received vc"
  by (simp_all add: signal_teardown_def conn_ok_def kind_ok_def data_ok_def close_ok_def conn_live_def conn_synced_def)

lemma note_parts [simp]:
  "vc_cid (note_recv n k vc) = vc_cid vc" "conn_ok ps (note_recv n k vc) = conn_ok ps vc"
  "conn_live ps (note_recv n k vc) = conn_live ps vc" "conn_synced ps (note_recv n k vc) = conn_synced ps vc" "vc_fin_received (note_recv n k vc) = vc_fin_received vc"
  "vc_is_udp (note_recv n k vc) = vc_is_udp vc" "vc_is_udp (note_sent n k vc) = vc_is_udp vc"
  "vc_cid (note_sent n k vc) = vc_cid vc" "conn_ok ps (note_sent n k vc) = conn_ok ps vc"
  "conn_live ps (note_sent n k vc) = conn_live ps vc" "vc_fin_received (note_sent n k vc) = vc_fin_received vc"
  by (simp_all add: note_recv_def note_sent_def conn_ok_def kind_ok_def data_ok_def close_ok_def conn_live_def conn_synced_def)

lemma remove_conn_inv:
  assumes "conn_inv_ex sent X s" and "X = {} \<or> (\<exists>a. tget (rs_conns s) c = Some a \<and> X = {a})"
  shows "conn_inv sent (remove_conn c s)"
proof (cases "tget (rs_conns s) c")
  case None
  with assms show ?thesis by (simp add: remove_conn_def)
next
  case (Some a)
  have "conn_inv sent (s\<lparr>rs_conns := tdel c (rs_conns s)\<rparr>)"
    using conn_inv_tdel [OF assms(1), of c] conn_inv_tdel_ex [of sent a s c] assms Some by auto
  then show ?thesis
    using conn_inv_entry [OF assms(1) Some] Some
    by (auto simp: remove_conn_def intro!: conn_inv_upd)
qed

lemma finish_if_done_inv: "conn_inv sent s \<Longrightarrow> conn_inv sent (finish_if_done now a c s)"
  using conn_inv_tdel [of sent "{}" "tombstone now c s" c] by (simp add: finish_if_done_def)

lemma insert_conn_inv:
  assumes inv: "conn_inv sent s" and vc: "vc_cid vc = c" "conn_ok (sent c) vc" "conn_live (sent c) vc"
  shows "conn_inv sent (insert_conn c vc s)"
proof (rule conn_inv_exI)
  fix c' b
  assume g: "tget (rs_conns (insert_conn c vc s)) c' = Some b"
  show "b < length (rs_vcs (insert_conn c vc s)) \<and> vc_cid (rs_vcs (insert_conn c vc s) ! b) = c'
      \<and> (b \<notin> {} \<longrightarrow> conn_live (sent c') (rs_vcs (insert_conn c vc s) ! b))"
  proof (cases "c' = c")
    case True
    with g vc show ?thesis by (auto simp: insert_conn_def tget_tins)
  next
    case False
    then have "tget (rs_conns s) c' = Some b" using g by (simp add: insert_conn_def tget_tins)
    from conn_inv_entry [OF inv this] show ?thesis by (simp add: insert_conn_def nth_append)
  qed
qed (use conn_inv_vc [OF inv] conn_inv_timer [OF inv] vc in
      \<open>fastforce simp: insert_conn_def nth_append less_Suc_eq\<close>)+

lemma deliver_cid: "deliver q p vc = (r, vc') \<Longrightarrow> vc_cid vc' = vc_cid vc"
  by (auto simp: deliver_def egress_write_all_def Let_def split: prod.splits if_splits option.splits)

lemma legit_data:
  "legit sent f \<Longrightarrow> has_flag f FLAG_DATA \<Longrightarrow>
     in_stream (sent (conn_id f)) (seq f) (payload f) \<and> length (sent (conn_id f)) + 1 < 2 ^ 64"
  by (simp add: legit_def)

text \<open>A conditional close of the write half, of a connection in the table.\<close>

lemma close_conn_inv:
  assumes inv: "conn_inv_ex sent {a} s" and c: "tget (rs_conns s) c = Some a" and syn: "conn_synced (sent c) (rs_vcs s ! a)" and tcp: "\<not> vc_is_udp (rs_vcs s ! a)"
    and fin: "vc_fin_received (rs_vcs s ! a)" and bound: "length (sent c) + 1 < 2 ^ 64"
  shows "conn_inv sent (upd_vc a (close_write_half False) s)"
proof -
  note e = conn_inv_entry [OF inv c]
  have "conn_ok (sent c) (close_write_half False (rs_vcs s ! a))
      \<and> conn_live (sent c) (close_write_half False (rs_vcs s ! a))"
    using e tcp fin bound syn by (intro close_write_half_ok) simp_all
  with e show ?thesis by (intro conn_inv_upd_ex [OF inv e(1)]) simp_all
qed

lemma half_close_conn_inv:
  assumes inv: "conn_inv sent s" and c: "tget (rs_conns s) c = Some a" and tcp: "\<not> vc_is_udp (rs_vcs s ! a)"
    and bound: "length (sent c) + 1 < 2 ^ 64" and q: "q = word_of_nat (length (sent c) + 1)"
  shows "conn_inv sent (half_close_conn a q s)"
proof -
  note e = conn_inv_entry [OF inv c]
  obtain t vc where h: "start_half_close q (rs_vcs s ! a) = (t, vc)" by (cases "start_half_close q (rs_vcs s ! a)")
  have ok: "conn_ok (sent c) vc \<and> conn_live (sent c) vc \<and> vc_is_udp vc = vc_is_udp (rs_vcs s ! a) \<and> vc_fin_received vc"
    by (rule start_half_close_ok [OF e(3) _ tcp bound q h]) (simp add: e)
  have cid: "vc_cid vc = vc_cid (rs_vcs s ! a)"
    using h by (auto simp: start_half_close_def split: if_splits)
  have s1: "conn_inv sent (upd_vc a (\<lambda>_. vc) s)"
    using ok cid e by (intro conn_inv_upd [OF inv e(1)]) simp_all
  have "conn_inv sent ((upd_vc a (\<lambda>_. vc) s)\<lparr>rs_timers := a # rs_timers (upd_vc a (\<lambda>_. vc) s)\<rparr>)"
    using conn_inv_entry [OF s1] conn_inv_vc [OF s1] conn_inv_timer [OF s1] ok e(1)
    by (intro conn_inv_exI) auto
  with s1 h show ?thesis by (simp add: half_close_conn_def Let_def)
qed

lemma data_established_conn_inv:
  assumes inv: "conn_inv sent s" and c: "tget (rs_conns s) (conn_id f) = Some a"
    and lg: "legit sent f" and data: "has_flag f FLAG_DATA"
  shows "conn_inv sent (data_established now a f s)"
proof -
  note e = conn_inv_entry [OF inv c]
  have live: "conn_live (sent (conn_id f)) (rs_vcs s ! a)" using e by simp
  note ld = legit_data [OF lg data]
  show ?thesis
  proof (cases "vc_is_udp (rs_vcs s ! a)")
    case True
    let ?s = "forward_udp_datagram a (payload f) s"
    have "conn_inv sent (upd_vc a (note_recv now (length (payload f))) ?s)"
      by (rule conn_inv_upd [where X = "{}"]) (use inv e in simp_all)
    with True show ?thesis by (simp add: data_established_def)
  next
    case False
    obtain r vc where d: "deliver (seq f) (payload f) (rs_vcs s ! a) = (r, vc)"
      by (cases "deliver (seq f) (payload f) (rs_vcs s ! a)")
    note ok = deliver_ok [OF e(3) live False _ _ d] ld
    have cid: "vc_cid vc = vc_cid (rs_vcs s ! a)" by (rule deliver_cid [OF d])
    let ?s1 = "upd_vc a (\<lambda>_. vc) s"
    have ex: "conn_inv_ex sent {a} ?s1"
      using ok cid e by (intro conn_inv_upd [OF inv e(1)]) auto
    have s1: "conn_inv sent ?s1" if "r \<noteq> EgressFailed" "r = Delivered \<longrightarrow> \<not> vc_fin_received (rs_vcs s ! a)"
      using ok cid e that by (intro conn_inv_upd [OF inv e(1)]) auto
    have reset: "conn_inv sent (reset_data_conn now (conn_id f) ?s1)"
      using remove_conn_inv [of sent "{a}" "tombstone now (conn_id f) ?s1" "conn_id f"] ex c
      by (simp add: reset_data_conn_def)
    let ?s2 = "upd_vc a (note_recv now (length (payload f))) ?s1"
    have s2: "conn_inv sent ?s2" if "r = Delivered" "\<not> vc_fin_received (rs_vcs s ! a)"
      by (rule conn_inv_upd [OF s1]) (use that e ok cid in auto)
    have s2': "conn_inv_ex sent {a} ?s2"
      by (rule conn_inv_upd [OF ex]) (use e ok cid in auto)
    have fin: "conn_inv sent (finish_if_done now a (conn_id f) (upd_vc a (close_write_half False) ?s2))"
      if "r = Delivered" "vc_fin_received vc"
      using e ok ld that False by (intro finish_if_done_inv close_conn_inv [OF s2', where c = "conn_id f"]) (auto simp: c)
    show ?thesis
      using s1 s2 fin reset d False e ok ld by (cases r) (auto simp: data_established_def Let_def)
  qed
qed

lemma data_unknown_conn_inv:
  assumes inv: "conn_inv sent s" and pinv: "pend_inv Q s" and none: "tget (rs_conns s) (conn_id f) = None"
  shows "conn_inv sent (data_unknown now f s)"
proof -
  have keep: "conn_inv sent s1 \<and> rs_conns s1 = rs_conns s"
    if "try_reserve_pending now ex n s = (ok, s1)" for ex n ok s1
    using try_reserve_spec [OF pinv that] inv conn_inv_cong [of s1 s sent "{}"] by simp
  then show ?thesis
    using inv none
    by (auto simp: data_unknown_def Let_def split: prod.splits option.splits bool.splits dest!: keep)
qed

lemma handle_data_conn_inv:
  "conn_inv sent s \<Longrightarrow> pend_inv Q s \<Longrightarrow> legit sent f \<Longrightarrow> has_flag f FLAG_DATA \<Longrightarrow> conn_inv sent (handle_data now f s)"
  by (cases "tget (rs_conns s) (conn_id f)")
     (simp_all add: handle_data_def data_established_conn_inv data_unknown_conn_inv)

lemma handle_fin_conn_inv:
  assumes inv: "conn_inv sent s" and lg: "legit sent f" and fl: "has_flag f FLAG_FIN" "\<not> has_flag f FLAG_DATA"
  shows "conn_inv sent (handle_fin now f s)"
proof (cases "tget (rs_conns s) (conn_id f)")
  case None
  with inv show ?thesis by (auto simp: handle_fin_def Let_def split: option.splits)
next
  case (Some a)
  then show ?thesis
    using inv lg fl by (auto simp: handle_fin_def legit_def intro!: finish_if_done_inv half_close_conn_inv)
qed

lemma handle_rst_conn_inv: "conn_inv sent s \<Longrightarrow> conn_inv sent (handle_rst now f s)"
  by (simp add: handle_rst_def Let_def remove_conn_inv)

lemma replay_ok:
  assumes "conn_ok ps vc" and "conn_live ps vc" and "\<not> vc_is_udp vc" and "\<not> vc_fin_received vc"
    and "length ps + 1 < 2 ^ 64" and "replay fs fin vc = (res, fin', vc')"
    and "\<forall>f \<in> set fs. (has_flag f FLAG_DATA \<longrightarrow> in_stream ps (seq f) (payload f))
           \<and> (has_flag f FLAG_FIN \<and> \<not> has_flag f FLAG_DATA \<longrightarrow> seq f = word_of_nat (length ps + 1))"
    and "\<forall>q. fin = Some q \<longrightarrow> q = word_of_nat (length ps + 1)"
  shows "conn_ok ps vc' \<and> vc_cid vc' = vc_cid vc \<and> \<not> vc_is_udp vc' \<and> \<not> vc_fin_received vc'
    \<and> res \<noteq> ReplayPanic \<and> (res = ReplayOk \<longrightarrow> conn_live ps vc')
    \<and> (\<forall>q. fin' = Some q \<longrightarrow> q = word_of_nat (length ps + 1))"
  using assms
proof (induction fs fin vc rule: replay.induct)
  case (1 fin vc)
  then show ?case by simp
next
  case (2 f fs fin vc)
  have frames: "\<forall>f \<in> set fs. (has_flag f FLAG_DATA \<longrightarrow> in_stream ps (seq f) (payload f))
           \<and> (has_flag f FLAG_FIN \<and> \<not> has_flag f FLAG_DATA \<longrightarrow> seq f = word_of_nat (length ps + 1))"
    using "2.prems"(7) by (meson list.set_intros(2))
  show ?case
  proof (cases "has_flag f FLAG_DATA")
    case True
    obtain r v1 where d: "deliver (seq f) (payload f) vc = (r, v1)" by (cases "deliver (seq f) (payload f) vc")
    have ok: "conn_ok ps v1 \<and> r \<noteq> Panicked \<and> vc_is_udp v1 = vc_is_udp vc
        \<and> vc_fin_received v1 = vc_fin_received vc \<and> (r \<noteq> EgressFailed \<longrightarrow> conn_live ps v1)"
      using deliver_ok [OF "2.prems"(1,2,3) _ "2.prems"(5) d] "2.prems"(4,7) True by auto
    note cid = deliver_cid [OF d]
    show ?thesis
    proof (cases "r \<in> {Rejected, Delivered}")
      case go: True
      then have rest: "replay fs fin v1 = (res, fin', vc')"
        using "2.prems"(4,6) True d ok by auto
      have IH: "conn_ok ps vc' \<and> vc_cid vc' = vc_cid v1 \<and> \<not> vc_is_udp vc' \<and> \<not> vc_fin_received vc'
          \<and> res \<noteq> ReplayPanic \<and> (res = ReplayOk \<longrightarrow> conn_live ps vc')
          \<and> (\<forall>q. fin' = Some q \<longrightarrow> q = word_of_nat (length ps + 1))"
        using go
      proof (elim insertE)
        assume r: "r = Rejected"
        show ?thesis
          by (rule "2.IH"(2) [OF True d [symmetric] r]) (use ok r rest "2.prems" in auto)
      next
        assume r: "r = Delivered"
        have eq: "(if vc_fin_received v1 then close_write_half False v1 else v1) = v1"
          using ok "2.prems"(4) by simp
        show ?thesis
          by (rule "2.IH"(1) [OF True d [symmetric] r, unfolded eq]) (use ok r rest "2.prems" in auto)
      qed simp
      with cid show ?thesis by simp
    next
      case False
      then have "res = ReplayReset" "fin' = fin" "vc' = v1"
        using ok "2.prems"(6) True d by (cases r; simp)+
      with ok "2.prems"(3,4,8) cid show ?thesis by simp
    qed
  next
    case False
    show ?thesis
    proof (cases "has_flag f FLAG_FIN")
      case True
      with False "2.prems"(6) have r: "replay fs (Some (seq f)) vc = (res, fin', vc')" by simp
      have "\<forall>q. Some (seq f) = Some q \<longrightarrow> q = word_of_nat (length ps + 1)"
        using "2.prems"(7) False True by simp
      from "2.IH"(3) [OF False True "2.prems"(1-5) r frames this] show ?thesis .
    next
      case no: False
      with False "2.prems"(6) have r: "replay fs fin vc = (res, fin', vc')" by simp
      from "2.IH"(4) [OF False no "2.prems"(1-5) r frames "2.prems"(8)] show ?thesis .
    qed
  qed
qed

lemma syn_drain_conn_inv:
  assumes inv: "conn_inv sent s" and c: "tget (rs_conns s) c = Some a"
    and fresh: "\<not> vc_is_udp (rs_vcs s ! a)" "\<not> vc_fin_received (rs_vcs s ! a)"
    and bound: "length (sent c) + 1 < 2 ^ 64"
    and fs: "\<forall>f \<in> set fs. conn_id f = c \<and> legit sent f"
  shows "conn_inv sent (syn_drain now c a fs s)"
proof -
  note e = conn_inv_entry [OF inv c]
  obtain res fin vc where r: "replay fs None (rs_vcs s ! a) = (res, fin, vc)" by (metis prod_cases3)
  have ok: "conn_ok (sent c) vc \<and> vc_cid vc = vc_cid (rs_vcs s ! a) \<and> \<not> vc_is_udp vc \<and> \<not> vc_fin_received vc
    \<and> res \<noteq> ReplayPanic \<and> (res = ReplayOk \<longrightarrow> conn_live (sent c) vc)
    \<and> (\<forall>q. fin = Some q \<longrightarrow> q = word_of_nat (length (sent c) + 1))"
    by (rule replay_ok [OF e(3) _ fresh bound r]) (use e fs in \<open>auto simp: legit_def\<close>)
  let ?s = "upd_vc a (\<lambda>_. vc) s"
  have ex: "conn_inv_ex sent {a} ?s" using ok e fresh by (intro conn_inv_upd [OF inv e(1)]) auto
  have s1: "conn_inv sent ?s" if "res = ReplayOk"
    using ok e fresh that by (intro conn_inv_upd [OF inv e(1)]) auto
  have reset: "conn_inv sent (remove_conn c ?s)" by (rule remove_conn_inv [OF ex]) (simp add: c)
  have half: "conn_inv sent (half_close_conn a q ?s)" if "res = ReplayOk" "fin = Some q" for q
    using ok that e c bound by (intro half_close_conn_inv [OF s1, where c = c]) auto
  show ?thesis
    using r ok s1 reset half
    by (auto simp: syn_drain_def Let_def finish_if_done_inv split: option.splits replay_end.splits)
qed

lemma syn_fail_conn_inv: "conn_inv sent s \<Longrightarrow> conn_inv sent (syn_fail now c s)"
  by (simp add: syn_fail_def)

lemma syn_abort_conn_inv: "conn_inv sent s \<Longrightarrow> conn_inv sent (syn_abort c s)"
  by (simp add: syn_abort_def)

lemma syn_begin_conn_inv: "conn_inv sent s \<Longrightarrow> conn_inv sent (syn_begin now permit f s)"
  by (auto simp: syn_begin_def Let_def syn_fail_conn_inv syn_abort_conn_inv split: sum.splits)

lemma remove_pending_conns:
  "remove_pending c s = (r, s') \<Longrightarrow> rs_conns s' = rs_conns s \<and> rs_vcs s' = rs_vcs s \<and> rs_timers s' = rs_timers s"
  by (auto simp: remove_pending_def split: option.splits)

lemma remove_pending_conn_inv: "remove_pending c s = (r, s') \<Longrightarrow> conn_inv_ex sent X s' = conn_inv_ex sent X s"
  by (rule conn_inv_cong) (auto dest: remove_pending_conns)

lemma syn_udp_bound_conn_inv:
  assumes "conn_inv sent s"
  shows "conn_inv sent (syn_udp_bound now c b s)"
proof (cases b)
  case None
  with assms show ?thesis by (simp add: syn_udp_bound_def syn_fail_conn_inv)
next
  case (Some v6)
  let ?s = "insert_conn c (new_udp_vconn c (rs_window s) v6 now) s"
  have s1: "conn_inv sent ?s"
    by (rule insert_conn_inv [OF assms])
       (simp_all add: new_udp_vconn_ok, simp add: new_udp_vconn_def new_vconn_def)
  obtain e s2 where r: "remove_pending c ?s = (e, s2)" by (cases "remove_pending c ?s")
  have s2: "conn_inv sent s2" using s1 remove_pending_conn_inv [OF r] by simp
  with r Some show ?thesis
    by (auto simp: syn_udp_bound_def syn_cancelled_def Let_def remove_conn_inv split: option.splits)
qed

lemma syn_connected_conn_inv:
  assumes inv: "conn_inv sent s" and pend: "pend_inv (legit sent) s" and bound: "length (sent c) + 1 < 2 ^ 64"
  shows "conn_inv sent (syn_connected now c r s)"
proof (cases "r = ConnOk \<and> \<not> thas (rs_closed s) c")
  case False
  with inv show ?thesis
    by (auto simp: syn_connected_def syn_fail_conn_inv syn_abort_conn_inv split: connect_result.splits)
next
  case True
  let ?s = "insert_conn c (new_tcp_vconn c (rs_window s) now) s" and ?a = "length (rs_vcs s)"
  have s1: "conn_inv sent ?s"
    by (rule insert_conn_inv [OF inv])
       (simp_all add: new_tcp_vconn_ok, simp add: new_tcp_vconn_def new_vconn_def)
  obtain e s2 where r: "remove_pending c ?s = (e, s2)" by (cases "remove_pending c ?s")
  have s2: "conn_inv sent s2" using s1 remove_pending_conn_inv [OF r] by simp
  have at: "tget (rs_conns s2) c = Some ?a" "rs_vcs s2 ! ?a = new_tcp_vconn c (rs_window s) now"
    using remove_pending_conns [OF r] by (simp_all add: insert_conn_def tget_tins)
  have drain: "conn_inv sent (syn_drain now c ?a (pe_frames e') s2)" if "e = Some e'" for e'
  proof (rule syn_drain_conn_inv [OF s2 at(1) _ _ bound])
    have "tget (rs_pending s) c = Some e'"
      using r that by (auto simp: remove_pending_def insert_conn_def split: option.splits)
    then have "entry_ok (legit sent) c e'" using pend by (simp add: pend_inv_def pend_ok_def)
    then show "\<forall>f \<in> set (pe_frames e'). conn_id f = c \<and> legit sent f" by (auto simp: entry_ok_def)
  qed (simp_all add: at(2) new_tcp_vconn_def new_vconn_def)
  show ?thesis
    using True r s2 drain
    by (auto simp: syn_connected_def syn_cancelled_def Let_def remove_conn_inv split: option.splits)
qed

lemma dispatch_conn_inv:
  "conn_inv sent s \<Longrightarrow> pend_inv Q s \<Longrightarrow> legit sent f \<Longrightarrow> conn_inv sent (dispatch_frame now f s)"
  by (simp add: dispatch_frame_def handle_frame_def syn_begin_conn_inv handle_data_conn_inv
      handle_fin_conn_inv handle_rst_conn_inv)

text \<open>Updates of a connection's task state and counters, which the invariants do not mention.\<close>

definition plain :: "(vconn \<Rightarrow> vconn) \<Rightarrow> bool" where
  "plain g \<longleftrightarrow> (\<forall>vc ps. vc_cid (g vc) = vc_cid vc \<and> conn_ok ps (g vc) = conn_ok ps vc
     \<and> conn_live ps (g vc) = conn_live ps vc \<and> vc_fin_received (g vc) = vc_fin_received vc)"

lemmas vc_parts = conn_ok_def kind_ok_def data_ok_def close_ok_def conn_live_def conn_synced_def

lemma plain_simps [simp]:
  "plain (\<lambda>vc. vc\<lparr>vc_cancel := False, vc_rd_done := True\<rparr>)" "plain (\<lambda>vc. vc\<lparr>vc_rd_done := True\<rparr>)"
  "plain (\<lambda>vc. vc\<lparr>vc_rd_done := True, vc_egress_eof := True, vc_fin_sent := True\<rparr>)"
  "plain (\<lambda>vc. vc\<lparr>vc_rd_done := True, vc_egress_eof := True\<rparr>)"
  "plain (\<lambda>vc. (note_sent now n vc)\<lparr>vc_rd_seq := q vc, vc_sent := ys vc\<rparr>)"
  "plain (\<lambda>vc. vc\<lparr>vc_rd_seq := q vc, vc_sent := ys vc\<rparr>)" "plain (note_sent now n)" "plain signal_teardown"
  by (simp_all add: plain_def) (simp_all add: vc_parts note_sent_def)

lemma plain_upd:
  assumes "plain g" and "conn_inv sent s" and "a < length (rs_vcs s)"
  shows "conn_inv sent (upd_vc a g s)"
  by (rule conn_inv_upd [OF assms(2,3)])
     (use assms(1) conn_inv_vc [OF assms(2,3)] in \<open>simp_all add: plain_def\<close>)

lemma remove_conn_length [simp]: "length (rs_vcs (remove_conn c s)) = length (rs_vcs s)"
  by (simp add: remove_conn_def split: option.splits)

lemma reader_step_conn_inv:
  assumes inv: "conn_inv sent s" and a: "a < length (rs_vcs s)"
  shows "conn_inv sent (reader_step rnd now a ev s)"
proof -
  have rm: "conn_inv sent (remove_conn c (tombstone now c s))" for c
    using inv by (intro remove_conn_inv) auto
  show ?thesis
  proof (cases ev)
    case RCancel
    with inv a show ?thesis by (simp add: reader_step_def Let_def plain_upd)
  next
    case (RData bs ok)
    with inv a rm show ?thesis
      by (simp add: reader_step_def Let_def plain_upd split: prod.splits async_outcome.splits)
  next
    case (REof ok)
    with inv a show ?thesis
      by (simp add: reader_step_def Let_def plain_upd finish_if_done_inv split: prod.splits async_outcome.splits)
  qed
qed

lemma udp_reader_step_conn_inv:
  assumes inv: "conn_inv sent s" and a: "a < length (rs_vcs s)"
  shows "conn_inv sent (udp_reader_step now a ev s)"
proof (cases ev)
  case (URecv src dat)
  let ?vc = "rs_vcs s ! a"
  have s1: "conn_inv sent (upd_vc a (\<lambda>vc. vc\<lparr>vc_rd_seq := vc_rd_seq vc + 1, vc_sent := vc_sent vc @ [d]\<rparr>) (s\<lparr>rs_pool := p, rs_emitted := e\<rparr>))"
    for d p e using inv a by (intro plain_upd) simp_all
  have s2: "conn_inv sent (upd_vc b (note_sent now n) t)" if "conn_inv sent t" "tget (rs_conns t) c = Some b" for b n t c
    using that conn_inv_entry(1) [OF that] by (intro plain_upd) simp_all
  show ?thesis
    unfolding URecv udp_reader_step_def Let_def using inv
    by (auto split: sum.splits prod.splits bool.splits option.splits intro!: s2 [OF s1] s1)
qed (use inv a in \<open>simp_all add: udp_reader_step_def Let_def plain_upd\<close>)

lemma sweep_conn_conn_inv: "conn_inv sent s \<Longrightarrow> conn_inv sent (sweep_conn now ca s)"
  by (auto simp: sweep_conn_def intro!: remove_conn_inv)

lemma fold_sweep_conn_conn_inv: "conn_inv sent s \<Longrightarrow> conn_inv sent (fold (sweep_conn now) cs s)"
  by (induction cs arbitrary: s) (simp_all add: sweep_conn_conn_inv)

lemma heartbeat_conn_inv: "conn_inv sent s \<Longrightarrow> conn_inv sent (heartbeat now now_ms s)"
  by (simp add: heartbeat_def sweep_stale_pending_def Let_def fold_sweep_conn_conn_inv)

lemma writer_conn_inv:
  assumes inv: "conn_inv sent s" and a: "a < length (rs_vcs s)"
  shows "conn_inv sent (upd_vc a (writer_step dr e) s)"
  by (rule conn_inv_upd [OF inv a])
     (use conn_inv_vc [OF inv a] in \<open>simp_all add: writer_step_fields writer_step_ok writer_step_live\<close>)

lemma force_conn_inv:
  assumes inv: "conn_inv sent s" and a: "a \<in> set (rs_timers s)"
  shows "conn_inv sent (upd_vc a (close_write_half True) (s\<lparr>rs_timers := remove1 a (rs_timers s)\<rparr>))"
proof -
  note t = conn_inv_timer [OF inv a]
  have "conn_inv sent (upd_vc a (close_write_half True) s)"
    by (rule conn_inv_upd [OF inv])
       (use t conn_inv_vc [OF inv] in \<open>simp_all add: force_close_ok conn_live_def [of _ "rs_vcs s ! a"] close_write_half_parts\<close>)
  moreover have "upd_vc a g (s\<lparr>rs_timers := r\<rparr>) = (upd_vc a g s)\<lparr>rs_timers := r\<rparr>" for g r
    by (simp add: upd_vc_def)
  ultimately show ?thesis
    by (auto simp: conn_inv_ex_def dest: notin_set_remove1)
qed

lemma rs_exec_conn_inv:
  assumes inv: "conn_inv sent s" and pend: "pend_inv (legit sent) s"
    and bound: "\<And>c. length (sent c) + 1 < 2 ^ 64" and lg: "\<And>i now ms f. ev = EvFrame i now ms f \<Longrightarrow> legit sent f"
  shows "conn_inv sent (rs_exec ev s)"
proof (cases ev)
  case (EvFrame i now ms f)
  with inv pend lg show ?thesis by (simp add: rs_exec_def read_link_frame_def Let_def dispatch_conn_inv)
next
  case (EvBound now i b)
  with inv show ?thesis by (auto simp: rs_exec_def syn_udp_bound_conn_inv split: option.splits)
next
  case (EvConnect now i r)
  with inv pend bound show ?thesis by (auto simp: rs_exec_def syn_connected_conn_inv split: option.splits)
qed (use inv in \<open>simp_all add: rs_exec_def reader_step_conn_inv udp_reader_step_conn_inv writer_conn_inv
      force_conn_inv heartbeat_conn_inv accept_link_def link_lost_def link_ended_def\<close>)

end
