(* ===== verification/Sender.thy ===== *)
theory Sender
  imports Reorder
begin

text \<open>
  The sending half of a virtual connection, which both ends have: the splitter numbers the chunks
  of a client, the reassembler the chunks of a target.  The locale \<open>sender\<close> is what the two share: a
  connection has an identifier, the chunks it has sent and whether it has sent its FIN, \<open>syn\<close> tells
  which SYN payloads announce it, and \<open>le\<close> says how it may evolve.  From that follows that frames once sent stay true to their connection,
  and that what a sender puts on the tunnels is legitimate for the receiver at the other end.
\<close>

locale sender =
  fixes cid :: "'c \<Rightarrow> u32" and sent :: "'c \<Rightarrow> bytes list" and fin :: "'c \<Rightarrow> bool"
    and syn :: "'c \<Rightarrow> bytes \<Rightarrow> bool" and le :: "'c \<Rightarrow> 'c \<Rightarrow> bool"
  assumes le_cid: "le c c' \<Longrightarrow> cid c' = cid c"
    and le_sent: "le c c' \<Longrightarrow> \<exists>more. sent c' = sent c @ more \<and> (fin c \<longrightarrow> more = [])"
    and le_fin: "le c c' \<Longrightarrow> fin c \<Longrightarrow> fin c'"
    and le_syn: "le c c' \<Longrightarrow> syn c p \<Longrightarrow> syn c' p"
begin

definition own_frame :: "'c \<Rightarrow> frame \<Rightarrow> bool" where
  "own_frame c f \<longleftrightarrow>
     (if has_flag f FLAG_DATA
      then (\<exists>i < length (sent c). seq f = word_of_nat (Suc i) \<and> payload f = sent c ! i)
      else fin c \<and> seq f = word_of_nat (Suc (length (sent c))))"

definition emit_ok :: "'c list \<Rightarrow> frame \<Rightarrow> bool" where
  "emit_ok cs f \<longleftrightarrow>
     (has_flag f FLAG_DATA \<or> has_flag f FLAG_FIN \<longrightarrow> (\<exists>c \<in> set cs. cid c = conn_id f \<and> own_frame c f))
     \<and> (has_flag f FLAG_SYN \<longrightarrow> (\<exists>c \<in> set cs. cid c = conn_id f \<and> syn c (payload f)))
     \<and> (has_flag f FLAG_SYN \<or> length (payload f) \<le> MAX_PAYLOAD)"

definition sent_by :: "'c list \<Rightarrow> u32 \<Rightarrow> bytes list" where
  "sent_by cs i = (case find (\<lambda>c. cid c = i) cs of Some c \<Rightarrow> sent c | None \<Rightarrow> [])"

lemma own_frame_mono:
  assumes "own_frame c f" and "le c c'"
  shows "own_frame c' f"
proof -
  obtain more where "sent c' = sent c @ more" "fin c \<longrightarrow> more = []" using le_sent [OF assms(2)] by blast
  then show ?thesis using assms(1) le_fin [OF assms(2)] by (auto simp: own_frame_def nth_append split: if_splits)
qed

lemma some_conn_upd:
  assumes "\<exists>c \<in> set cs. cid c = j \<and> P c" and "le (cs ! a) c'" and "\<And>c. le c c' \<Longrightarrow> P c \<Longrightarrow> P c'"
  shows "\<exists>c \<in> set (cs[a := c']). cid c = j \<and> P c"
proof -
  from assms(1) obtain i where i: "i < length cs" "cid (cs ! i) = j" "P (cs ! i)"
    by (auto simp: in_set_conv_nth)
  then have "cid (cs[a := c'] ! i) = j \<and> P (cs[a := c'] ! i)"
    using assms(3) [OF assms(2)] le_cid [OF assms(2)] by (cases "i = a") auto
  with i(1) show ?thesis by (metis length_list_update nth_mem)
qed

lemma emit_ok_upd:
  assumes "emit_ok cs f" and "le (cs ! a) c'"
  shows "emit_ok (cs[a := c']) f"
  using assms(1) some_conn_upd [of cs "conn_id f" "\<lambda>c. own_frame c f", OF _ assms(2)] own_frame_mono
    some_conn_upd [of cs "conn_id f" "\<lambda>c. syn c (payload f)", OF _ assms(2)] le_syn
  by (simp add: emit_ok_def)

lemma emit_ok_append: "emit_ok cs f \<Longrightarrow> emit_ok (cs @ ds) f"
  by (auto simp: emit_ok_def)

lemma emit_ok_rst [simp]: "emit_ok cs (frame_rst i)"
  by (simp add: emit_ok_def frame_rst_def has_flag_def flag_defs)

lemma emit_ok_syn: "c \<in> set cs \<Longrightarrow> syn c p \<Longrightarrow> emit_ok cs (frame_syn (cid c) p)"
  by (auto simp: emit_ok_def has_flag_def frame_syn_def flag_defs)

lemma emit_ok_member:
  "a < length cs \<Longrightarrow> cid (cs ! a) = conn_id f \<Longrightarrow> own_frame (cs ! a) f \<Longrightarrow> \<not> has_flag f FLAG_SYN \<Longrightarrow>
     length (payload f) \<le> MAX_PAYLOAD \<Longrightarrow> emit_ok cs f"
  by (auto simp: emit_ok_def)

lemma sent_by_conn:
  assumes "distinct (map cid cs)" and "c \<in> set cs"
  shows "sent_by cs (cid c) = sent c"
proof -
  have "find (\<lambda>d. cid d = cid c) cs = Some c"
    using assms by (induction cs) (auto simp: image_iff)
  then show ?thesis by (simp add: sent_by_def)
qed

lemma emit_ok_legit:
  assumes e: "emit_ok cs f" and d: "distinct (map cid cs)" and bound: "\<And>i. length (sent_by cs i) + 1 < 2 ^ 64"
  shows "legit (sent_by cs) f"
proof -
  have small: "unat (word_of_nat k :: u64) = k" if "k < 2 ^ 64" for k using that by (simp add: unat_of_nat)
  have "in_stream (sent_by cs (conn_id f)) (seq f) (payload f)" if data: "has_flag f FLAG_DATA"
  proof -
    from e data obtain c i where c: "c \<in> set cs" "cid c = conn_id f" "i < length (sent c)"
      "seq f = word_of_nat (Suc i)" "payload f = sent c ! i" by (auto simp: emit_ok_def own_frame_def)
    have "sent_by cs (conn_id f) = sent c" using sent_by_conn [OF d c(1)] c(2) by simp
    then show ?thesis using c bound [of "conn_id f"] small [of "Suc i"] by (simp add: in_stream_def del: of_nat_Suc)
  qed
  moreover have "seq f = word_of_nat (length (sent_by cs (conn_id f)) + 1)"
    if fin: "has_flag f FLAG_FIN" "\<not> has_flag f FLAG_DATA"
  proof -
    from e fin obtain c where c: "c \<in> set cs" "cid c = conn_id f"
      "seq f = word_of_nat (Suc (length (sent c)))" by (auto simp: emit_ok_def own_frame_def)
    then show ?thesis using sent_by_conn [OF d c(1)] by simp
  qed
  ultimately show ?thesis using bound by (simp add: legit_def)
qed

end

end
