(* ===== verification/ReassemblerEmit.thy ===== *)
theory ReassemblerEmit
  imports ReassemblerInv Sender
begin

text \<open>
  The sending half of the reassembler.  \<open>rs_emit\<close>, kept by every event: every DATA frame that a link
  accepted is a chunk its target sent, with its number, and every FIN carries the number after the
  last chunk.
\<close>

subsection \<open>The invariant\<close>

definition vc_le :: "vconn \<Rightarrow> vconn \<Rightarrow> bool" where
  "vc_le vc vc' \<longleftrightarrow> vc_cid vc' = vc_cid vc
     \<and> (\<exists>more. vc_sent vc' = vc_sent vc @ more \<and> (vc_fin_sent vc \<longrightarrow> more = []))
     \<and> (vc_fin_sent vc \<longrightarrow> vc_fin_sent vc')"

interpretation tg: sender vc_cid vc_sent vc_fin_sent "\<lambda>_ _. False" vc_le
  by unfold_locales (auto simp: vc_le_def)

definition rd_ok :: "vconn \<Rightarrow> bool" where
  "rd_ok vc \<longleftrightarrow> vc_rd_seq vc = word_of_nat (Suc (length (vc_sent vc))) \<and> (vc_fin_sent vc \<longrightarrow> vc_rd_done vc)"

text \<open>\<open>F\<close> is a set of frames already emitted: with it the invariant also says that none is forgotten.\<close>

definition rs_emit :: "frame set \<Rightarrow> rs \<Rightarrow> bool" where
  "rs_emit F s \<longleftrightarrow> F \<subseteq> set (rs_emitted s) \<and> rs_chunk_size s \<le> MAX_PAYLOAD \<and> (\<forall>vc \<in> set (rs_vcs s). rd_ok vc)
     \<and> (\<forall>f \<in> set (rs_emitted s). tg.emit_ok (rs_vcs s) f)"

text \<open>A change that touches nothing of the reader.\<close>

definition vq :: "vconn \<Rightarrow> vconn \<Rightarrow> bool" where
  "vq vc vc' \<longleftrightarrow> vc_cid vc' = vc_cid vc \<and> vc_sent vc' = vc_sent vc \<and> vc_rd_seq vc' = vc_rd_seq vc
     \<and> vc_fin_sent vc' = vc_fin_sent vc \<and> (vc_rd_done vc \<longrightarrow> vc_rd_done vc')"

lemma vq_refl [simp]: "vq vc vc"
  by (simp add: vq_def)

lemma vq_trans: "vq a b \<Longrightarrow> vq b c \<Longrightarrow> vq a c"
  by (simp add: vq_def)

lemma rs_emit_upd:
  assumes "rs_emit F s" and "a < length (rs_vcs s)" and "vc_le (rs_vcs s ! a) (g (rs_vcs s ! a))" and "rd_ok (g (rs_vcs s ! a))"
  shows "rs_emit F (upd_vc a g s)"
  using assms tg.emit_ok_upd set_update_subset_insert by (fastforce simp: rs_emit_def upd_vc_def)

lemma rs_emit_quiet:
  assumes inv: "rs_emit F s" and q: "vq (rs_vcs s ! a) (g (rs_vcs s ! a))"
  shows "rs_emit F (upd_vc a g s)"
proof (cases "a < length (rs_vcs s)")
  case True
  then have "rd_ok (rs_vcs s ! a)" using inv by (simp add: rs_emit_def)
  with q show ?thesis by (intro rs_emit_upd [OF inv True]) (auto simp: vq_def vc_le_def rd_ok_def)
qed (use inv in \<open>simp add: upd_vc_def rs_emit_def list_update_beyond\<close>)

lemma rs_emit_fields [simp]:
  "rs_emit F (s\<lparr>rs_conns := x1\<rparr>) = rs_emit F s" "rs_emit F (s\<lparr>rs_pending := x2\<rparr>) = rs_emit F s"
  "rs_emit F (s\<lparr>rs_closed := x3\<rparr>) = rs_emit F s" "rs_emit F (s\<lparr>rs_handshaking := x4\<rparr>) = rs_emit F s"
  "rs_emit F (s\<lparr>rs_pool := x5\<rparr>) = rs_emit F s" "rs_emit F (s\<lparr>rs_pending_bytes := x6\<rparr>) = rs_emit F s"
  "rs_emit F (s\<lparr>rs_resets := x7\<rparr>) = rs_emit F s" "rs_emit F (s\<lparr>rs_permits := x8\<rparr>) = rs_emit F s"
  "rs_emit F (s\<lparr>rs_tasks := x9\<rparr>) = rs_emit F s" "rs_emit F (s\<lparr>rs_next_task := x10\<rparr>) = rs_emit F s"
  "rs_emit F (s\<lparr>rs_timers := x11\<rparr>) = rs_emit F s" "rs_emit F (s\<lparr>rs_udp_out := x12\<rparr>) = rs_emit F s"
  by (simp_all add: rs_emit_def)

lemma send_ctl_emitted [simp]:
  "rs_emitted (send_ctl f s) = rs_emitted s @ (if fst (pool_send f (rs_pool s)) then [f] else [])"
  "rs_chunk_size (send_ctl f s) = rs_chunk_size s"
  by (simp_all add: send_ctl_def split: prod.split)

lemma send_ctl_emit: "rs_emit F s \<Longrightarrow> tg.emit_ok (rs_vcs s) f \<Longrightarrow> rs_emit F (send_ctl f s)"
  by (auto simp: rs_emit_def)

lemma send_rst_emit [simp]: "rs_emit F s \<Longrightarrow> rs_emit F (send_ctl (frame_rst c) s)"
  by (rule send_ctl_emit) simp_all

lemma prim_emit [simp]:
  "rs_emit F (tombstone n c s) = rs_emit F s" "rs_emit F (end_handshaking c s) = rs_emit F s" "rs_emit F (count_reset s) = rs_emit F s"
  "rs_emit F (notify_task k s) = rs_emit F s" "rs_emit F (end_task i h s) = rs_emit F s" "rs_emit F (cancel_pending c s) = rs_emit F s"
  "rs_emit F (snd (remove_pending c s)) = rs_emit F s" "rs_emit F (forward_udp_datagram a p s) = rs_emit F s"
  "rs_emit F (finish_if_done n a c s) = rs_emit F s"
  by (simp_all add: tombstone_def end_handshaking_def count_reset_def notify_task_def end_task_def cancel_pending_def
      remove_pending_def forward_udp_datagram_def finish_if_done_def split: option.split sum.split prod.split)

subsection \<open>Connections\<close>

lemma vq_ops [simp]:
  "vq vc (signal_teardown vc)" "vq vc (close_write_half b vc)" "vq vc (note_recv n l vc)" "vq vc (note_sent n l vc)"
  by (simp_all add: vq_def signal_teardown_def note_recv_def note_sent_def)

lemma start_half_close_vq: "start_half_close q vc = (t, vc') \<Longrightarrow> vq vc vc'"
  by (auto simp: start_half_close_def vq_def Let_def split: if_splits)

lemma deliver_vq: "deliver q p vc = (r, vc') \<Longrightarrow> vq vc vc'"
  by (auto simp: deliver_def egress_write_all_def vq_def Let_def split: prod.splits if_splits option.splits)

lemma writer_vq: "vq vc (writer_step d e vc)"
  by (auto simp: vq_def writer_step_def end_writer_def Let_def
      split: option.splits writer_event.splits prod.splits wr_result.splits)

lemma replay_vq: "replay fs q vc = (r, q', vc') \<Longrightarrow> vq vc vc'"
proof (induction fs q vc rule: replay.induct)
  case (2 f fs q vc)
  obtain d vc1 where d: "deliver (seq f) (payload f) vc = (d, vc1)" by force
  have "vq vc vc1" using deliver_vq [OF d] .
  moreover from this have "vq vc (close_write_half False vc1)" by (rule vq_trans) simp
  ultimately show ?case using 2 d by (auto split: if_splits delivery.splits intro: vq_trans)
qed simp

lemma remove_conn_emit [simp]: "rs_emit F s \<Longrightarrow> rs_emit F (remove_conn c s)"
  by (auto simp: remove_conn_def intro!: rs_emit_quiet split: option.split)

lemma upd_const_emit: "rs_emit F s \<Longrightarrow> vq (rs_vcs s ! a) vc \<Longrightarrow> rs_emit F (upd_vc a (\<lambda>_. vc) s)"
  by (rule rs_emit_quiet)

lemma half_close_conn_emit [simp]: "rs_emit F s \<Longrightarrow> rs_emit F (half_close_conn a q s)"
  by (auto simp: half_close_conn_def Let_def intro!: upd_const_emit elim: start_half_close_vq split: prod.split)

lemma reset_data_conn_emit [simp]: "rs_emit F s \<Longrightarrow> rs_emit F (reset_data_conn n c s)"
  by (simp add: reset_data_conn_def)

lemma note_emit [simp]: "rs_emit F s \<Longrightarrow> rs_emit F (upd_vc a (note_recv n l) s)"
    "rs_emit F s \<Longrightarrow> rs_emit F (upd_vc a (note_sent n l) s)" "rs_emit F s \<Longrightarrow> rs_emit F (upd_vc a (close_write_half b) s)"
  by (simp_all add: rs_emit_quiet)

lemma data_established_emit [simp]:
  assumes "rs_emit F s"
  shows "rs_emit F (data_established n a f s)"
proof -
  obtain d vc where d: "deliver (seq f) (payload f) (rs_vcs s ! a) = (d, vc)" by force
  then have "rs_emit F (upd_vc a (\<lambda>_. vc) s)" using assms deliver_vq upd_const_emit by blast
  then show ?thesis using assms d by (simp add: data_established_def Let_def split: delivery.split)
qed

subsection \<open>The pending table and the handlers\<close>

lemma drop_pending_emit [simp]: "rs_emit F s \<Longrightarrow> rs_emit F (drop_pending n ke s)"
  by (simp add: drop_pending_def)

lemma fold_emit: "(\<And>x t. rs_emit F t \<Longrightarrow> rs_emit F (g x t)) \<Longrightarrow> rs_emit F s \<Longrightarrow> rs_emit F (fold g xs s)"
  by (induction xs arbitrary: s) simp_all

lemma sweep_stale_pending_emit [simp]: "rs_emit F s \<Longrightarrow> rs_emit F (sweep_stale_pending n t s)"
  by (simp add: sweep_stale_pending_def Let_def fold_emit)

lemma try_reserve_emit: "try_reserve_pending n ex k s = (r, s') \<Longrightarrow> rs_emit F s \<Longrightarrow> rs_emit F s'"
proof (induction n ex k s rule: try_reserve_pending.induct)
  case (1 n ex k s)
  show ?case using "1.prems" "1.IH" by (subst (asm) try_reserve_pending.simps) (auto split: if_splits option.splits)
qed

lemma fail_pending_conn_emit [simp]: "rs_emit F s \<Longrightarrow> rs_emit F (fail_pending_conn n c s)"
  by (simp add: fail_pending_conn_def)

lemma data_unknown_emit [simp]: "rs_emit F s \<Longrightarrow> rs_emit F (data_unknown n f s)"
  by (auto simp: data_unknown_def Let_def dest: try_reserve_emit split: prod.split option.split bool.split)

lemma handlers_emit [simp]:
  "rs_emit F s \<Longrightarrow> rs_emit F (handle_data n f s)" "rs_emit F s \<Longrightarrow> rs_emit F (handle_fin n f s)"
  "rs_emit F s \<Longrightarrow> rs_emit F (handle_rst n f s)" "rs_emit F s \<Longrightarrow> rs_emit F (syn_fail n c s)"
  "rs_emit F s \<Longrightarrow> rs_emit F (syn_abort c s)" "rs_emit F s \<Longrightarrow> rs_emit F (syn_cancelled n c s)"
  by (simp_all add: handle_data_def handle_fin_def handle_rst_def syn_fail_def syn_abort_def syn_cancelled_def Let_def
      split: option.split)

lemma syn_begin_emit [simp]: "rs_emit F s \<Longrightarrow> rs_emit F (syn_begin n p f s)"
  by (simp add: syn_begin_def Let_def split: option.split sum.split)

lemma insert_conn_emit [simp]: "rs_emit F s \<Longrightarrow> rd_ok vc \<Longrightarrow> rs_emit F (insert_conn c vc s)"
  by (auto simp: insert_conn_def rs_emit_def tg.emit_ok_append)

lemma new_rd_ok [simp]: "rd_ok (new_tcp_vconn c w n)" "rd_ok (new_udp_vconn c w v n)"
  by (simp_all add: rd_ok_def new_tcp_vconn_def new_udp_vconn_def new_vconn_def)

lemma remove_pending_emit: "remove_pending c s = (e, s') \<Longrightarrow> rs_emit F s \<Longrightarrow> rs_emit F s'"
  using prim_emit(7) by (metis snd_conv)

lemma syn_udp_bound_emit: "rs_emit F s \<Longrightarrow> rs_emit F (syn_udp_bound n c b s)"
  by (auto simp: syn_udp_bound_def Let_def dest!: remove_pending_emit [of _ _ _ _ F] intro!: fold_emit
      split: option.split prod.split)

lemma syn_drain_emit [simp]:
  assumes "rs_emit F s"
  shows "rs_emit F (syn_drain n c a fs s)"
proof -
  obtain r q vc where r: "replay fs None (rs_vcs s ! a) = (r, q, vc)" by (metis prod_cases3)
  then have "rs_emit F (upd_vc a (\<lambda>_. vc) s)" using assms replay_vq upd_const_emit by blast
  then show ?thesis using r by (simp add: syn_drain_def Let_def split: replay_end.split option.split)
qed

lemma syn_connected_emit: "rs_emit F s \<Longrightarrow> rs_emit F (syn_connected n c r s)"
  by (auto simp: syn_connected_def Let_def dest!: remove_pending_emit [of _ _ _ _ F]
      split: connect_result.split option.split prod.split)

lemma read_link_frame_emit: "rs_emit F s \<Longrightarrow> rs_emit F (read_link_frame i n m f s)"
  by (simp add: read_link_frame_def dispatch_frame_def handle_frame_def Let_def)

subsection \<open>The readers, the heartbeat and the links\<close>

text \<open>A frame goes out and is recorded with its connection.\<close>

lemma rs_emit_record:
  assumes inv: "rs_emit F s" and a: "a < length (rs_vcs s)" and le: "vc_le (rs_vcs s ! a) (g (rs_vcs s ! a))"
    and ok: "rd_ok (g (rs_vcs s ! a))" and s1: "rs_vcs s1 = rs_vcs s" "rs_chunk_size s1 = rs_chunk_size s"
    and f: "rs_emitted s1 = rs_emitted s @ [f]" "vc_cid (rs_vcs s ! a) = conn_id f"
      "tg.own_frame (g (rs_vcs s ! a)) f" "\<not> has_flag f FLAG_SYN" "length (payload f) \<le> MAX_PAYLOAD"
  shows "rs_emit F (upd_vc a g s1)"
proof -
  have s2: "rs_emit F (upd_vc a g s)" using inv a le ok by (rule rs_emit_upd)
  have "g (rs_vcs s ! a) \<in> set (rs_vcs (upd_vc a g s))" using a by (simp add: upd_vc_def set_update_memI)
  then have "tg.emit_ok (rs_vcs (upd_vc a g s)) f" using f le by (auto simp: tg.emit_ok_def vc_le_def)
  with s2 show ?thesis using s1 f(1) by (auto simp: rs_emit_def upd_vc_def)
qed

lemma rs_emit_data:
  assumes inv: "rs_emit F s" and a: "a < length (rs_vcs s)" and rd: "\<not> vc_rd_done (rs_vcs s ! a)"
    and len: "length bs \<le> MAX_PAYLOAD" and h: "\<And>vc. vq vc (h vc)"
  shows "rs_emit F (upd_vc a (\<lambda>vc. (h vc)\<lparr>vc_rd_seq := vc_rd_seq vc + 1, vc_sent := vc_sent vc @ [bs]\<rparr>)
    (s\<lparr>rs_pool := p, rs_emitted := rs_emitted s @ [frame_data (vc_cid (rs_vcs s ! a)) (vc_rd_seq (rs_vcs s ! a)) bs]\<rparr>))"
proof -
  from inv a have ok: "rd_ok (rs_vcs s ! a)" by (simp add: rs_emit_def)
  show ?thesis
    by (rule rs_emit_record [OF inv a, where f = "frame_data (vc_cid (rs_vcs s ! a)) (vc_rd_seq (rs_vcs s ! a)) bs"])
       (use ok rd len h [of "rs_vcs s ! a"] in
          \<open>auto simp: vc_le_def rd_ok_def vq_def tg.own_frame_def add.commute
             intro!: exI [of _ "length (vc_sent (rs_vcs s ! a))"]\<close>)
qed

lemma rs_emit_fin:
  assumes inv: "rs_emit F s" and a: "a < length (rs_vcs s)"
  shows "rs_emit F (upd_vc a (\<lambda>vc. vc\<lparr>vc_rd_done := True, vc_egress_eof := True, vc_fin_sent := True\<rparr>)
    (s\<lparr>rs_pool := p, rs_emitted := rs_emitted s @ [frame_fin (vc_cid (rs_vcs s ! a)) (vc_rd_seq (rs_vcs s ! a))]\<rparr>))"
proof -
  from inv a have ok: "rd_ok (rs_vcs s ! a)" by (simp add: rs_emit_def)
  show ?thesis
    by (rule rs_emit_record [OF inv a, where f = "frame_fin (vc_cid (rs_vcs s ! a)) (vc_rd_seq (rs_vcs s ! a))"])
       (use ok in \<open>auto simp: vc_le_def rd_ok_def tg.own_frame_def\<close>)
qed

lemma rd_flags_emit [simp]:
  "rs_emit F s \<Longrightarrow> rs_emit F (upd_vc a (\<lambda>vc. vc\<lparr>vc_rd_done := True\<rparr>) s)"
  "rs_emit F s \<Longrightarrow> rs_emit F (upd_vc a (\<lambda>vc. vc\<lparr>vc_cancel := False, vc_rd_done := True\<rparr>) s)"
  "rs_emit F s \<Longrightarrow> rs_emit F (upd_vc a (\<lambda>vc. vc\<lparr>vc_rd_done := True, vc_egress_eof := True\<rparr>) s)"
  by (rule rs_emit_quiet; simp add: vq_def)+

lemma reader_step_emit:
  assumes inv: "rs_emit F s" and a: "a < length (rs_vcs s)"
  shows "rs_emit F (reader_step rnd now a ev s)"
proof (cases "vc_is_udp (rs_vcs s ! a) \<or> vc_rd_done (rs_vcs s ! a)")
  case False
  have k: "rs_chunk_size s \<le> MAX_PAYLOAD" using inv by (simp add: rs_emit_def)
  show ?thesis
  proof (cases ev)
    case (RData bs ok)
    then show ?thesis using False inv k a rs_emit_data [OF inv a, where h = "note_sent now (length bs)"]
      by (auto simp: reader_step_def Let_def split: prod.split async_outcome.split)
  qed (use False inv a rs_emit_fin [OF inv a] in
      \<open>auto simp: reader_step_def Let_def split: prod.split async_outcome.split\<close>)
qed (use inv in \<open>auto simp: reader_step_def Let_def\<close>)

lemma udp_reader_step_emit:
  assumes inv: "rs_emit F s" and a: "a < length (rs_vcs s)"
  shows "rs_emit F (udp_reader_step now a ev s)"
  using inv rs_emit_data [OF inv a, where h = "\<lambda>vc. vc"]
  by (auto simp: udp_reader_step_def Let_def split: udp_event.split sum.split prod.split bool.split option.split)

lemma sweep_conn_emit [simp]: "rs_emit F s \<Longrightarrow> rs_emit F (sweep_conn n ca s)"
  by (simp add: sweep_conn_def)

lemma heartbeat_emit: "rs_emit F s \<Longrightarrow> rs_emit F (heartbeat n m s)"
  by (simp add: heartbeat_def Let_def fold_emit)

lemma link_lost_emit:
  assumes "rs_emit F s" and "set lost \<subseteq> set (rs_emitted s)"
  shows "rs_emit F (link_lost i lost s)"
proof -
  have "rs_emit F t \<Longrightarrow> set lost \<subseteq> set (rs_emitted t) \<Longrightarrow> rs_emit F (fold resend_lost lost t)" for t
  proof (induction lost arbitrary: t)
    case (Cons f fs)
    then have "tg.emit_ok (rs_vcs t) f" by (simp add: rs_emit_def)
    with Cons have "rs_emit F (resend_lost f t)" "set fs \<subseteq> set (rs_emitted (resend_lost f t))"
      by (auto simp: resend_lost_def send_ctl_emit)
    then show ?case using Cons.IH by simp
  qed simp
  then show ?thesis using assms by (simp add: link_lost_def)
qed

lemma rs_exec_emit:
  assumes "rs_emit F s" and "\<And>i fs. ev = EvLost i fs \<Longrightarrow> set fs \<subseteq> set (rs_emitted s)"
  shows "rs_emit F (rs_exec ev s)"
  using assms
  by (cases ev) (simp_all add: rs_exec_def read_link_frame_emit syn_udp_bound_emit syn_connected_emit reader_step_emit
      udp_reader_step_emit rs_emit_quiet writer_vq heartbeat_emit accept_link_def link_lost_emit link_ended_def
      split: option.split)

lemma rs_emit_init: "k \<le> MAX_PAYLOAD \<Longrightarrow> rs_emit {} (rs_init w k)"
  by (simp add: rs_emit_def rs_init_def)

lemma rs_emit_now: "rs_emit F s \<Longrightarrow> rs_emit (set (rs_emitted s)) s"
  by (simp add: rs_emit_def)

lemma rs_emitted_mono:
  assumes "rs_emit F s" and "\<And>i fs. ev = EvLost i fs \<Longrightarrow> set fs \<subseteq> set (rs_emitted s)"
  shows "set (rs_emitted s) \<subseteq> set (rs_emitted (rs_exec ev s))"
  using rs_exec_emit [OF rs_emit_now [OF assms(1)] assms(2)] by (simp add: rs_emit_def)

end
