(* ===== verification/Splitter.thy ===== *)
theory Splitter
  imports Reorder Channel Tunnel Socks5
begin

text \<open>
  The splitter of \<open>src/src/splitter.rs\<close>: SOCKS5 clients become virtual connections, client data
  becomes numbered DATA frames spread over the tunnels, frames that come back are put in order
  and written to the client.

  State.  \<open>sp\<close> holds the shared state of \<open>run_splitter\<close>; the \<open>Arc\<close>s of the connections are
  addresses into \<open>sp_vcs\<close>, as in the reassembler.  A connection's record also carries the state
  of its client handler (the phase, the next sequence number) and of its client writer task.
  Ghost fields, read by no operation: \<open>sc_enq\<close> (chunks the client channel accepted), \<open>sc_sent\<close>
  (chunks sent as DATA), \<open>sc_fin_sent\<close>, \<open>sc_target\<close> (what the client asked for), and \<open>sp_emitted\<close> (every frame a tunnel queue accepted).

  Steps.  Everything between two awaits is one step, except that the client writer may take
  chunks between two sends of the loop in \<open>on_frame\<close> (\<open>drains\<close> says when), because that loop
  goes on after a failed send.
\<close>

subsection \<open>State\<close>

definition CLIENT_CHANNEL_CAP :: nat where "CLIENT_CHANNEL_CAP = 512"
definition UDP_CHANNEL_CAP :: nat where "UDP_CHANNEL_CAP = 1024"
definition CLOSE_GRACE_MAX :: nat where "CLOSE_GRACE_MAX = 15 * 1000"
definition CLOSE_QUIET_TIMEOUT :: nat where "CLOSE_QUIET_TIMEOUT = 60 * 1000"
definition FIN_COMPLETE_IDLE_SECS :: nat where "FIN_COMPLETE_IDLE_SECS = 30"
definition SP_TCP_IDLE_TIMEOUT :: nat where "SP_TCP_IDLE_TIMEOUT = 300"
definition SP_UDP_IDLE_TIMEOUT :: nat where "SP_UDP_IDLE_TIMEOUT = 60"
definition TIME_WAIT_TTL :: nat where "TIME_WAIT_TTL = 60 * 1000"
definition MAX_CONCURRENT_CONNS :: nat where "MAX_CONCURRENT_CONNS = 4096"

text \<open>Where a client handler is: in its read loop, in the grace wait after its FIN, at its end.\<close>

datatype phase = Reading | Grace "instant option" | Ended

record sconn =
  sc_cid :: u32
  sc_chan :: "bytes chan"
  sc_reorder :: reorder_buf
  sc_notify :: notify
  sc_closed :: bool
  sc_fin_received :: bool
  sc_fin_seq :: u64
  sc_grace_waiting :: bool
  sc_rst :: bool
  sc_is_udp :: bool
  sc_created_at :: instant
  sc_last_active :: instant
  sc_bytes_sent :: u64
  sc_bytes_recv :: u64
  sc_frames_sent :: u64
  sc_frames_recv :: u64
  sc_phase :: phase
  sc_seq :: u64
  sc_peer :: "socket_addr option"
  sc_out :: bytes
  sc_wr_done :: bool
  sc_udp_out :: "(socket_addr \<times> bytes) list"
  sc_enq :: "bytes list"
  sc_sent :: "bytes list"
  sc_fin_sent :: bool
  sc_target :: syn_target

definition new_sconn :: "u32 \<Rightarrow> syn_target \<Rightarrow> nat \<Rightarrow> nat \<Rightarrow> bool \<Rightarrow> socket_addr option \<Rightarrow> instant \<Rightarrow> sconn" where
  "new_sconn cid target cap window udp peer now =
     \<lparr>sc_cid = cid, sc_chan = new_chan cap, sc_reorder = with_limit window, sc_notify = False,
      sc_closed = False, sc_fin_received = False, sc_fin_seq = 0, sc_grace_waiting = False,
      sc_rst = False, sc_is_udp = udp, sc_created_at = now, sc_last_active = now,
      sc_bytes_sent = 0, sc_bytes_recv = 0, sc_frames_sent = 0, sc_frames_recv = 0,
      sc_phase = Reading, sc_seq = 1, sc_peer = peer, sc_out = [], sc_wr_done = False,
      sc_udp_out = [], sc_enq = [], sc_sent = [], sc_fin_sent = False, sc_target = target\<rparr>"

record sp =
  sp_chunk_size :: nat
  sp_window :: nat
  sp_conns :: "(u32, nat) table"
  sp_vcs :: "sconn list"
  sp_time_wait :: "(u32, instant) table"
  sp_pool :: pool
  sp_resets :: u64
  sp_spawned :: nat
  sp_half_open :: nat
  sp_slot :: notify
  sp_udp_sent :: u64
  sp_udp_recv :: u64
  sp_emitted :: "frame list"

definition sp_init :: "nat \<Rightarrow> nat \<Rightarrow> sp" where
  "sp_init chunk window =
     \<lparr>sp_chunk_size = chunk, sp_window = window, sp_conns = [], sp_vcs = [], sp_time_wait = [],
      sp_pool = pool_new, sp_resets = 0, sp_spawned = 0, sp_half_open = 0, sp_slot = False, sp_udp_sent = 0,
      sp_udp_recv = 0, sp_emitted = []\<rparr>"

subsection \<open>Inbound data\<close>

text \<open>
  The loop of \<open>on_frame\<close> over the ready chunks.  After each send the client writer may take one
  chunk off the channel.  The chunks it took, and whether a send failed.
\<close>

fun client_sends :: "bytes chan \<Rightarrow> bytes list \<Rightarrow> bool list \<Rightarrow> bool \<times> bytes chan \<times> bytes list" where
  "client_sends c [] drains = (False, c, [])"
| "client_sends c (x # xs) drains =
     (let (r, c1) = try_send c x;
          (got, c2) = (case drains of True # _ \<Rightarrow> try_recv c1 | _ \<Rightarrow> (None, c1));
          (ovf, c3, taken) = client_sends c2 xs (tl drains)
      in (r \<noteq> SendOk \<or> ovf, c3, (case got of None \<Rightarrow> taken | Some y \<Rightarrow> y # taken)))"

text \<open>The first component is the result of the source: the connection must be reset.\<close>

definition on_frame :: "instant \<Rightarrow> bool list \<Rightarrow> u64 \<Rightarrow> bytes \<Rightarrow> sconn \<Rightarrow> bool \<times> sconn" where
  "on_frame now drains sq pl sc =
     (let (b, r) = push (sc_reorder sc) sq pl; sc1 = sc\<lparr>sc_reorder := b\<rparr> in
      if \<not> accepted r then (overflow r, sc1)
      else
        let (ovf, c, taken) = client_sends (sc_chan sc) (ready r) drains
        in (ovf,
            sc1\<lparr>sc_chan := c, sc_out := sc_out sc @ concat taken,
                sc_enq := sc_enq sc @ drop (length (ch_queue (sc_chan sc))) (taken @ ch_queue c),
                sc_bytes_recv := sc_bytes_recv sc + word_of_nat (length pl),
                sc_frames_recv := sc_frames_recv sc + 1, sc_last_active := now\<rparr>))"

definition fin_sweep_decision :: "bool \<Rightarrow> nat \<Rightarrow> bool \<Rightarrow> bool" where
  "fin_sweep_decision is_complete fin_idle_secs handler_alive =
     (let limit = (if handler_alive then SP_TCP_IDLE_TIMEOUT else 30)
      in if fin_idle_secs > limit then True
         else is_complete \<and> fin_idle_secs > FIN_COMPLETE_IDLE_SECS)"

subsection \<open>Primitive steps\<close>

definition upd_sc :: "nat \<Rightarrow> (sconn \<Rightarrow> sconn) \<Rightarrow> sp \<Rightarrow> sp" where
  "upd_sc a g s = s\<lparr>sp_vcs := (sp_vcs s)[a := g (sp_vcs s ! a)]\<rparr>"

text \<open>\<open>pool.send\<close>, and one burst of \<open>pool.send_async\<close>.\<close>

definition sp_send :: "frame \<Rightarrow> sp \<Rightarrow> bool \<times> sp" where
  "sp_send f s =
     (let (ok, p) = pool_send f (sp_pool s)
      in (ok, s\<lparr>sp_pool := p, sp_emitted := sp_emitted s @ (if ok then [f] else [])\<rparr>))"

definition sp_send_async :: "(real \<Rightarrow> real) \<Rightarrow> frame \<Rightarrow> sp \<Rightarrow> bool \<times> sp" where
  "sp_send_async rnd f s =
     (case send_async_burst rnd f [] (sp_pool s) of
        (Sent, p) \<Rightarrow> (True, s\<lparr>sp_pool := p, sp_emitted := sp_emitted s @ [f]\<rparr>)
      | (_, p) \<Rightarrow> (False, s\<lparr>sp_pool := p\<rparr>))"

definition shut_down :: "sconn \<Rightarrow> sconn" where
  "shut_down sc = sc\<lparr>sc_closed := True, sc_rst := True, sc_notify := notify_one (sc_notify sc)\<rparr>"

definition reset_conn :: "instant \<Rightarrow> u32 \<Rightarrow> sp \<Rightarrow> sp" where
  "reset_conn now cid s =
     (let s1 = s\<lparr>sp_time_wait := tins cid now (sp_time_wait s)\<rparr>;
          s2 = (case tget (sp_conns s1) cid of
                  None \<Rightarrow> s1
                | Some a \<Rightarrow> upd_sc a shut_down (s1\<lparr>sp_conns := tdel cid (sp_conns s1)\<rparr>));
          s3 = snd (sp_send (frame_rst cid) s2)
      in s3\<lparr>sp_resets := sp_resets s3 + 1\<rparr>)"

subsection \<open>Frames from the tunnels\<close>

definition inbound_data :: "instant \<Rightarrow> bool list \<Rightarrow> frame \<Rightarrow> sp \<Rightarrow> sp" where
  "inbound_data now drains f s =
     (case tget (sp_conns s) (conn_id f) of
        Some a \<Rightarrow>
          if sc_is_udp (sp_vcs s ! a) then
            upd_sc a (\<lambda>sc. case try_send (sc_chan sc) (payload f) of
                        (SendOk, c) \<Rightarrow>
                          sc\<lparr>sc_chan := c, sc_enq := sc_enq sc @ [payload f],
                             sc_bytes_recv := sc_bytes_recv sc + word_of_nat (length (payload f)),
                             sc_frames_recv := sc_frames_recv sc + 1, sc_last_active := now\<rparr>
                      | _ \<Rightarrow> sc\<lparr>sc_last_active := now\<rparr>) s
          else
            let (ovf, sc) = on_frame now drains (seq f) (payload f) (sp_vcs s ! a);
                s1 = upd_sc a (\<lambda>_. sc) s
            in if ovf then reset_conn now (conn_id f) s1 else s1
      | None \<Rightarrow> snd (sp_send (frame_rst (conn_id f)) s))"

definition inbound_fin :: "frame \<Rightarrow> sp \<Rightarrow> sp" where
  "inbound_fin f s =
     (case tget (sp_conns s) (conn_id f) of
        Some a \<Rightarrow>
          if sc_is_udp (sp_vcs s ! a) then s
          else upd_sc a (\<lambda>sc. sc\<lparr>sc_fin_received := True, sc_fin_seq := seq f,
                                 sc_notify := notify_one (sc_notify sc)\<rparr>) s
      | None \<Rightarrow> s)"

definition handle_inbound_frame :: "instant \<Rightarrow> bool list \<Rightarrow> frame \<Rightarrow> sp \<Rightarrow> sp" where
  "handle_inbound_frame now drains f s =
     (if has_flag f FLAG_DATA then inbound_data now drains f s
      else if has_flag f FLAG_FIN then inbound_fin f s
      else if has_flag f FLAG_RST then reset_conn now (conn_id f) s
      else s)"

text \<open>One frame from tunnel \<open>i\<close>: it is handled, then the link's counters and clock are updated.\<close>

definition read_frame :: "nat \<Rightarrow> instant \<Rightarrow> u64 \<Rightarrow> bool list \<Rightarrow> frame \<Rightarrow> sp \<Rightarrow> sp" where
  "read_frame i now now_ms drains f s =
     (let s1 = handle_inbound_frame now drains f s
      in s1\<lparr>sp_pool := upd_link i (\<lambda>l. l\<lparr>lk_bytes_recv := lk_bytes_recv l + word_of_nat (length (payload f)),
                                        lk_frames_recv := lk_frames_recv l + 1,
                                        lk_last_active := now_ms\<rparr>) (sp_pool s1)\<rparr>)"

text \<open>A frame that a dead tunnel reported.\<close>

definition recover_lost :: "instant \<Rightarrow> frame \<Rightarrow> sp \<Rightarrow> sp" where
  "recover_lost now f s =
     (if has_flag f FLAG_SYN \<or> has_flag f FLAG_FIN \<or> has_flag f FLAG_RST then snd (sp_send f s)
      else if thas (sp_conns s) (conn_id f) then reset_conn now (conn_id f) s
      else s)"

text \<open>
  A tunnel session: the link joins the pool; when its read loop ended it is marked dead and its
  drain task stopped; then the frames the drain task reported are recovered.
\<close>

definition tunnel_up :: "nat \<Rightarrow> u64 \<Rightarrow> sp \<Rightarrow> sp" where
  "tunnel_up i now_ms s = s\<lparr>sp_pool := pool_add (sp_pool s) (new_link i now_ms)\<rparr>"

definition tunnel_down :: "nat \<Rightarrow> sp \<Rightarrow> sp" where
  "tunnel_down i s =
     s\<lparr>sp_pool := upd_link i (\<lambda>l. l\<lparr>lk_alive := False, lk_stop := notify_one (lk_stop l)\<rparr>) (sp_pool s)\<rparr>"

definition tunnel_lost :: "instant \<Rightarrow> nat \<Rightarrow> frame list \<Rightarrow> sp \<Rightarrow> sp" where
  "tunnel_lost now i lost s =
     fold (recover_lost now) lost (s\<lparr>sp_pool := upd_link i (\<lambda>l. l\<lparr>lk_lost := []\<rparr>) (sp_pool s)\<rparr>)"

subsection \<open>Connection identifiers and reconnection\<close>

text \<open>\<open>draws\<close> are the results of \<open>rand::random()\<close>.\<close>

definition alloc_conn_id :: "u32 list \<Rightarrow> sp \<Rightarrow> u32 option" where
  "alloc_conn_id draws s =
     find (\<lambda>i. i \<noteq> 0 \<and> \<not> thas (sp_conns s) i \<and> \<not> thas (sp_time_wait s) i) (take 1024 draws)"

definition reconnect_delay_secs :: "u32 \<Rightarrow> u64" where
  "reconnect_delay_secs retry_count =
     (if retry_count = 0 then 3 else min 24 (push_bit (unat (min retry_count 3)) 3))"

text \<open>\<open>retry_count\<close> after an attempt.\<close>

definition next_retry :: "bool \<Rightarrow> u32 \<Rightarrow> u32" where
  "next_retry ok n = (if ok then 0 else n + 1)"

subsection \<open>Opening a connection\<close>

definition insert_sconn :: "u32 \<Rightarrow> sconn \<Rightarrow> sp \<Rightarrow> sp" where
  "insert_sconn cid sc s =
     s\<lparr>sp_vcs := sp_vcs s @ [sc], sp_conns := tins cid (length (sp_vcs s)) (sp_conns s)\<rparr>"

text \<open>\<open>conns.remove_if(&conn_id, |_, v| Arc::ptr_eq(v, &vconn))\<close>\<close>

definition remove_own :: "u32 \<Rightarrow> nat \<Rightarrow> sp \<Rightarrow> sp" where
  "remove_own cid a s =
     (if tget (sp_conns s) cid = Some a then s\<lparr>sp_conns := tdel cid (sp_conns s)\<rparr> else s)"

text \<open>The handler is over: its \<open>Arc\<close> is gone and a slot is free.\<close>

definition end_handler :: "nat \<Rightarrow> sp \<Rightarrow> sp" where
  "end_handler a s = (upd_sc a (\<lambda>sc. sc\<lparr>sc_phase := Ended\<rparr>) s)\<lparr>sp_slot := notify_one (sp_slot s)\<rparr>"

text \<open>What the ghost \<open>sc_target\<close> of a TCP client records: the request as the SOCKS5 handshake returned it.\<close>

definition asked :: "target_addr \<Rightarrow> syn_target" where
  [simp]: "asked target = \<lparr>proto = PROTO_TCP, address = ta_address target, port = ta_port target\<rparr>"

text \<open>
  \<open>handle_tcp_client\<close> and \<open>handle_udp_client\<close> up to their loops; the first component is what the
  client is told.
\<close>

definition open_tcp :: "instant \<Rightarrow> u32 \<Rightarrow> target_addr \<Rightarrow> bytes \<Rightarrow> sp \<Rightarrow> bytes option \<times> sp" where
  "open_tcp now cid target reply s =
     (let t = \<lparr>proto = PROTO_TCP, address = ta_address target, port = ta_port target\<rparr> in
      case syn_encode t of
        Inl e \<Rightarrow> (None, s\<lparr>sp_slot := notify_one (sp_slot s)\<rparr>)
      | Inr pl \<Rightarrow>
          let a = length (sp_vcs s);
              s1 = insert_sconn cid (new_sconn cid (asked target) CLIENT_CHANNEL_CAP (sp_window s) False None now) s;
              (ok, s2) = sp_send (frame_syn cid pl) s1
          in if \<not> ok then (Some REPLY_GENERAL_FAILURE, end_handler a (remove_own cid a s2))
             else (Some reply, s2))"

definition open_udp :: "instant \<Rightarrow> u32 \<Rightarrow> socket_addr option \<Rightarrow> bytes \<Rightarrow> sp \<Rightarrow> bytes option \<times> sp" where
  "open_udp now cid client_addr reply s =
     (let a = length (sp_vcs s);
          t = \<lparr>proto = PROTO_UDP, address = ascii ''0.0.0.0'', port = 0\<rparr>;
          s1 = insert_sconn cid (new_sconn cid t UDP_CHANNEL_CAP (sp_window s) True client_addr now) s
      in case syn_encode t of
           Inl e \<Rightarrow> (None, end_handler a s1)
         | Inr pl \<Rightarrow>
             let (ok, s2) = sp_send (frame_syn cid pl) s1
             in if \<not> ok
                then (Some REPLY_GENERAL_FAILURE,
                      end_handler a (s2\<lparr>sp_conns := tdel cid (sp_conns s2)\<rparr>))
                else (Some reply, s2))"

text \<open>
  The accept loop admits a client below the limit and spawns its handler; the handler counts its
  handshake when it starts to run.
\<close>

definition accept_client :: "sp \<Rightarrow> sp" where
  "accept_client s =
     (if length (sp_conns s) + sp_half_open s \<ge> MAX_CONCURRENT_CONNS then s\<lparr>sp_slot := False\<rparr>
      else s\<lparr>sp_spawned := sp_spawned s + 1\<rparr>)"

definition begin_client :: "sp \<Rightarrow> sp" where
  "begin_client s =
     (if sp_spawned s = 0 then s
      else s\<lparr>sp_spawned := sp_spawned s - 1, sp_half_open := sp_half_open s + 1\<rparr>)"

text \<open>\<open>None\<close>: the handshake timed out or failed.\<close>

definition client_accepted :: "instant \<Rightarrow> u32 list \<Rightarrow> (socks5_result \<times> bytes) option \<Rightarrow> sp
    \<Rightarrow> bytes option \<times> sp" where
  "client_accepted now draws res s =
     (let s1 = s\<lparr>sp_half_open := sp_half_open s - 1\<rparr> in
      case res of
        None \<Rightarrow> (None, s1\<lparr>sp_slot := notify_one (sp_slot s1)\<rparr>)
      | Some (acc, reply) \<Rightarrow>
          (case alloc_conn_id draws s1 of
             None \<Rightarrow> (None, s1)
           | Some cid \<Rightarrow>
               (case acc of
                  Connect target \<Rightarrow> open_tcp now cid target reply s1
                | UdpAssociate relay client_addr \<Rightarrow> open_udp now cid client_addr reply s1)))"

subsection \<open>The TCP client handler\<close>

datatype close_reason = CloseEof | CloseNoTunnel | CloseReadError | CloseRst | CloseTimeout

definition finish_client :: "instant \<Rightarrow> nat \<Rightarrow> sp \<Rightarrow> sp" where
  "finish_client now a s =
     (let cid = sc_cid (sp_vcs s ! a);
          s1 = s\<lparr>sp_time_wait := tins cid now (sp_time_wait s)\<rparr>
      in end_handler a (remove_own cid a s1))"

text \<open>
  After the read loop.  \<open>fin_ok\<close>: the wait for a tunnel to take the FIN does not time out.
\<close>

definition client_close :: "(real \<Rightarrow> real) \<Rightarrow> instant \<Rightarrow> nat \<Rightarrow> close_reason \<Rightarrow> bool \<Rightarrow> bool \<Rightarrow> sp \<Rightarrow> sp" where
  "client_close rnd now a reason force_rst fin_ok s =
     (let sc = sp_vcs s ! a; cid = sc_cid sc;
          (fin_sent, s1) =
            (if reason = CloseRst \<or> force_rst \<or> \<not> fin_ok then (False, s)
             else sp_send_async rnd (frame_fin cid (sc_seq sc)) s);
          s2 = (if fin_sent then upd_sc a (\<lambda>sc. sc\<lparr>sc_fin_sent := True\<rparr>) s1 else s1);
          s3 = (if force_rst then snd (sp_send (frame_rst cid) s2)
                else if \<not> fin_sent \<and> reason \<noteq> CloseRst then snd (sp_send (frame_rst cid) s2)
                else s2)
      in if reason = CloseEof \<and> fin_sent
         then upd_sc a (\<lambda>sc. sc\<lparr>sc_grace_waiting := True, sc_phase := Grace None\<rparr>) s3
         else finish_client now a s3)"

text \<open>One round of the grace wait.\<close>

definition grace_tick :: "instant \<Rightarrow> nat \<Rightarrow> instant option \<Rightarrow> sp \<Rightarrow> sp" where
  "grace_tick now a fin_seen_at s =
     (let sc = sp_vcs s ! a in
      if sc_closed sc then finish_client now a s
      else if sc_fin_received sc then
        if is_complete_through (sc_reorder sc) (sc_fin_seq sc) then finish_client now a s
        else
          let seen = (case fin_seen_at of Some t \<Rightarrow> t | None \<Rightarrow> now)
          in if now - seen \<ge> CLOSE_GRACE_MAX then finish_client now a s
             else upd_sc a (\<lambda>sc. sc\<lparr>sc_phase := Grace (Some seen)\<rparr>) s
      else if now - sc_last_active sc \<ge> CLOSE_QUIET_TIMEOUT then finish_client now a s
      else s)"

datatype client_event = CRead bytes bool | CEof bool | CReadError bool | CNotified bool | CTick

definition client_step :: "(real \<Rightarrow> real) \<Rightarrow> instant \<Rightarrow> nat \<Rightarrow> client_event \<Rightarrow> sp \<Rightarrow> sp" where
  "client_step rnd now a ev s =
     (let sc = sp_vcs s ! a; cid = sc_cid sc in
      if sc_is_udp sc then s
      else (case sc_phase sc of
        Ended \<Rightarrow> s
      | Grace seen \<Rightarrow> (case ev of CTick \<Rightarrow> grace_tick now a seen s | _ \<Rightarrow> s)
      | Reading \<Rightarrow>
          (case ev of
             CRead bs ok \<Rightarrow>
               if bs = [] \<or> length bs > sp_chunk_size s then s
               else
                 let (sent, s1) = (if ok then sp_send_async rnd (frame_data cid (sc_seq sc) bs) s else (False, s))
                 in if \<not> sent then client_close rnd now a CloseNoTunnel True False s1
                    else upd_sc a (\<lambda>sc. sc\<lparr>sc_bytes_sent := sc_bytes_sent sc + word_of_nat (length bs),
                                           sc_frames_sent := sc_frames_sent sc + 1, sc_last_active := now,
                                           sc_seq := sc_seq sc + 1, sc_sent := sc_sent sc @ [bs]\<rparr>) s1
           | CEof fin_ok \<Rightarrow> client_close rnd now a CloseEof False fin_ok s
           | CReadError fin_ok \<Rightarrow> client_close rnd now a CloseReadError False fin_ok s
           | CNotified fin_ok \<Rightarrow>
               if \<not> sc_notify sc then s
               else let s1 = upd_sc a (\<lambda>sc. sc\<lparr>sc_notify := False\<rparr>) s
                    in if sc_closed sc
                       then client_close rnd now a (if sc_rst sc then CloseRst else CloseTimeout) False fin_ok s1
                       else s1
           | CTick \<Rightarrow> s)))"

text \<open>
  The client writer task: a chunk written, or a failed or stalled write after \<open>k\<close> bytes; it also
  ends when the channel is empty and every sender is gone (\<open>dropped\<close>).
\<close>

datatype cwriter_event = CwWritten | CwBroken nat | CwClosed

definition client_writer_step :: "bool \<Rightarrow> cwriter_event \<Rightarrow> sconn \<Rightarrow> sconn" where
  "client_writer_step dropped ev sc =
     (if sc_is_udp sc \<or> sc_wr_done sc then sc
      else (case try_recv (sc_chan sc) of
        (None, _) \<Rightarrow> if ev = CwClosed \<and> dropped
                       then sc\<lparr>sc_chan := (sc_chan sc)\<lparr>ch_open := False\<rparr>, sc_wr_done := True\<rparr> else sc
      | (Some chunk, c) \<Rightarrow>
          (case ev of
             CwWritten \<Rightarrow> sc\<lparr>sc_chan := c, sc_out := sc_out sc @ chunk\<rparr>
           | CwBroken k \<Rightarrow> sc\<lparr>sc_chan := c\<lparr>ch_queue := [], ch_open := False\<rparr>,
                              sc_out := sc_out sc @ take k chunk, sc_wr_done := True\<rparr>
           | CwClosed \<Rightarrow> sc)))"

subsection \<open>The UDP relay\<close>

fun send_retry :: "nat \<Rightarrow> frame \<Rightarrow> sp \<Rightarrow> bool \<times> sp" where
  "send_retry 0 f s = (False, s)"
| "send_retry (Suc n) f s =
     (case sp_send f s of (True, s1) \<Rightarrow> (True, s1) | (False, s1) \<Rightarrow> send_retry n f s1)"

text \<open>
  The task that watches the TCP control connection of an association: whether it has signalled
  the end after these results of \<open>read\<close>.
\<close>

fun keepalive_ended :: "read_result list \<Rightarrow> bool" where
  "keepalive_ended [] = False"
| "keepalive_ended (RdError # rs) = True"
| "keepalive_ended (RdBytes [] # rs) = True"
| "keepalive_ended (RdBytes (b # bs) # rs) = keepalive_ended rs"

lemma keepalive_ended_iff: "keepalive_ended rs \<longleftrightarrow> RdError \<in> set rs \<or> RdBytes [] \<in> set rs"
  by (induction rs rule: keepalive_ended.induct) auto

text \<open>
  \<open>UcDatagram\<close>: a datagram reached the relay socket; \<open>UcKeepaliveClosed\<close>: the watching task has signalled.
\<close>

datatype udp_client_event = UcDatagram socket_addr bytes | UcKeepaliveClosed | UcRecvError | UcNotified

definition end_udp :: "instant \<Rightarrow> nat \<Rightarrow> sp \<Rightarrow> sp" where
  "end_udp now a s =
     (let cid = sc_cid (sp_vcs s ! a);
          s1 = s\<lparr>sp_time_wait := tins cid now (sp_time_wait s)\<rparr>;
          s2 = snd (sp_send (frame_rst cid) (remove_own cid a s1))
      in end_handler a s2)"

definition udp_datagram :: "instant \<Rightarrow> nat \<Rightarrow> socket_addr \<Rightarrow> bytes \<Rightarrow> sp \<Rightarrow> sp" where
  "udp_datagram now a client bs s =
     (let sc = sp_vcs s ! a in
      if sc_peer sc \<noteq> None \<and> sc_peer sc \<noteq> Some client then s
      else
        let s1 = (upd_sc a (\<lambda>sc. sc\<lparr>sc_peer := Some client\<rparr>) s)\<lparr>sp_udp_sent := sp_udp_sent s + 1\<rparr>;
            (sent, s2) = send_retry 3 (frame_data (sc_cid sc) (sc_seq sc) bs) s1
        in if \<not> sent then s2
           else upd_sc a (\<lambda>sc. sc\<lparr>sc_bytes_sent := sc_bytes_sent sc + word_of_nat (length bs),
                                  sc_frames_sent := sc_frames_sent sc + 1, sc_last_active := now,
                                  sc_seq := sc_seq sc + 1, sc_sent := sc_sent sc @ [bs]\<rparr>) s2)"

definition udp_client_step :: "instant \<Rightarrow> nat \<Rightarrow> udp_client_event \<Rightarrow> sp \<Rightarrow> sp" where
  "udp_client_step now a ev s =
     (let sc = sp_vcs s ! a in
      if \<not> sc_is_udp sc \<or> sc_phase sc \<noteq> Reading then s
      else (case ev of
        UcDatagram client bs \<Rightarrow> if length bs > 65535 then s else udp_datagram now a client bs s
      | UcKeepaliveClosed \<Rightarrow> end_udp now a s
      | UcRecvError \<Rightarrow> end_udp now a s
      | UcNotified \<Rightarrow>
          if \<not> sc_notify sc then s
          else let s1 = upd_sc a (\<lambda>sc. sc\<lparr>sc_notify := False\<rparr>) s
               in if sc_closed sc then end_udp now a s1 else s1))"

text \<open>
  The task that sends responses to the client: \<open>ok\<close> when \<open>send_to\<close> succeeds; without a known
  client address the response is dropped.
\<close>

definition udp_response_step :: "nat \<Rightarrow> bool \<Rightarrow> sp \<Rightarrow> sp" where
  "udp_response_step a ok s =
     (let sc = sp_vcs s ! a in
      if \<not> sc_is_udp sc \<or> sc_wr_done sc then s
      else (case try_recv (sc_chan sc) of
        (None, _) \<Rightarrow> s
      | (Some d, c) \<Rightarrow>
          let s1 = s\<lparr>sp_udp_recv := sp_udp_recv s + 1\<rparr>
          in (case sc_peer sc of
                None \<Rightarrow> upd_sc a (\<lambda>sc. sc\<lparr>sc_chan := c\<rparr>) s1
              | Some addr \<Rightarrow>
                  if ok then upd_sc a (\<lambda>sc. sc\<lparr>sc_chan := c, sc_udp_out := sc_udp_out sc @ [(addr, d)]\<rparr>) s1
                  else upd_sc a (\<lambda>sc. sc\<lparr>sc_chan := c\<lparr>ch_queue := [], ch_open := False\<rparr>,
                                         sc_wr_done := True\<rparr>) s1)))"

subsection \<open>Heartbeat\<close>

text \<open>An entry whose handler is gone (\<open>strong_count <= 1\<close>) is an orphan.\<close>

definition sweep_out :: "instant \<Rightarrow> u32 \<Rightarrow> nat \<Rightarrow> (sconn \<Rightarrow> sconn) \<Rightarrow> sp \<Rightarrow> sp" where
  "sweep_out now cid a g s =
     (let s1 = snd (sp_send (frame_rst cid) (upd_sc a g s))
      in s1\<lparr>sp_time_wait := tins cid now (sp_time_wait s1), sp_conns := tdel cid (sp_conns s1)\<rparr>)"

definition sp_sweep_conn :: "instant \<Rightarrow> u32 \<times> nat \<Rightarrow> sp \<Rightarrow> sp" where
  "sp_sweep_conn now ca s =
     (let cid = fst ca; a = snd ca; sc = sp_vcs s ! a; idle = (now - sc_last_active sc) div 1000 in
      if sc_phase sc = Ended then sweep_out now cid a (\<lambda>sc. sc\<lparr>sc_rst := True\<rparr>) s
      else if sc_fin_received sc then
        if sc_grace_waiting sc then s
        else if fin_sweep_decision (is_complete_through (sc_reorder sc) (sc_fin_seq sc)) idle (sc_phase sc \<noteq> Ended)
        then sweep_out now cid a shut_down s
        else s
      else if idle > (if sc_is_udp sc then SP_UDP_IDLE_TIMEOUT else SP_TCP_IDLE_TIMEOUT)
      then sweep_out now cid a shut_down s
      else s)"

definition sp_heartbeat :: "instant \<Rightarrow> u64 \<Rightarrow> sp \<Rightarrow> sp" where
  "sp_heartbeat now now_ms s =
     (let s1 = s\<lparr>sp_pool := snd (sweep_idle now_ms LINK_IDLE_TIMEOUT (compact (sp_pool s))),
                 sp_time_wait := filter (\<lambda>kt. now - snd kt < TIME_WAIT_TTL) (sp_time_wait s)\<rparr>;
          s2 = fold (sp_sweep_conn now) (sp_conns s1) s1
      in s2\<lparr>sp_resets := 0, sp_udp_sent := 0, sp_udp_recv := 0\<rparr>)"

subsection \<open>The whole splitter\<close>

text \<open>
  Events.  \<open>SvPool\<close> stands for what the drain tasks and the other counters do to the pool; a
  \<open>SvAccepted\<close> ends the handshake of a handler that began.
\<close>

datatype sp_event =
    SvFrame nat instant u64 "bool list" frame
  | SvUp nat u64
  | SvDown nat
  | SvLost instant nat "frame list"
  | SvAccept
  | SvBegin
  | SvAccepted instant "u32 list" "(socks5_result \<times> bytes) option"
  | SvClient "real \<Rightarrow> real" instant nat client_event
  | SvWriter nat cwriter_event
  | SvUdp instant nat udp_client_event
  | SvResponse nat bool
  | SvHeartbeat instant u64
  | SvPool pool

definition sp_exec :: "sp_event \<Rightarrow> sp \<Rightarrow> sp" where
  "sp_exec ev s =
     (case ev of
        SvFrame i now now_ms drains f \<Rightarrow> read_frame i now now_ms drains f s
      | SvUp i now_ms \<Rightarrow> tunnel_up i now_ms s
      | SvDown i \<Rightarrow> tunnel_down i s
      | SvLost now i lost \<Rightarrow> tunnel_lost now i lost s
      | SvAccept \<Rightarrow> accept_client s
      | SvBegin \<Rightarrow> begin_client s
      | SvAccepted now draws res \<Rightarrow> if 0 < sp_half_open s then snd (client_accepted now draws res s) else s
      | SvClient rnd now a e \<Rightarrow> if a < length (sp_vcs s) then client_step rnd now a e s else s
      | SvWriter a e \<Rightarrow>
          if a < length (sp_vcs s)
          then upd_sc a (client_writer_step (a \<notin> snd ` set (sp_conns s) \<and> sc_phase (sp_vcs s ! a) = Ended) e) s
          else s
      | SvUdp now a e \<Rightarrow> if a < length (sp_vcs s) then udp_client_step now a e s else s
      | SvResponse a ok \<Rightarrow> if a < length (sp_vcs s) then udp_response_step a ok s else s
      | SvHeartbeat now now_ms \<Rightarrow> sp_heartbeat now now_ms s
      | SvPool p \<Rightarrow> s\<lparr>sp_pool := p\<rparr>)"

end
