(* ===== verification/SplitterInv.thy ===== *)
theory SplitterInv
  imports Splitter Sender
begin

text \<open>
  Invariants of the splitter, kept by every event.

  \<^item> \<open>emit_inv\<close>: every DATA frame that a tunnel accepted is a chunk of its client's data with its
    number, every FIN carries the number after the last chunk of a client that sends nothing more,
    and every payload fits a frame.
  \<^item> \<open>recv_inv\<close>: what a client that was not reset receives is a prefix of what the reassembler sent.
\<close>

subsection \<open>Frames sent\<close>

text \<open>How a connection may evolve: chunks are only appended, and not after the FIN.\<close>

definition sc_le :: "sconn \<Rightarrow> sconn \<Rightarrow> bool" where
  "sc_le sc sc' \<longleftrightarrow> sc_cid sc' = sc_cid sc
     \<and> (\<exists>more. sc_sent sc' = sc_sent sc @ more \<and> (sc_fin_sent sc \<longrightarrow> more = []))
     \<and> (sc_fin_sent sc \<longrightarrow> sc_fin_sent sc') \<and> sc_target sc' = sc_target sc"

text \<open>A SYN announces the target that the client asked for.\<close>

definition announces :: "sconn \<Rightarrow> bytes \<Rightarrow> bool" where
  "announces sc p \<longleftrightarrow> syn_encode (sc_target sc) = Inr p"

interpretation cl: sender sc_cid sc_sent sc_fin_sent announces sc_le
  by unfold_locales (auto simp: sc_le_def announces_def)

definition seq_ok :: "nat \<Rightarrow> sconn \<Rightarrow> bool" where
  "seq_ok k sc \<longleftrightarrow> sc_seq sc = word_of_nat (Suc (length (sc_sent sc)))
     \<and> (sc_fin_sent sc \<longrightarrow> sc_phase sc \<noteq> Reading)
     \<and> (\<forall>bs \<in> set (sc_sent sc). if sc_is_udp sc then length bs \<le> 65535 else bs \<noteq> [] \<and> length bs \<le> k)"

text \<open>\<open>F\<close> is a set of frames already emitted: with it the invariant also says that none is forgotten.\<close>

definition emit_inv :: "frame set \<Rightarrow> sp \<Rightarrow> bool" where
  "emit_inv F s \<longleftrightarrow> F \<subseteq> set (sp_emitted s)
     \<and> sp_chunk_size s \<le> MAX_PAYLOAD
     \<and> (\<forall>sc \<in> set (sp_vcs s). seq_ok (sp_chunk_size s) sc)
     \<and> (\<forall>f \<in> set (sp_emitted s). cl.emit_ok (sp_vcs s) f)"

text \<open>A change that touches neither the data sent nor the sequence number.\<close>

definition quiet :: "sconn \<Rightarrow> sconn \<Rightarrow> bool" where
  "quiet sc sc' \<longleftrightarrow> sc_cid sc' = sc_cid sc \<and> sc_sent sc' = sc_sent sc \<and> sc_seq sc' = sc_seq sc
     \<and> sc_target sc' = sc_target sc \<and> sc_fin_sent sc' = sc_fin_sent sc \<and> sc_is_udp sc' = sc_is_udp sc
     \<and> (sc_phase sc \<noteq> Reading \<longrightarrow> sc_phase sc' \<noteq> Reading)"

lemma upd_sc_fields [simp]:
  "sp_chunk_size (upd_sc a g s) = sp_chunk_size s" "sp_emitted (upd_sc a g s) = sp_emitted s"
  "sp_conns (upd_sc a g s) = sp_conns s" "sp_time_wait (upd_sc a g s) = sp_time_wait s"
  "length (sp_vcs (upd_sc a g s)) = length (sp_vcs s)" "sp_pool (upd_sc a g s) = sp_pool s"
  "sp_half_open (upd_sc a g s) = sp_half_open s" "sp_window (upd_sc a g s) = sp_window s"
  by (simp_all add: upd_sc_def)

lemma upd_sc_nth [simp]: "a < length (sp_vcs s) \<Longrightarrow> sp_vcs (upd_sc a g s) ! a = g (sp_vcs s ! a)"
  by (simp add: upd_sc_def)

lemma upd_sc_beyond [simp]: "\<not> a < length (sp_vcs s) \<Longrightarrow> upd_sc a g s = s"
  by (simp add: upd_sc_def list_update_beyond)

lemma emit_inv_upd:
  assumes "emit_inv F s" and "a < length (sp_vcs s)" and "sc_le (sp_vcs s ! a) (g (sp_vcs s ! a))"
    and "seq_ok (sp_chunk_size s) (g (sp_vcs s ! a))"
  shows "emit_inv F (upd_sc a g s)"
  using assms cl.emit_ok_upd set_update_subset_insert
  by (fastforce simp: emit_inv_def upd_sc_def)

lemma emit_inv_quiet:
  assumes inv: "emit_inv F s" and q: "quiet (sp_vcs s ! a) (g (sp_vcs s ! a))"
  shows "emit_inv F (upd_sc a g s)"
proof (cases "a < length (sp_vcs s)")
  case True
  from inv True have "seq_ok (sp_chunk_size s) (sp_vcs s ! a)" by (simp add: emit_inv_def)
  with q show ?thesis by (intro emit_inv_upd [OF inv True]) (auto simp: quiet_def sc_le_def seq_ok_def)
qed (simp add: inv)

lemma emit_inv_fields [simp]:
  "emit_inv F (s\<lparr>sp_conns := x1\<rparr>) = emit_inv F s" "emit_inv F (s\<lparr>sp_time_wait := x2\<rparr>) = emit_inv F s"
  "emit_inv F (s\<lparr>sp_pool := x3\<rparr>) = emit_inv F s" "emit_inv F (s\<lparr>sp_resets := x4\<rparr>) = emit_inv F s"
  "emit_inv F (s\<lparr>sp_spawned := x5\<rparr>) = emit_inv F s" "emit_inv F (s\<lparr>sp_half_open := x6\<rparr>) = emit_inv F s"
  "emit_inv F (s\<lparr>sp_slot := x7\<rparr>) = emit_inv F s" "emit_inv F (s\<lparr>sp_udp_sent := x8\<rparr>) = emit_inv F s"
  "emit_inv F (s\<lparr>sp_udp_recv := x9\<rparr>) = emit_inv F s"
  by (simp_all add: emit_inv_def)

lemma sp_send_fields [simp]:
  "sp_vcs (snd (sp_send f s)) = sp_vcs s" "sp_conns (snd (sp_send f s)) = sp_conns s"
  "sp_time_wait (snd (sp_send f s)) = sp_time_wait s" "sp_chunk_size (snd (sp_send f s)) = sp_chunk_size s"
  by (simp_all add: sp_send_def split: prod.splits)

lemma emit_inv_send: "emit_inv F s \<Longrightarrow> cl.emit_ok (sp_vcs s) f \<Longrightarrow> emit_inv F (snd (sp_send f s))"
  by (auto simp: sp_send_def emit_inv_def split: prod.splits)

lemma shut_down_quiet [simp]: "quiet sc (shut_down sc)"
  by (simp add: quiet_def shut_down_def)

lemma reset_conn_emit: "emit_inv F s \<Longrightarrow> emit_inv F (reset_conn now cid s)"
  by (simp add: reset_conn_def Let_def emit_inv_send emit_inv_quiet split: option.split)

lemma on_frame_quiet: "quiet sc (snd (on_frame now drains sq pl sc))"
  by (simp add: on_frame_def Let_def quiet_def split: prod.split)

lemma inbound_data_emit:
  assumes "emit_inv F s"
  shows "emit_inv F (inbound_data now drains f s)"
proof (cases "tget (sp_conns s) (conn_id f)")
  case (Some a)
  have "emit_inv F (upd_sc a (\<lambda>_. snd (on_frame now drains (seq f) (payload f) (sp_vcs s ! a))) s)"
    using assms on_frame_quiet by (rule emit_inv_quiet)
  then have "emit_inv F (inbound_data now drains f s)" if "\<not> sc_is_udp (sp_vcs s ! a)"
    using that Some by (auto simp: inbound_data_def Let_def reset_conn_emit split: prod.split)
  moreover have "emit_inv F (inbound_data now drains f s)" if "sc_is_udp (sp_vcs s ! a)"
    using that Some assms
    by (auto simp: inbound_data_def quiet_def intro!: emit_inv_quiet split: prod.split send_result.split)
  ultimately show ?thesis by blast
qed (simp add: inbound_data_def assms emit_inv_send)

lemma inbound_fin_emit: "emit_inv F s \<Longrightarrow> emit_inv F (inbound_fin f s)"
  by (auto simp: inbound_fin_def quiet_def intro!: emit_inv_quiet split: option.split)

lemma read_frame_emit: "emit_inv F s \<Longrightarrow> emit_inv F (read_frame i now now_ms drains f s)"
  by (simp add: read_frame_def Let_def handle_inbound_frame_def inbound_data_emit inbound_fin_emit reset_conn_emit)

text \<open>Lost control frames were accepted by a tunnel before.\<close>

lemma sp_send_emitted [simp]:
  "sp_emitted (snd (sp_send f s)) = sp_emitted s @ (if fst (pool_send f (sp_pool s)) then [f] else [])"
  by (simp add: sp_send_def split: prod.split)

lemma emitted_mono_reset: "set (sp_emitted s) \<subseteq> set (sp_emitted (reset_conn now cid s))"
  by (auto simp: reset_conn_def Let_def split: option.split)

lemma recover_lost_emit:
  assumes "emit_inv F s" and "f \<in> set (sp_emitted s)"
  shows "emit_inv F (recover_lost now f s) \<and> set (sp_emitted s) \<subseteq> set (sp_emitted (recover_lost now f s))"
proof -
  from assms have "cl.emit_ok (sp_vcs s) f" by (simp add: emit_inv_def)
  then show ?thesis
    using assms emitted_mono_reset by (auto simp: recover_lost_def reset_conn_emit emit_inv_send)
qed

lemma tunnel_lost_emit:
  assumes "emit_inv F s" and "set lost \<subseteq> set (sp_emitted s)"
  shows "emit_inv F (tunnel_lost now i lost s)"
proof -
  have "emit_inv F t \<Longrightarrow> set lost \<subseteq> set (sp_emitted t) \<Longrightarrow> emit_inv F (fold (recover_lost now) lost t)" for t
  proof (induction lost arbitrary: t)
    case (Cons f fs)
    then have "emit_inv F (recover_lost now f t)" "set fs \<subseteq> set (sp_emitted (recover_lost now f t))"
      using recover_lost_emit [of F t f now] by auto
    then show ?case using Cons.IH by simp
  qed simp
  then show ?thesis using assms by (simp add: tunnel_lost_def)
qed

text \<open>The handlers of the clients.\<close>

lemma new_sconn_seq_ok [simp]: "seq_ok k (new_sconn cid t cap w u peer now)"
  by (simp add: seq_ok_def new_sconn_def)

lemma insert_sconn_emit: "emit_inv F s \<Longrightarrow> (\<And>k. seq_ok k sc) \<Longrightarrow> emit_inv F (insert_sconn cid sc s)"
  by (auto simp: insert_sconn_def emit_inv_def cl.emit_ok_append)

lemma new_sconn_announced [simp]:
  assumes "syn_encode t = Inr p"
  shows "cl.emit_ok (sp_vcs (insert_sconn cid (new_sconn cid t cap w u peer now) s)) (frame_syn cid p)"
  using cl.emit_ok_syn [of "new_sconn cid t cap w u peer now" _ p] assms
  by (simp add: insert_sconn_def announces_def new_sconn_def)

lemma remove_own_emit [simp]: "emit_inv F (remove_own cid a s) = emit_inv F s"
  by (simp add: remove_own_def)

lemma remove_own_vcs [simp]: "sp_vcs (remove_own cid a s) = sp_vcs s" "sp_chunk_size (remove_own cid a s) = sp_chunk_size s"
  by (simp_all add: remove_own_def)

lemma end_handler_emit: "emit_inv F s \<Longrightarrow> emit_inv F (end_handler a s)"
  by (auto simp: end_handler_def quiet_def intro!: emit_inv_quiet)

lemma emit_inv_sent: "sp_send f s = (ok, s') \<Longrightarrow> emit_inv F s \<Longrightarrow> cl.emit_ok (sp_vcs s) f \<Longrightarrow> emit_inv F s'"
  using emit_inv_send [of F s f] by simp

lemma open_tcp_emit: "emit_inv F s \<Longrightarrow> emit_inv F (snd (open_tcp now cid target reply s))"
  by (auto simp: open_tcp_def Let_def insert_sconn_emit split: sum.split prod.split
      intro!: end_handler_emit elim!: emit_inv_sent)

lemma open_udp_emit: "emit_inv F s \<Longrightarrow> emit_inv F (snd (open_udp now cid peer reply s))"
  by (auto simp: open_udp_def Let_def insert_sconn_emit split: sum.split prod.split
      intro!: end_handler_emit elim!: emit_inv_sent)

lemma client_accepted_emit: "emit_inv F s \<Longrightarrow> emit_inv F (snd (client_accepted now draws res s))"
  by (auto simp: client_accepted_def Let_def open_tcp_emit open_udp_emit
      split: option.split socks5_result.split prod.split)

lemma finish_client_emit: "emit_inv F s \<Longrightarrow> emit_inv F (finish_client now a s)"
  by (simp add: finish_client_def Let_def end_handler_emit)

lemma sp_send_async_spec:
  assumes "sp_send_async rnd f s = (ok, s')"
  shows "sp_vcs s' = sp_vcs s \<and> sp_conns s' = sp_conns s \<and> sp_chunk_size s' = sp_chunk_size s
    \<and> sp_time_wait s' = sp_time_wait s \<and> sp_emitted s' = sp_emitted s @ (if ok then [f] else [])"
  using assms by (auto simp: sp_send_async_def split: prod.splits async_outcome.splits)

text \<open>A frame goes out and is recorded with its connection.\<close>

lemma emit_inv_record:
  assumes inv: "emit_inv F s" and a: "a < length (sp_vcs s)" and le: "sc_le (sp_vcs s ! a) (g (sp_vcs s ! a))"
    and sq: "seq_ok (sp_chunk_size s) (g (sp_vcs s ! a))"
    and s1: "sp_vcs s1 = sp_vcs s" "sp_chunk_size s1 = sp_chunk_size s"
    and f: "sp_emitted s1 = sp_emitted s @ [f]" "sc_cid (sp_vcs s ! a) = conn_id f"
      "cl.own_frame (g (sp_vcs s ! a)) f" "\<not> has_flag f FLAG_SYN" "length (payload f) \<le> MAX_PAYLOAD"
  shows "emit_inv F (upd_sc a g s1)"
proof -
  have s2: "emit_inv F (upd_sc a g s)" using inv a le sq by (rule emit_inv_upd)
  have "g (sp_vcs s ! a) \<in> set (sp_vcs (upd_sc a g s))" using a by (simp add: upd_sc_def set_update_memI)
  then have "cl.emit_ok (sp_vcs (upd_sc a g s)) f" using f le by (auto simp: cl.emit_ok_def sc_le_def)
  with s2 show ?thesis using s1 f(1) by (auto simp: emit_inv_def upd_sc_def)
qed

lemma emit_inv_same:
  "emit_inv F s \<Longrightarrow> sp_vcs s1 = sp_vcs s \<Longrightarrow> sp_chunk_size s1 = sp_chunk_size s \<Longrightarrow> sp_emitted s1 = sp_emitted s \<Longrightarrow> emit_inv F s1"
  by (simp add: emit_inv_def)

lemma MAX_PAYLOAD_ge: "65535 \<le> MAX_PAYLOAD"
  by (simp add: MAX_PAYLOAD_def)

lemma fin_sent_emit:
  assumes inv: "emit_inv F s" and a: "a < length (sp_vcs s)" and ph: "sc_phase (sp_vcs s ! a) = Reading"
    and f: "sp_send_async rnd (frame_fin (sc_cid (sp_vcs s ! a)) (sc_seq (sp_vcs s ! a))) s = (True, s1)"
    and g: "\<And>sc. quiet (sc\<lparr>sc_fin_sent := True\<rparr>) (g sc)" "\<And>sc. sc_phase (g sc) \<noteq> Reading"
  shows "emit_inv F (upd_sc a g s1)"
proof -
  from inv a have ok: "seq_ok (sp_chunk_size s) (sp_vcs s ! a)" by (simp add: emit_inv_def)
  note sp = sp_send_async_spec [OF f]
  show ?thesis
    by (rule emit_inv_record [OF inv a, where f = "frame_fin (sc_cid (sp_vcs s ! a)) (sc_seq (sp_vcs s ! a))"])
       (use ok ph sp g [of "sp_vcs s ! a"] in \<open>auto simp: sc_le_def seq_ok_def quiet_def cl.own_frame_def\<close>)
qed

lemma upd_sc_twice [simp]: "upd_sc a h (upd_sc a g s) = upd_sc a (\<lambda>sc. h (g sc)) s"
  by (cases "a < length (sp_vcs s)") (simp_all add: upd_sc_def list_update_beyond)

lemma finish_client_vcs:
  "sp_vcs (finish_client now a s) = sp_vcs (upd_sc a (\<lambda>sc. sc\<lparr>sc_phase := Ended\<rparr>) s)"
  "sp_chunk_size (finish_client now a s) = sp_chunk_size s" "sp_emitted (finish_client now a s) = sp_emitted s"
  by (simp_all add: finish_client_def Let_def end_handler_def upd_sc_def remove_own_def)

lemma client_close_fin_emit:
  assumes inv: "emit_inv F s" and a: "a < length (sp_vcs s)" and ph: "sc_phase (sp_vcs s ! a) = Reading"
    and f: "sp_send_async rnd (frame_fin (sc_cid (sp_vcs s ! a)) (sc_seq (sp_vcs s ! a))) s = (True, s1)"
  shows "emit_inv F (upd_sc a (\<lambda>sc. sc\<lparr>sc_fin_sent := True, sc_grace_waiting := True, sc_phase := Grace None\<rparr>) s1)"
    and "emit_inv F (finish_client now a (upd_sc a (\<lambda>sc. sc\<lparr>sc_fin_sent := True\<rparr>) s1))"
proof -
  show "emit_inv F (upd_sc a (\<lambda>sc. sc\<lparr>sc_fin_sent := True, sc_grace_waiting := True, sc_phase := Grace None\<rparr>) s1)"
    by (rule fin_sent_emit [OF inv a ph f])
       (simp_all add: quiet_def)
  have "emit_inv F (upd_sc a (\<lambda>sc. sc\<lparr>sc_fin_sent := True, sc_phase := Ended\<rparr>) s1)"
    by (rule fin_sent_emit [OF inv a ph f])
       (simp_all add: quiet_def)
  then show "emit_inv F (finish_client now a (upd_sc a (\<lambda>sc. sc\<lparr>sc_fin_sent := True\<rparr>) s1))"
    by (rule emit_inv_same) (simp_all add: finish_client_vcs)
qed

lemma client_close_emit:
  assumes inv: "emit_inv F s" and a: "a < length (sp_vcs s)" and ph: "sc_phase (sp_vcs s ! a) = Reading"
  shows "emit_inv F (client_close rnd now a reason force fin_ok s)"
proof -
  let ?fin = "frame_fin (sc_cid (sp_vcs s ! a)) (sc_seq (sp_vcs s ! a))"
  obtain ok s1 where f: "(if reason = CloseRst \<or> force \<or> \<not> fin_ok then (False, s) else sp_send_async rnd ?fin s) = (ok, s1)"
    by (metis surj_pair)
  show ?thesis
  proof (cases ok)
    case True
    then have "sp_send_async rnd ?fin s = (True, s1)" "\<not> force" "reason \<noteq> CloseRst"
      using f by (auto split: if_splits)
    then show ?thesis
      using client_close_fin_emit [OF inv a ph] f True by (simp add: client_close_def Let_def)
  next
    case False
    then have "sp_vcs s1 = sp_vcs s \<and> sp_chunk_size s1 = sp_chunk_size s \<and> sp_emitted s1 = sp_emitted s"
      using f sp_send_async_spec by (auto split: if_splits)
    then have "emit_inv F s1" using inv emit_inv_same by blast
    then show ?thesis
      using f False by (simp add: client_close_def Let_def finish_client_emit emit_inv_send)
  qed
qed

lemma grace_tick_emit: "emit_inv F s \<Longrightarrow> sc_phase (sp_vcs s ! a) \<noteq> Reading \<Longrightarrow> emit_inv F (grace_tick now a seen s)"
  by (auto simp: grace_tick_def Let_def finish_client_emit quiet_def intro!: emit_inv_quiet split: option.split)

text \<open>A chunk of the client goes out under the next number.\<close>

lemma record_data_emit:
  assumes inv: "emit_inv F s" and a: "a < length (sp_vcs s)" and ph: "sc_phase (sp_vcs s ! a) = Reading"
    and s1: "sp_vcs s1 = sp_vcs s" "sp_chunk_size s1 = sp_chunk_size s"
      "sp_emitted s1 = sp_emitted s @ [frame_data (sc_cid (sp_vcs s ! a)) (sc_seq (sp_vcs s ! a)) bs]"
    and len: "if sc_is_udp (sp_vcs s ! a) then length bs \<le> 65535 else bs \<noteq> [] \<and> length bs \<le> sp_chunk_size s"
    and g: "\<And>sc. quiet sc (h sc)" "\<And>sc. sc_phase (h sc) = sc_phase sc"
  shows "emit_inv F (upd_sc a (\<lambda>sc. (h sc)\<lparr>sc_seq := sc_seq sc + 1, sc_sent := sc_sent sc @ [bs]\<rparr>) s1)"
proof -
  from inv a have ok: "seq_ok (sp_chunk_size s) (sp_vcs s ! a)" and k: "sp_chunk_size s \<le> MAX_PAYLOAD"
    by (simp_all add: emit_inv_def)
  have "length bs \<le> MAX_PAYLOAD" using len k MAX_PAYLOAD_ge by (auto split: if_splits)
  then show ?thesis
    by (intro emit_inv_record [OF inv a, where f = "frame_data (sc_cid (sp_vcs s ! a)) (sc_seq (sp_vcs s ! a)) bs"])
       (use ok ph s1 len g [of "sp_vcs s ! a"] in
          \<open>auto simp: sc_le_def seq_ok_def quiet_def cl.own_frame_def add.commute
             intro!: exI [of _ "length (sc_sent (sp_vcs s ! a))"]\<close>)
qed

lemma client_read_emit:
  assumes inv: "emit_inv F s" and a: "a < length (sp_vcs s)" and ph: "sc_phase (sp_vcs s ! a) = Reading"
    and tcp: "\<not> sc_is_udp (sp_vcs s ! a)"
  shows "emit_inv F (client_step rnd now a (CRead bs ok) s)"
proof (cases "bs = [] \<or> length bs > sp_chunk_size s")
  case False
  let ?f = "frame_data (sc_cid (sp_vcs s ! a)) (sc_seq (sp_vcs s ! a)) bs"
  obtain sent s1 where f: "(if ok then sp_send_async rnd ?f s else (False, s)) = (sent, s1)" by (metis surj_pair)
  then have s1: "sp_vcs s1 = sp_vcs s" "sp_chunk_size s1 = sp_chunk_size s"
    "sp_emitted s1 = sp_emitted s @ (if sent then [?f] else [])"
    using sp_send_async_spec by (auto split: if_splits)
  show ?thesis
  proof (cases sent)
    case True
    have "emit_inv F (upd_sc a (\<lambda>sc. (sc\<lparr>sc_bytes_sent := sc_bytes_sent sc + word_of_nat (length bs),
        sc_frames_sent := sc_frames_sent sc + 1, sc_last_active := now\<rparr>)
        \<lparr>sc_seq := sc_seq sc + 1, sc_sent := sc_sent sc @ [bs]\<rparr>) s1)"
      by (rule record_data_emit [OF inv a ph]) (use s1 True False tcp in \<open>auto simp: quiet_def\<close>)
    then show ?thesis using False ph tcp f True by (simp add: client_step_def Let_def)
  next
    case nsent: False
    then have "emit_inv F s1" using inv s1 by (simp add: emit_inv_def)
    then have "emit_inv F (client_close rnd now a CloseNoTunnel True False s1)"
      by (rule client_close_emit) (use a ph s1 in auto)
    then show ?thesis using False ph tcp f nsent by (simp add: client_step_def Let_def)
  qed
qed (use inv ph tcp in \<open>auto simp: client_step_def Let_def\<close>)

lemma client_step_emit:
  assumes inv: "emit_inv F s" and a: "a < length (sp_vcs s)"
  shows "emit_inv F (client_step rnd now a ev s)"
proof (cases "sc_phase (sp_vcs s ! a)")
  case Reading
  have n: "emit_inv F (upd_sc a (\<lambda>sc. sc\<lparr>sc_notify := False\<rparr>) s)"
    by (rule emit_inv_quiet [OF inv]) (simp add: quiet_def)
  show ?thesis
  proof (cases ev)
    case (CRead bs ok)
    then show ?thesis using client_read_emit [OF inv a Reading] inv
      by (cases "sc_is_udp (sp_vcs s ! a)") (simp_all add: client_step_def Let_def)
  next
    case (CNotified ok)
    then show ?thesis using inv a Reading n
      by (auto simp: client_step_def Let_def intro!: client_close_emit)
  qed (use inv a Reading in \<open>auto simp: client_step_def Let_def intro!: client_close_emit\<close>)
next
  case (Grace seen)
  then show ?thesis using inv grace_tick_emit [OF inv]
    by (auto simp: client_step_def Let_def split: client_event.split)
qed (simp add: client_step_def Let_def inv)

lemma send_retry_spec:
  assumes "send_retry n f s = (ok, s')"
  shows "sp_vcs s' = sp_vcs s \<and> sp_conns s' = sp_conns s \<and> sp_chunk_size s' = sp_chunk_size s
    \<and> sp_time_wait s' = sp_time_wait s \<and> sp_emitted s' = sp_emitted s @ (if ok then [f] else [])"
  using assms
proof (induction n arbitrary: s)
  case (Suc n)
  obtain ok1 s1 where s1: "sp_send f s = (ok1, s1)" by force
  then have e: "sp_vcs s1 = sp_vcs s" "sp_conns s1 = sp_conns s" "sp_chunk_size s1 = sp_chunk_size s"
    "sp_time_wait s1 = sp_time_wait s" "sp_emitted s1 = sp_emitted s @ (if ok1 then [f] else [])"
    by (auto simp: sp_send_def split: prod.splits)
  with Suc.prems Suc.IH [of s1] s1 show ?case by (cases ok1) auto
qed simp

lemma end_udp_emit: "emit_inv F s \<Longrightarrow> emit_inv F (end_udp now a s)"
  by (simp add: end_udp_def Let_def end_handler_emit emit_inv_send)

lemma udp_datagram_emit:
  assumes inv: "emit_inv F s" and a: "a < length (sp_vcs s)" and ph: "sc_phase (sp_vcs s ! a) = Reading"
    and udp: "sc_is_udp (sp_vcs s ! a)" and len: "length bs \<le> 65535"
  shows "emit_inv F (udp_datagram now a peer bs s)"
proof (cases "sc_peer (sp_vcs s ! a) \<noteq> None \<and> sc_peer (sp_vcs s ! a) \<noteq> Some peer")
  case False
  let ?f = "frame_data (sc_cid (sp_vcs s ! a)) (sc_seq (sp_vcs s ! a)) bs"
  let ?s0 = "upd_sc a (\<lambda>sc. sc\<lparr>sc_peer := Some peer\<rparr>) s"
  let ?s1 = "?s0\<lparr>sp_udp_sent := sp_udp_sent s + 1\<rparr>"
  have i1: "emit_inv F ?s1" using inv by (auto simp: quiet_def intro!: emit_inv_quiet)
  obtain sent s2 where f: "send_retry 3 ?f ?s1 = (sent, s2)" by force
  note s2 = send_retry_spec [OF f]
  show ?thesis
  proof (cases sent)
    case True
    have "emit_inv F (upd_sc a (\<lambda>sc. (sc\<lparr>sc_bytes_sent := sc_bytes_sent sc + word_of_nat (length bs),
        sc_frames_sent := sc_frames_sent sc + 1, sc_last_active := now\<rparr>)
        \<lparr>sc_seq := sc_seq sc + 1, sc_sent := sc_sent sc @ [bs]\<rparr>) s2)"
      by (rule record_data_emit [OF i1]) (use s2 True a ph udp len in \<open>auto simp: quiet_def\<close>)
    then show ?thesis using inv f True by (simp add: udp_datagram_def Let_def)
  next
    case nsent: False
    then have "emit_inv F s2" using i1 s2 by (simp add: emit_inv_def)
    then show ?thesis using inv f nsent by (simp add: udp_datagram_def Let_def)
  qed
qed (use inv in \<open>simp add: udp_datagram_def Let_def\<close>)

lemma udp_client_step_emit:
  assumes "emit_inv F s" and "a < length (sp_vcs s)"
  shows "emit_inv F (udp_client_step now a ev s)"
proof -
  have n: "emit_inv F (upd_sc a (\<lambda>sc. sc\<lparr>sc_notify := False\<rparr>) s)"
    by (rule emit_inv_quiet [OF assms(1)]) (simp add: quiet_def)
  then show ?thesis
    using assms
    by (auto simp: udp_client_step_def Let_def end_udp_emit intro!: udp_datagram_emit split: udp_client_event.split)
qed

lemma udp_response_emit: "emit_inv F s \<Longrightarrow> emit_inv F (udp_response_step a ok s)"
  by (auto simp: udp_response_step_def Let_def quiet_def intro!: emit_inv_quiet split: prod.split option.split)

lemma sweep_out_emit: "emit_inv F s \<Longrightarrow> quiet (sp_vcs s ! a) (g (sp_vcs s ! a)) \<Longrightarrow> emit_inv F (sweep_out now cid a g s)"
  by (simp add: sweep_out_def Let_def emit_inv_send emit_inv_quiet)

lemma sp_sweep_conn_emit: "emit_inv F s \<Longrightarrow> emit_inv F (sp_sweep_conn now ca s)"
  by (simp add: sp_sweep_conn_def Let_def sweep_out_emit quiet_def [of _ "_\<lparr>sc_rst := True\<rparr>"])

lemma sp_heartbeat_emit: "emit_inv F s \<Longrightarrow> emit_inv F (sp_heartbeat now now_ms s)"
proof -
  have "emit_inv F t \<Longrightarrow> emit_inv F (fold (sp_sweep_conn now) cs t)" for cs t
    by (induction cs arbitrary: t) (simp_all add: sp_sweep_conn_emit)
  then show "emit_inv F s \<Longrightarrow> ?thesis" by (simp add: sp_heartbeat_def Let_def)
qed

lemma writer_quiet: "quiet sc (client_writer_step d ev sc)"
  by (auto simp: client_writer_step_def quiet_def split: prod.split option.split cwriter_event.split)

subsection \<open>Reachable states\<close>

text \<open>
  \<open>sp_reach Q k w\<close>: the states of a splitter with chunk size \<open>k\<close> and reorder budget \<open>w\<close> after any
  sequence of events in which every frame from the tunnels satisfies \<open>Q\<close> and every frame that a
  dead tunnel reports was given to a tunnel before.
\<close>

inductive sp_reach :: "(frame \<Rightarrow> bool) \<Rightarrow> nat \<Rightarrow> nat \<Rightarrow> sp \<Rightarrow> bool" for Q k w where
  sp_start: "sp_reach Q k w (sp_init k w)"
| sp_step: "sp_reach Q k w s \<Longrightarrow> (\<And>i now ms d f. ev = SvFrame i now ms d f \<Longrightarrow> Q f) \<Longrightarrow>
     (\<And>now i fs. ev = SvLost now i fs \<Longrightarrow> set fs \<subseteq> set (sp_emitted s)) \<Longrightarrow> sp_reach Q k w (sp_exec ev s)"

lemma sp_exec_emit:
  assumes "emit_inv F s" and "\<And>now i fs. ev = SvLost now i fs \<Longrightarrow> set fs \<subseteq> set (sp_emitted s)"
  shows "emit_inv F (sp_exec ev s)"
  using assms
  by (cases ev) (simp_all add: sp_exec_def read_frame_emit tunnel_lost_emit client_accepted_emit client_step_emit
      udp_client_step_emit udp_response_emit sp_heartbeat_emit tunnel_up_def tunnel_down_def
      accept_client_def begin_client_def emit_inv_quiet writer_quiet)

lemma emit_inv_now: "emit_inv F s \<Longrightarrow> emit_inv (set (sp_emitted s)) s"
  by (simp add: emit_inv_def)

lemma sp_emitted_mono:
  assumes "emit_inv F s" and "\<And>now i fs. ev = SvLost now i fs \<Longrightarrow> set fs \<subseteq> set (sp_emitted s)"
  shows "set (sp_emitted s) \<subseteq> set (sp_emitted (sp_exec ev s))"
  using sp_exec_emit [OF emit_inv_now [OF assms(1)] assms(2)] by (simp add: emit_inv_def)

lemma reach_emit_inv:
  assumes "sp_reach Q k w s" and "k \<le> MAX_PAYLOAD"
  shows "emit_inv {} s"
  using assms(1)
proof (induction rule: sp_reach.induct)
  case sp_start
  then show ?case using assms(2) by (simp add: emit_inv_def sp_init_def)
next
  case (sp_step s ev)
  then show ?case using sp_exec_emit by blast
qed

end
