(* ===== verification/Queues.thy ===== *)
theory Queues
  imports Endpoint ReassemblerEmit SplitterInv
begin

text \<open>
  The queues of the links.  Every frame that waits in a link's queue, or that a dead link reports as
  lost, was recorded as emitted; every event of either program keeps this (\<open>rs_queued\<close>,
  \<open>sp_queued\<close>).  \<open>Network\<close> builds on it: what a drain task puts on the wire was emitted.
\<close>

subsection \<open>The reassembler\<close>

definition rs_queued :: "rs \<Rightarrow> bool" where
  "rs_queued s \<longleftrightarrow> holds (set (rs_emitted s)) (pl_links (rs_pool s))"

lemma rs_queued_fields [simp]:
  "rs_queued (s\<lparr>rs_conns := x1\<rparr>) = rs_queued s" "rs_queued (s\<lparr>rs_pending := x2\<rparr>) = rs_queued s"
  "rs_queued (s\<lparr>rs_closed := x3\<rparr>) = rs_queued s" "rs_queued (s\<lparr>rs_handshaking := x4\<rparr>) = rs_queued s"
  "rs_queued (s\<lparr>rs_vcs := x5\<rparr>) = rs_queued s" "rs_queued (s\<lparr>rs_pending_bytes := x6\<rparr>) = rs_queued s"
  "rs_queued (s\<lparr>rs_resets := x7\<rparr>) = rs_queued s" "rs_queued (s\<lparr>rs_permits := x8\<rparr>) = rs_queued s"
  "rs_queued (s\<lparr>rs_tasks := x9\<rparr>) = rs_queued s" "rs_queued (s\<lparr>rs_next_task := x10\<rparr>) = rs_queued s"
  "rs_queued (s\<lparr>rs_timers := x11\<rparr>) = rs_queued s" "rs_queued (s\<lparr>rs_udp_out := x12\<rparr>) = rs_queued s"
  "rs_queued (upd_vc a g s) = rs_queued s"
  by (simp_all add: rs_queued_def upd_vc_def)

lemma send_ctl_queued [simp]: "rs_queued s \<Longrightarrow> rs_queued (send_ctl f s)"
  using pool_send_holds [of f "rs_pool s" _ _ "set (rs_emitted s)"]
  by (cases "fst (pool_send f (rs_pool s))") (auto simp: rs_queued_def send_ctl_def split: prod.split)

lemma rs_prim_queued [simp]:
  "rs_queued (tombstone n c s) = rs_queued s" "rs_queued (end_handshaking c s) = rs_queued s"
  "rs_queued (count_reset s) = rs_queued s" "rs_queued (notify_task k s) = rs_queued s"
  "rs_queued (end_task i h s) = rs_queued s" "rs_queued (cancel_pending c s) = rs_queued s"
  "rs_queued (snd (remove_pending c s)) = rs_queued s" "rs_queued (forward_udp_datagram a p s) = rs_queued s"
  "rs_queued (finish_if_done n a c s) = rs_queued s" "rs_queued (remove_conn c s) = rs_queued s"
  "rs_queued (half_close_conn a q s) = rs_queued s" "rs_queued (insert_conn c vc s) = rs_queued s"
  by (simp_all add: tombstone_def end_handshaking_def count_reset_def notify_task_def end_task_def cancel_pending_def
      remove_pending_def forward_udp_datagram_def finish_if_done_def remove_conn_def half_close_conn_def insert_conn_def
      Let_def split: option.split sum.split prod.split)

lemma reset_data_conn_queued [simp]: "rs_queued s \<Longrightarrow> rs_queued (reset_data_conn n c s)"
  by (simp add: reset_data_conn_def)

lemma data_established_queued [simp]: "rs_queued s \<Longrightarrow> rs_queued (data_established n a f s)"
  by (simp add: data_established_def Let_def split: prod.split delivery.split)

lemma fold_queued: "(\<And>x t. rs_queued t \<Longrightarrow> rs_queued (g x t)) \<Longrightarrow> rs_queued s \<Longrightarrow> rs_queued (fold g xs s)"
  by (induction xs arbitrary: s) simp_all

lemma drop_pending_queued [simp]: "rs_queued s \<Longrightarrow> rs_queued (drop_pending n ke s)"
  by (simp add: drop_pending_def)

lemma try_reserve_queued: "try_reserve_pending n ex k s = (r, s') \<Longrightarrow> rs_queued s \<Longrightarrow> rs_queued s'"
proof (induction n ex k s rule: try_reserve_pending.induct)
  case (1 n ex k s)
  show ?case using "1.prems" "1.IH" by (subst (asm) try_reserve_pending.simps) (auto split: if_splits option.splits)
qed

lemma rs_pending_queued [simp]:
  "rs_queued s \<Longrightarrow> rs_queued (fail_pending_conn n c s)" "rs_queued s \<Longrightarrow> rs_queued (sweep_stale_pending n t s)"
  by (simp_all add: fail_pending_conn_def sweep_stale_pending_def Let_def fold_queued)

lemma data_unknown_queued [simp]: "rs_queued s \<Longrightarrow> rs_queued (data_unknown n f s)"
  by (auto simp: data_unknown_def Let_def dest: try_reserve_queued split: prod.split option.split bool.split)

lemma rs_handlers_queued [simp]:
  "rs_queued s \<Longrightarrow> rs_queued (handle_data n f s)" "rs_queued s \<Longrightarrow> rs_queued (handle_fin n f s)"
  "rs_queued s \<Longrightarrow> rs_queued (handle_rst n f s)" "rs_queued s \<Longrightarrow> rs_queued (syn_fail n c s)"
  "rs_queued s \<Longrightarrow> rs_queued (syn_abort c s)" "rs_queued s \<Longrightarrow> rs_queued (syn_cancelled n c s)"
  by (simp_all add: handle_data_def handle_fin_def handle_rst_def syn_fail_def syn_abort_def syn_cancelled_def Let_def
      split: option.split)

lemma syn_begin_queued [simp]: "rs_queued s \<Longrightarrow> rs_queued (syn_begin n p f s)"
  by (simp add: syn_begin_def Let_def split: option.split sum.split)

lemma remove_pending_queued: "remove_pending c s = (e, s') \<Longrightarrow> rs_queued s' = rs_queued s"
  using rs_prim_queued(7) by (metis snd_conv)

lemma syn_udp_bound_queued: "rs_queued s \<Longrightarrow> rs_queued (syn_udp_bound n c b s)"
  by (auto simp: syn_udp_bound_def Let_def remove_pending_queued intro!: fold_queued split: option.split prod.split)

lemma syn_drain_queued [simp]: "rs_queued s \<Longrightarrow> rs_queued (syn_drain n c a fs s)"
  by (simp add: syn_drain_def Let_def split: prod.split replay_end.split option.split)

lemma syn_connected_queued: "rs_queued s \<Longrightarrow> rs_queued (syn_connected n c r s)"
  by (auto simp: syn_connected_def Let_def remove_pending_queued split: connect_result.split option.split prod.split)

lemma upd_link_queued: "rs_queued s \<Longrightarrow> (\<And>E l. holds E [l] \<Longrightarrow> holds E [g l]) \<Longrightarrow> rs_queued (s\<lparr>rs_pool := upd_link i g (rs_pool s)\<rparr>)"
  by (auto simp: rs_queued_def intro!: upd_link_holds) (simp add: holds_def)

lemma read_link_frame_queued: "rs_queued s \<Longrightarrow> rs_queued (read_link_frame i n m f s)"
  by (auto simp: read_link_frame_def dispatch_frame_def handle_frame_def Let_def holds_def intro!: upd_link_queued)

text \<open>A frame that \<open>send_async\<close> gave to a link.\<close>

lemma burst_queued:
  assumes "send_async_burst rnd f [] (rs_pool s) = (Sent, p)" and "rs_queued s"
  shows "rs_queued (s\<lparr>rs_pool := p, rs_emitted := rs_emitted s @ [f]\<rparr>)"
  using burst_holds [OF assms(1), of "set (rs_emitted s)"] assms(2) by (simp add: rs_queued_def)

lemma reader_step_queued: "rs_queued s \<Longrightarrow> rs_queued (reader_step rnd now a ev s)"
  by (auto simp: reader_step_def Let_def burst_queued split: reader_event.split prod.split async_outcome.split)

lemma udp_reader_step_queued: "rs_queued s \<Longrightarrow> rs_queued (udp_reader_step now a ev s)"
  using pool_send_holds [of _ "rs_pool s" _ _ "set (rs_emitted s)"]
  by (fastforce simp: udp_reader_step_def Let_def rs_queued_def upd_vc_def
      split: udp_event.split sum.split prod.split bool.split option.split)

lemma sweep_conn_queued: "rs_queued s \<Longrightarrow> rs_queued (sweep_conn n ca s)"
  by (simp add: sweep_conn_def)

lemma heartbeat_queued:
  assumes "rs_queued s"
  shows "rs_queued (heartbeat n m s)"
proof -
  have "rs_queued (s\<lparr>rs_pool := snd (sweep_idle m LINK_IDLE_TIMEOUT (compact (rs_pool s)))\<rparr>)"
    using assms by (simp add: rs_queued_def sweep_idle_holds compact_holds)
  then show ?thesis by (simp add: heartbeat_def Let_def fold_queued sweep_conn_queued)
qed

lemma link_lost_queued: "rs_queued s \<Longrightarrow> rs_queued (link_lost i lost s)"
  by (auto simp: link_lost_def resend_lost_def holds_def intro!: fold_queued upd_link_queued)

lemma rs_exec_queued:
  assumes "rs_queued s" and "\<And>p. ev \<noteq> EvPool p"
  shows "rs_queued (rs_exec ev s)"
proof (cases ev)
  case (EvAccept i ms)
  then show ?thesis using assms(1) pool_add_holds by (simp add: rs_exec_def accept_link_def rs_queued_def)
next
  case (EvLinkEnd i)
  then show ?thesis using assms(1) by (auto simp: rs_exec_def link_ended_def holds_def intro!: upd_link_queued)
qed (use assms in \<open>auto simp: rs_exec_def read_link_frame_queued syn_udp_bound_queued syn_connected_queued
      reader_step_queued udp_reader_step_queued heartbeat_queued link_lost_queued split: option.split\<close>)

subsection \<open>The splitter\<close>

definition sp_queued :: "sp \<Rightarrow> bool" where
  "sp_queued s \<longleftrightarrow> holds (set (sp_emitted s)) (pl_links (sp_pool s))"

lemma sp_queued_fields [simp]:
  "sp_queued (s\<lparr>sp_conns := x1\<rparr>) = sp_queued s" "sp_queued (s\<lparr>sp_time_wait := x2\<rparr>) = sp_queued s"
  "sp_queued (s\<lparr>sp_resets := x4\<rparr>) = sp_queued s" "sp_queued (s\<lparr>sp_vcs := x3\<rparr>) = sp_queued s"
  "sp_queued (s\<lparr>sp_spawned := x5\<rparr>) = sp_queued s" "sp_queued (s\<lparr>sp_half_open := x6\<rparr>) = sp_queued s"
  "sp_queued (s\<lparr>sp_slot := x7\<rparr>) = sp_queued s" "sp_queued (s\<lparr>sp_udp_sent := x8\<rparr>) = sp_queued s"
  "sp_queued (s\<lparr>sp_udp_recv := x9\<rparr>) = sp_queued s" "sp_queued (upd_sc a g s) = sp_queued s"
  by (simp_all add: sp_queued_def upd_sc_def)

lemma sp_send_queued [simp]: "sp_queued s \<Longrightarrow> sp_queued (snd (sp_send f s))"
  using pool_send_holds [of f "sp_pool s" _ _ "set (sp_emitted s)"]
  by (cases "fst (pool_send f (sp_pool s))") (auto simp: sp_queued_def sp_send_def split: prod.split)

lemma sp_sent_queued: "sp_send f s = (ok, s') \<Longrightarrow> sp_queued s \<Longrightarrow> sp_queued s'"
  using sp_send_queued [of s f] by simp

lemma sp_send_async_queued: "sp_send_async rnd f s = (ok, s') \<Longrightarrow> sp_queued s \<Longrightarrow> sp_queued s'"
  using burst_holds [of rnd f "[]" "sp_pool s" _ _ "set (sp_emitted s)"]
  by (auto simp: sp_send_async_def sp_queued_def split: prod.splits async_outcome.splits)

lemma reset_conn_queued [simp]: "sp_queued s \<Longrightarrow> sp_queued (reset_conn now cid s)"
  by (simp add: reset_conn_def Let_def split: option.split)

lemma inbound_queued [simp]:
  "sp_queued s \<Longrightarrow> sp_queued (inbound_data now drains f s)" "sp_queued (inbound_fin f s) = sp_queued s"
  by (simp_all add: inbound_data_def inbound_fin_def Let_def split: option.split prod.split send_result.split)

lemma sp_upd_link_queued: "sp_queued s \<Longrightarrow> (\<And>E l. holds E [l] \<Longrightarrow> holds E [g l]) \<Longrightarrow> sp_queued (s\<lparr>sp_pool := upd_link i g (sp_pool s)\<rparr>)"
  by (auto simp: sp_queued_def intro!: upd_link_holds) (simp add: holds_def)

lemma read_frame_queued: "sp_queued s \<Longrightarrow> sp_queued (read_frame i now now_ms drains f s)"
  by (auto simp: read_frame_def Let_def handle_inbound_frame_def holds_def intro!: sp_upd_link_queued)

lemma sp_fold_queued: "(\<And>x t. sp_queued t \<Longrightarrow> sp_queued (g x t)) \<Longrightarrow> sp_queued s \<Longrightarrow> sp_queued (fold g xs s)"
  by (induction xs arbitrary: s) simp_all

lemma tunnel_lost_queued: "sp_queued s \<Longrightarrow> sp_queued (tunnel_lost now i lost s)"
  by (auto simp: tunnel_lost_def recover_lost_def holds_def intro!: sp_fold_queued sp_upd_link_queued)

lemma sp_prim_queued [simp]:
  "sp_queued (insert_sconn cid sc s) = sp_queued s" "sp_queued (remove_own cid a s) = sp_queued s"
  "sp_queued (end_handler a s) = sp_queued s" "sp_queued (finish_client now a s) = sp_queued s"
  "sp_queued (grace_tick now a seen s) = sp_queued s" "sp_queued (udp_response_step a ok s) = sp_queued s"
  by (auto simp: insert_sconn_def remove_own_def end_handler_def finish_client_def grace_tick_def udp_response_step_def
      Let_def split: option.split prod.split)

lemma open_queued:
  "sp_queued s \<Longrightarrow> sp_queued (snd (open_tcp now cid target reply s))"
  "sp_queued s \<Longrightarrow> sp_queued (snd (open_udp now cid peer reply s))"
  by (auto simp: open_tcp_def open_udp_def Let_def dest!: sp_sent_queued split: sum.split prod.split)

lemma client_accepted_queued: "sp_queued s \<Longrightarrow> sp_queued (snd (client_accepted now draws res s))"
  by (auto simp: client_accepted_def Let_def open_queued split: option.split socks5_result.split prod.split)

lemma client_close_queued: "sp_queued s \<Longrightarrow> sp_queued (client_close rnd now a reason force fin_ok s)"
  by (auto simp: client_close_def Let_def dest: sp_send_async_queued split: prod.split)

lemma client_step_queued: "sp_queued s \<Longrightarrow> sp_queued (client_step rnd now a ev s)"
  by (auto simp: client_step_def Let_def client_close_queued dest: sp_send_async_queued
      split: phase.split client_event.split prod.split)

lemma send_retry_queued: "send_retry n f s = (ok, s') \<Longrightarrow> sp_queued s \<Longrightarrow> sp_queued s'"
  by (induction n arbitrary: s) (auto dest: sp_sent_queued split: prod.splits bool.splits)

lemma udp_queued:
  "sp_queued s \<Longrightarrow> sp_queued (end_udp now a s)" "sp_queued s \<Longrightarrow> sp_queued (udp_datagram now a peer bs s)"
  by (auto simp: end_udp_def udp_datagram_def Let_def dest: send_retry_queued split: prod.split)

lemma udp_client_step_queued: "sp_queued s \<Longrightarrow> sp_queued (udp_client_step now a ev s)"
  by (auto simp: udp_client_step_def Let_def udp_queued split: udp_client_event.split)

lemma sp_heartbeat_queued:
  assumes "sp_queued s"
  shows "sp_queued (sp_heartbeat now now_ms s)"
proof -
  have "sp_queued t \<Longrightarrow> sp_queued (sp_sweep_conn now ca t)" for ca t
    by (simp add: sp_sweep_conn_def sweep_out_def Let_def)
  moreover have "sp_queued (s\<lparr>sp_pool := snd (sweep_idle now_ms LINK_IDLE_TIMEOUT (compact (sp_pool s)))\<rparr>)"
    using assms by (simp add: sp_queued_def sweep_idle_holds compact_holds)
  ultimately show ?thesis by (simp add: sp_heartbeat_def Let_def sp_fold_queued)
qed

lemma sp_exec_queued:
  assumes "sp_queued s" and "\<And>p. ev \<noteq> SvPool p"
  shows "sp_queued (sp_exec ev s)"
proof (cases ev)
  case (SvUp i ms)
  then show ?thesis using assms(1) pool_add_holds by (simp add: sp_exec_def tunnel_up_def sp_queued_def)
next
  case (SvDown i)
  then show ?thesis using assms(1) by (auto simp: sp_exec_def tunnel_down_def holds_def intro!: sp_upd_link_queued)
qed (use assms in \<open>auto simp: sp_exec_def read_frame_queued tunnel_lost_queued client_accepted_queued client_step_queued
      udp_client_step_queued sp_heartbeat_queued accept_client_def begin_client_def\<close>)

subsection \<open>Both programs use their tunnels as the tasks need\<close>

definition rs_fine :: "rs_event \<Rightarrow> rs \<Rightarrow> bool" where
  "rs_fine ev s \<longleftrightarrow> (\<forall>p. ev \<noteq> EvPool p) \<and> (\<forall>i fs. ev = EvLost i fs \<longrightarrow> set fs \<subseteq> set (rs_emitted s))"

definition sp_fine :: "sp_event \<Rightarrow> sp \<Rightarrow> bool" where
  "sp_fine ev s \<longleftrightarrow> (\<forall>p. ev \<noteq> SvPool p) \<and> (\<forall>now i fs. ev = SvLost now i fs \<longrightarrow> set fs \<subseteq> set (sp_emitted s))"

interpretation ru: tunnel_user rs_pool rs_emitted rs_exec rs_fine "rs_emit {}"
proof unfold_locales
  fix s ev
  assume "rs_emit {} s" and "rs_fine ev s"
  then show "rs_emit {} (rs_exec ev s)" "set (rs_emitted s) \<subseteq> set (rs_emitted (rs_exec ev s))"
    using rs_exec_emit rs_emitted_mono by (auto simp: rs_fine_def)
next
  fix s ev
  assume "rs_fine ev s" and "holds (set (rs_emitted s)) (pl_links (rs_pool s))"
  then show "holds (set (rs_emitted (rs_exec ev s))) (pl_links (rs_pool (rs_exec ev s)))"
    using rs_exec_queued by (auto simp: rs_fine_def rs_queued_def)
qed

interpretation su: tunnel_user sp_pool sp_emitted sp_exec sp_fine "emit_inv {}"
proof unfold_locales
  fix s ev
  assume "emit_inv {} s" and "sp_fine ev s"
  then show "emit_inv {} (sp_exec ev s)" "set (sp_emitted s) \<subseteq> set (sp_emitted (sp_exec ev s))"
    using sp_exec_emit sp_emitted_mono by (auto simp: sp_fine_def)
next
  fix s ev
  assume "sp_fine ev s" and "holds (set (sp_emitted s)) (pl_links (sp_pool s))"
  then show "holds (set (sp_emitted (sp_exec ev s))) (pl_links (sp_pool (sp_exec ev s)))"
    using sp_exec_queued by (auto simp: sp_fine_def sp_queued_def)
qed

end
