(* ===== verification/ReassemblerProps.thy ===== *)
theory ReassemblerProps
  imports ReassemblerInv
begin

text \<open>
  What the reassembler guarantees in every reachable state (\<open>rs_reach\<close>, by rule induction over
  the events), from the invariants of \<open>ReassemblerInv\<close>; and what single handlers do.
\<close>

subsection \<open>Reachable states\<close>

text \<open>
  \<open>rs_reach Q w k\<close>: the states of a reassembler with reorder budget \<open>w\<close> and chunk size \<open>k\<close> after
  any sequence of events in which every frame from the links satisfies \<open>Q\<close> and every frame that a
  dead link reports was given to a link before.  With \<open>legit sent\<close> for \<open>Q\<close>, the frames of the
  splitter are lost, delayed, duplicated and reordered at will, mixed with any timing of connects,
  writes, teardowns, heartbeats and link failures.
\<close>

inductive rs_reach :: "(frame \<Rightarrow> bool) \<Rightarrow> nat \<Rightarrow> nat \<Rightarrow> rs \<Rightarrow> bool" for Q w k where
  init: "rs_reach Q w k (rs_init w k)"
| step: "rs_reach Q w k s \<Longrightarrow> (\<And>i now ms f. ev = EvFrame i now ms f \<Longrightarrow> Q f) \<Longrightarrow>
     (\<And>i fs. ev = EvLost i fs \<Longrightarrow> set fs \<subseteq> set (rs_emitted s)) \<Longrightarrow> rs_reach Q w k (rs_exec ev s)"

lemma pend_inv_init: "pend_inv Q (rs_init w k)"
  by (simp add: pend_inv_def pend_ok_def rs_init_def)

lemma conn_inv_init: "conn_inv sent (rs_init w k)"
  by (simp add: conn_inv_ex_def rs_init_def)

lemma reach_inv:
  assumes "rs_reach (legit sent) w k s" and "\<And>c. length (sent c) + 1 < 2 ^ 64"
  shows "pend_inv (legit sent) s \<and> conn_inv sent s"
  using assms(1)
proof (induction rule: rs_reach.induct)
  case init
  then show ?case by (simp add: pend_inv_init conn_inv_init)
next
  case (step s ev)
  then show ?case using rs_exec_pend_inv rs_exec_conn_inv assms(2) by blast
qed

lemma fold_pend_inv: "pend_inv (\<lambda>_. True) s \<Longrightarrow> pend_inv (\<lambda>_. True) (fold rs_exec evs s)"
  by (induction evs arbitrary: s) (simp_all add: rs_exec_pend_inv)

lemma reach_conn_ok:
  assumes "rs_reach (legit sent) w k s" and "\<And>c. length (sent c) + 1 < 2 ^ 64" and "a < length (rs_vcs s)"
  shows "conn_ok (sent (vc_cid (rs_vcs s ! a))) (rs_vcs s ! a)"
  using reach_inv [OF assms(1,2)] conn_inv_vc assms(3) by blast

definition rs_ev_ok :: "(frame \<Rightarrow> bool) \<Rightarrow> rs_event \<Rightarrow> bool" where
  "rs_ev_ok Q ev \<longleftrightarrow> (case ev of EvFrame i now ms f \<Rightarrow> Q f | EvLost i fs \<Rightarrow> fs = [] | _ \<Rightarrow> True)"

lemma fold_reach: "rs_reach Q w k s \<Longrightarrow> list_all (rs_ev_ok Q) evs \<Longrightarrow> rs_reach Q w k (fold rs_exec evs s)"
proof (induction evs arbitrary: s)
  case (Cons ev evs)
  then have "rs_reach Q w k (rs_exec ev s)" by (intro rs_reach.step) (auto simp: rs_ev_ok_def)
  then show ?case using Cons by simp
qed simp

subsection \<open>A concrete run\<close>

text \<open>
  DATA 2 arrives before the SYN, the FIN before DATA 1; the connect succeeds, the writer writes
  both chunks and then half-closes.
\<close>

definition demo_sent :: "u32 \<Rightarrow> bytes list" where
  "demo_sent c = (if c = 1 then [[10], [20]] else [])"

definition demo_events :: "rs_event list" where
  "demo_events =
     [EvFrame 0 0 0 (frame_data 1 2 [20]), EvFrame 0 1 1 (frame_syn 1 [0x06, 0, 1, 0x7A, 0, 80]),
      EvConnect 2 0 ConnOk, EvFrame 0 3 3 (frame_fin 1 3), EvFrame 0 4 4 (frame_data 1 1 [10]),
      EvWriter 0 (WChunk WrWritten), EvWriter 0 (WChunk WrWritten), EvWriter 0 (WHalfClose [])]"

definition demo_state :: rs where
  "demo_state = fold rs_exec demo_events (rs_init 100 10)"

lemma demo_syn_decode:
  "syn_decode [0x06, 0, 1, 0x7A, 0, 80] = Inr \<lparr>proto = PROTO_TCP, address = [0x7A], port = 80\<rparr>"
  by (simp add: syn_decode_def from_be_bytes_def from_be_def PROTO_TCP_def)

lemmas rs_run_defs = rs_exec_def rs_init_def read_link_frame_def upd_link_def dispatch_frame_def handle_frame_def handle_data_def
  data_established_def data_unknown_def handle_fin_def half_close_conn_def finish_if_done_def is_done_def
  start_half_close_def close_write_half_def is_complete_through_def deliver_def egress_write_all_def
  push_def drain_pending.simps with_limit_def new_tcp_vconn_def new_vconn_def insert_conn_def
  syn_begin_def syn_connected_def syn_drain_def end_task_def remove_pending_def end_handshaking_def
  upd_vc_def note_recv_def tombstone_def new_pending_def writer_step_def end_writer_def
  try_reserve_pending.simps new_chan_def try_send_def try_recv_def notify_one_def Let_def thas_def
  EGRESS_CHANNEL_CAP_def MAX_PENDING_FRAMES_PER_CID_def MAX_CONCURRENT_SYN_HANDSHAKES_def

lemma demo_gap: "\<not> (3 :: u64) \<le> 1"
  by (simp add: word_le_nat_alt)

lemma demo_run:
  "map (\<lambda>v. (vc_cid v, vc_clean v, vc_sock v, vc_is_udp v)) (rs_vcs demo_state) = [(1, True, [10, 20], False)]"
  by (simp add: demo_state_def demo_events_def rs_run_defs demo_syn_decode demo_gap pool_new_def frame_consts)

lemma demo_conn: "length (rs_vcs demo_state) = 1" "vc_cid (rs_vcs demo_state ! 0) = 1"
    "vc_clean (rs_vcs demo_state ! 0)" "\<not> vc_is_udp (rs_vcs demo_state ! 0)"
  using demo_run by (auto simp: map_eq_Cons_conv)

lemma demo_bound: "length (demo_sent c) + 1 < 2 ^ 64"
  by (simp add: demo_sent_def)

lemma demo_reach: "rs_reach (legit demo_sent) 100 10 demo_state"
  unfolding demo_state_def
  by (rule fold_reach [OF rs_reach.init])
     (simp add: demo_events_def rs_ev_ok_def legit_def demo_sent_def in_stream_def)

subsection \<open>The stream to a target\<close>

text \<open>
  What the writer of a connection has put on its target's socket is a prefix of the bytes the
  splitter sent, also on connections that were reset, torn down or force-closed; and after an
  unforced half-close it is all of them.
\<close>

lemma egress_writes_prefix:
  assumes "rs_reach (legit sent) w k s" and "\<And>c. length (sent c) + 1 < 2 ^ 64" and "a < length (rs_vcs s)"
  shows "\<exists>rest. concat (sent (vc_cid (rs_vcs s ! a))) = vc_sock (rs_vcs s ! a) @ rest"
proof -
  from reach_conn_ok [OF assms] obtain n r where
    "vc_enq (rs_vcs s ! a) = take n (sent (vc_cid (rs_vcs s ! a)))"
    "concat (vc_enq (rs_vcs s ! a)) = vc_sock (rs_vcs s ! a) @ r" by (auto simp: conn_ok_def data_ok_def)
  then show ?thesis by (metis append.assoc append_take_drop_id concat_append)
qed

lemma clean_close_is_complete:
  assumes "rs_reach (legit sent) w k s" and "\<And>c. length (sent c) + 1 < 2 ^ 64" and "a < length (rs_vcs s)"
    and "vc_clean (rs_vcs s ! a)"
  shows "vc_sock (rs_vcs s ! a) = concat (sent (vc_cid (rs_vcs s ! a)))"
  using reach_conn_ok [OF assms(1-3)] assms(4) by (simp add: conn_ok_def close_ok_def)

text \<open>
  The close goes through: once the FIN has arrived and the stream is complete, the half-close arm of a
  running writer finds its permit; with successful writes it hands over the rest and ends.
\<close>

lemma drain_queue_all: "drain_queue cs (replicate (length cs) WrWritten) = (concat cs, True)"
  by (induction cs) simp_all

lemma complete_close_finishes:
  assumes reach: "rs_reach (legit sent) w k s" and bound: "\<And>c. length (sent c) + 1 < 2 ^ 64"
    and c: "tget (rs_conns s) c = Some a" and vc: "vc = rs_vcs s ! a" "\<not> vc_is_udp vc" "vc_fin_received vc"
    and complete: "is_complete_through (vc_reorder vc) (vc_fin_seq vc)"
    and run: "\<not> vc_wr_done vc" "\<not> vc_cancel_writer vc"
  shows "\<exists>q. vc_egress vc = Some q \<and>
    (let vc' = rs_vcs (rs_exec (EvWriter a (WHalfClose (replicate (length (ch_queue q)) WrWritten))) s) ! a
     in vc_wr_done vc' \<and> vc_sock vc' = concat (sent c) \<and> vc_clean vc' = (\<not> vc_forced vc))"
proof -
  have inv: "conn_inv sent s" using reach_inv [OF reach bound] by simp
  note e = conn_inv_entry [OF inv c]
  have ok: "conn_ok (sent c) vc" and live: "conn_live (sent c) vc" using e vc by auto
  then have rel: "rb.stream_rel (sent c) (vc_reorder vc) (vc_enq vc)"
    using vc(2) by (simp add: conn_live_def conn_synced_def)
  have "vc_fin_seq vc = word_of_nat (length (sent c) + 1)" using ok vc(3) by (simp add: conn_ok_def close_ok_def)
  then have enq: "vc_enq vc = sent c" using complete_all [OF rel bound] complete by simp
  obtain q where q: "vc_egress vc = Some q" using ok vc(2) by (auto simp: conn_ok_def kind_ok_def)
  then obtain d where "vc_enq vc = d @ ch_queue q" "vc_sock vc = concat d"
    using ok run by (auto simp: conn_ok_def data_ok_def)
  then have sock: "concat (sent c) = vc_sock vc @ concat (ch_queue q)" using enq by simp
  have "vc_half_close vc" using live ok vc(2,3) complete run by (auto simp: conn_live_def conn_ok_def close_ok_def)
  then have "writer_step dr (WHalfClose (replicate (length (ch_queue q)) WrWritten)) vc
      = end_writer (vc\<lparr>vc_half_close := False, vc_sock := concat (sent c), vc_clean := \<not> vc_forced vc\<rparr>)" for dr
    using q run sock by (simp add: writer_step_def drain_queue_all)
  then show ?thesis using q e(1) vc by (simp add: rs_exec_def)
qed

subsection \<open>Properties\<close>

text \<open>
  C28. The memory for frames that arrive before their SYN is bounded, whatever peers send: the byte
  counter is exact and within its budget, no connection has more than 256 frames waiting, no more
  than 256 entries wait without a SYN, and only DATA and FIN frames of their own connection wait.
\<close>

theorem pending_budget_holds:
  "let s = fold rs_exec evs (rs_init w k) in
     rs_pending_bytes s = tsum pe_bytes (rs_pending s) \<and> rs_pending_bytes s \<le> MAX_PENDING_BYTES
     \<and> tsum unclaimed (rs_pending s) \<le> MAX_PENDING_CIDS
     \<and> set (rs_pending s) \<subseteq> {(c, e). entry_ok (\<lambda>_. True) c e}"
proof -
  have "pend_inv (\<lambda>_. True) (fold rs_exec evs (rs_init w k))"
    by (rule fold_pend_inv [OF pend_inv_init])
  then show ?thesis
    by (auto simp: pend_inv_def pend_ok_def Let_def dest: tget_in_set [THEN iffD2])
qed

text \<open>
  The \<open>expect\<close> on the egress channel cannot fire: no DATA frame delivered to a TCP connection
  of a reachable state panics.
\<close>

theorem deliver_never_panics:
  assumes "rs_reach (legit sent) w k s" and "\<And>c. length (sent c) + 1 < 2 ^ 64" and "a < length (rs_vcs s)"
    and "\<not> vc_is_udp (rs_vcs s ! a)"
  shows "fst (deliver sq pl (rs_vcs s ! a)) \<noteq> Panicked"
  using reach_conn_ok [OF assms(1-3)] assms(4)
  by (auto simp: conn_ok_def kind_ok_def deliver_def egress_write_all_def Let_def split: prod.splits if_splits)

theorem deliver_never_panics_witness: "fst (deliver 3 [1] (rs_vcs demo_state ! 0)) \<noteq> Panicked"
  by (rule deliver_never_panics [OF demo_reach demo_bound]) (simp_all add: demo_conn)

text \<open>
  C29. A reset is final until its tombstone expires: an RST removes the connection, wakes both its
  tasks and leaves a tombstone; a DATA frame that arrives afterwards is answered by an RST and
  changes nothing else, and a SYN that arrives afterwards opens no connection.
\<close>

theorem reset_is_final:
  assumes "tget (rs_conns s) c = Some a" and "a < length (rs_vcs s)" and "conn_id f = c" and "conn_id g = c"
  shows "let s1 = handle_rst now (frame_rst c) s in
     tget (rs_conns s1) c = None \<and> thas (rs_closed s1) c
     \<and> vc_cancel (rs_vcs s1 ! a) \<and> vc_cancel_writer (rs_vcs s1 ! a)
     \<and> handle_data now' f s1 = send_ctl (frame_rst c) s1
     \<and> rs_conns (syn_begin now' p g s1) = rs_conns s1 \<and> rs_tasks (syn_begin now' p g s1) = rs_tasks s1"
proof -
  let ?s1 = "handle_rst now (frame_rst c) s"
  have f: "tget (rs_conns ?s1) c = None" "thas (rs_closed ?s1) c"
    using assms(1) by (simp_all add: handle_rst_def thas_def remove_conn_def tget_tdel tget_tins)
  have w: "vc_cancel (rs_vcs ?s1 ! a) \<and> vc_cancel_writer (rs_vcs ?s1 ! a)"
    using assms(1,2) by (simp add: handle_rst_def thas_def remove_conn_def signal_teardown_def notify_one_def)
  have "rs_tasks (syn_abort c t) = rs_tasks t \<and> rs_conns (syn_abort c t) = rs_conns t" for t
    by (simp add: syn_abort_def end_handshaking_def remove_pending_def split: option.splits)
  then show ?thesis
    using f w assms(3,4)
    by (simp add: Let_def handle_data_def data_unknown_def syn_begin_def thas_def)
qed

theorem reset_is_final_witness:
  "thas (rs_closed (handle_rst 5 (frame_rst 1) (insert_conn 1 (new_tcp_vconn 1 100 0) (rs_init 100 10)))) 1"
  using reset_is_final [of "insert_conn 1 (new_tcp_vconn 1 100 0) (rs_init 100 10)" 1 0 "frame_rst 1" "frame_rst 1" 5 0 False]
  by (simp add: insert_conn_def rs_init_def Let_def)



end
