(* ===== verification/SplitterRecv.thy ===== *)
theory SplitterRecv
  imports SplitterInv
begin

text \<open>
  The other direction of the splitter: what its clients receive.  \<open>recv_inv\<close> is kept by every event
  whose inbound frame is legitimate for \<open>rcvd\<close>, the chunks that the reassembler sends on each
  connection.
\<close>

subsection \<open>The client channel\<close>

lemma client_sends_ok:
  assumes "client_sends c xs drains = (False, c', taken)"
  shows "taken @ ch_queue c' = ch_queue c @ xs \<and> (xs \<noteq> [] \<longrightarrow> ch_open c)"
  using assms
proof (induction xs arbitrary: c drains taken)
  case (Cons x xs)
  obtain r c1 where s1: "try_send c x = (r, c1)" by force
  obtain got c2 where s2: "(case drains of True # _ \<Rightarrow> try_recv c1 | _ \<Rightarrow> (None, c1)) = (got, c2)" by force
  obtain ovf c3 tk where s3: "client_sends c2 xs (tl drains) = (ovf, c3, tk)" by (metis surj_pair)
  from Cons.prems s1 s2 s3 have e: "r = SendOk" "\<not> ovf" "c3 = c'"
    "taken = (case got of None \<Rightarrow> tk | Some y \<Rightarrow> y # tk)" by (auto simp: Let_def)
  have q1: "ch_queue c1 = ch_queue c @ [x] \<and> ch_open c" using s1 e(1) by (auto simp: try_send_def split: if_splits)
  have q2: "(case got of None \<Rightarrow> [] | Some y \<Rightarrow> [y]) @ ch_queue c2 = ch_queue c1"
    using s2 by (auto simp: try_recv_def split: list.splits bool.splits)
  have "tk @ ch_queue c' = ch_queue c2 @ xs" using Cons.IH [of c2 "tl drains" tk] s3 e(2,3) by simp
  then show ?case using e(4) q1 q2 by (cases got) auto
qed simp

subsection \<open>The invariant\<close>

definition recv_ok :: "bytes list \<Rightarrow> sconn \<Rightarrow> bool" where
  "recv_ok ps sc \<longleftrightarrow>
     (\<exists>n. sc_enq sc = take n ps) \<and> (\<exists>rest. concat (sc_enq sc) = sc_out sc @ rest)
     \<and> (if sc_wr_done sc then ch_queue (sc_chan sc) = [] \<and> \<not> ch_open (sc_chan sc)
        else \<exists>d. sc_enq sc = d @ ch_queue (sc_chan sc) \<and> sc_out sc = concat d)
     \<and> (sc_fin_received sc \<longrightarrow> sc_fin_seq sc = word_of_nat (length ps + 1))"

text \<open>A UDP association: the datagrams queued for the client and given to it.\<close>

definition datagrams_ok :: "bytes list \<Rightarrow> sconn \<Rightarrow> bool" where
  "datagrams_ok ps sc \<longleftrightarrow> set (ch_queue (sc_chan sc)) \<subseteq> set ps \<and> snd ` set (sc_udp_out sc) \<subseteq> set ps"

definition recv_good :: "(u32 \<Rightarrow> bytes list) \<Rightarrow> sconn \<Rightarrow> bool" where
  "recv_good rcvd sc \<longleftrightarrow> (\<not> sc_is_udp sc \<and> \<not> sc_rst sc \<longrightarrow> recv_ok (rcvd (sc_cid sc)) sc)
     \<and> (sc_is_udp sc \<longrightarrow> datagrams_ok (rcvd (sc_cid sc)) sc)"

definition recv_live :: "(u32 \<Rightarrow> bytes list) \<Rightarrow> sconn \<Rightarrow> bool" where
  "recv_live rcvd sc \<longleftrightarrow> (\<not> sc_is_udp sc \<longrightarrow>
     \<not> sc_rst sc \<and> rb.stream_rel (rcvd (sc_cid sc)) (sc_reorder sc) (sc_enq sc))"

definition recv_inv :: "(u32 \<Rightarrow> bytes list) \<Rightarrow> sp \<Rightarrow> bool" where
  "recv_inv rcvd s \<longleftrightarrow> twf (sp_conns s)
     \<and> (\<forall>cid a. tget (sp_conns s) cid = Some a \<longrightarrow>
        a < length (sp_vcs s) \<and> sc_cid (sp_vcs s ! a) = cid \<and> recv_live rcvd (sp_vcs s ! a))
     \<and> (\<forall>a < length (sp_vcs s). recv_good rcvd (sp_vcs s ! a))"

lemma recv_inv_fields [simp]:
  "recv_inv rcvd (s\<lparr>sp_time_wait := x2\<rparr>) = recv_inv rcvd s" "recv_inv rcvd (s\<lparr>sp_pool := x3\<rparr>) = recv_inv rcvd s"
  "recv_inv rcvd (s\<lparr>sp_resets := x4\<rparr>) = recv_inv rcvd s" "recv_inv rcvd (s\<lparr>sp_spawned := x5\<rparr>) = recv_inv rcvd s"
  "recv_inv rcvd (s\<lparr>sp_half_open := x6\<rparr>) = recv_inv rcvd s" "recv_inv rcvd (s\<lparr>sp_slot := x7\<rparr>) = recv_inv rcvd s"
  "recv_inv rcvd (s\<lparr>sp_udp_sent := x8\<rparr>) = recv_inv rcvd s" "recv_inv rcvd (s\<lparr>sp_udp_recv := x9\<rparr>) = recv_inv rcvd s"
  by (simp_all add: recv_inv_def)

lemma recv_inv_cong: "sp_vcs s' = sp_vcs s \<Longrightarrow> sp_conns s' = sp_conns s \<Longrightarrow> recv_inv rcvd s' = recv_inv rcvd s"
  by (simp add: recv_inv_def)

lemma recv_inv_send [simp]: "recv_inv rcvd (snd (sp_send f s)) = recv_inv rcvd s"
  by (rule recv_inv_cong) simp_all

lemma nth_upd_sc:
  "b < length (sp_vcs s) \<Longrightarrow> sp_vcs (upd_sc a g s) ! b = (if b = a then g (sp_vcs s ! a) else sp_vcs s ! b)"
  by (simp add: upd_sc_def nth_list_update)

lemma recv_inv_twf: "recv_inv rcvd s \<Longrightarrow> twf (sp_conns s)"
  by (simp add: recv_inv_def)

lemma recv_invI:
  assumes "twf (sp_conns s)" and "\<And>c a. tget (sp_conns s) c = Some a \<Longrightarrow>
      a < length (sp_vcs s) \<and> sc_cid (sp_vcs s ! a) = c \<and> recv_live rcvd (sp_vcs s ! a)"
    and "\<And>a. a < length (sp_vcs s) \<Longrightarrow> recv_good rcvd (sp_vcs s ! a)"
  shows "recv_inv rcvd s"
  using assms by (simp add: recv_inv_def)

lemma recv_inv_entry:
  "recv_inv rcvd s \<Longrightarrow> tget (sp_conns s) c = Some a \<Longrightarrow>
     a < length (sp_vcs s) \<and> sc_cid (sp_vcs s ! a) = c \<and> recv_live rcvd (sp_vcs s ! a)"
  by (simp add: recv_inv_def)

lemma recv_inv_good: "recv_inv rcvd s \<Longrightarrow> a < length (sp_vcs s) \<Longrightarrow> recv_good rcvd (sp_vcs s ! a)"
  by (simp add: recv_inv_def)

lemma recv_inv_upd:
  assumes inv: "recv_inv rcvd s"
    and g: "a < length (sp_vcs s) \<Longrightarrow> sc_cid (g (sp_vcs s ! a)) = sc_cid (sp_vcs s ! a)
       \<and> (recv_good rcvd (sp_vcs s ! a) \<longrightarrow> recv_good rcvd (g (sp_vcs s ! a)))
       \<and> (recv_live rcvd (sp_vcs s ! a) \<and> tget (sp_conns s) (sc_cid (sp_vcs s ! a)) = Some a \<longrightarrow>
            recv_live rcvd (g (sp_vcs s ! a)))"
  shows "recv_inv rcvd (upd_sc a g s)"
proof (rule recv_invI)
  show "twf (sp_conns (upd_sc a g s))" using recv_inv_twf [OF inv] by simp
next
  fix c b assume "tget (sp_conns (upd_sc a g s)) c = Some b"
  then show "b < length (sp_vcs (upd_sc a g s)) \<and> sc_cid (sp_vcs (upd_sc a g s) ! b) = c
      \<and> recv_live rcvd (sp_vcs (upd_sc a g s) ! b)"
    using recv_inv_entry [OF inv, of c b] g by (auto simp: nth_upd_sc)
next
  fix b assume "b < length (sp_vcs (upd_sc a g s))"
  then show "recv_good rcvd (sp_vcs (upd_sc a g s) ! b)"
    using recv_inv_good [OF inv, of b] g by (auto simp: nth_upd_sc)
qed

text \<open>An entry leaves the table and its connection changes, at most to a reset one.\<close>

lemma recv_inv_drop:
  assumes inv: "recv_inv rcvd s" and cid: "tget (sp_conns s) c = Some a"
    and g: "sc_cid (g (sp_vcs s ! a)) = c" "recv_good rcvd (g (sp_vcs s ! a))"
  shows "recv_inv rcvd (upd_sc a g (s\<lparr>sp_conns := tdel c (sp_conns s)\<rparr>))" (is "recv_inv rcvd ?t")
proof (rule recv_invI)
  show "twf (sp_conns ?t)" using recv_inv_twf [OF inv] by (simp add: insert_sconn_def)
next
  fix c' b assume b: "tget (sp_conns ?t) c' = Some b"
  then have c': "c' \<noteq> c" "tget (sp_conns s) c' = Some b" by (auto simp: tget_tdel split: if_splits)
  have "b \<noteq> a" using recv_inv_entry [OF inv cid] recv_inv_entry [OF inv c'(2)] c'(1) by auto
  then show "b < length (sp_vcs ?t) \<and> sc_cid (sp_vcs ?t ! b) = c' \<and> recv_live rcvd (sp_vcs ?t ! b)"
    using recv_inv_entry [OF inv c'(2)] by (simp add: nth_upd_sc)
next
  fix b assume "b < length (sp_vcs ?t)"
  then show "recv_good rcvd (sp_vcs ?t ! b)" using recv_inv_good [OF inv, of b] g by (simp add: nth_upd_sc)
qed

lemma recv_inv_tdel [simp]: "recv_inv rcvd s \<Longrightarrow> recv_inv rcvd (s\<lparr>sp_conns := tdel c (sp_conns s)\<rparr>)"
  by (simp add: recv_inv_def tget_tdel)

lemma recv_inv_insert:
  assumes inv: "recv_inv rcvd s" and sc: "sc_cid sc = cid" "recv_live rcvd sc" "recv_good rcvd sc"
  shows "recv_inv rcvd (insert_sconn cid sc s)" (is "recv_inv rcvd ?t")
proof (rule recv_invI)
  show "twf (sp_conns ?t)" using recv_inv_twf [OF inv] by (simp add: insert_sconn_def)
next
  fix c b assume b: "tget (sp_conns ?t) c = Some b"
  then show "b < length (sp_vcs ?t) \<and> sc_cid (sp_vcs ?t ! b) = c \<and> recv_live rcvd (sp_vcs ?t ! b)"
    using recv_inv_entry [OF inv, of c b] sc
    by (auto simp: insert_sconn_def tget_tins nth_append split: if_splits)
next
  fix b assume "b < length (sp_vcs ?t)"
  then show "recv_good rcvd (sp_vcs ?t ! b)"
    using recv_inv_good [OF inv, of b] sc by (auto simp: insert_sconn_def nth_append less_Suc_eq)
qed

lemma new_sconn_recv:
  "recv_live rcvd (new_sconn cid t cap w u peer now)" "recv_good rcvd (new_sconn cid t cap w u peer now)"
  "sc_cid (new_sconn cid t cap w u peer now) = cid"
  using stream_rel_init
  by (auto simp: recv_live_def recv_good_def recv_ok_def datagrams_ok_def new_sconn_def new_chan_def intro: exI [of _ 0])

subsection \<open>Deliveries\<close>

lemma push_rejected: "push b sq pl = (b', r) \<Longrightarrow> \<not> accepted r \<Longrightarrow> ready r = [] \<and> b' = b"
  by (auto simp: push_def Let_def split: if_splits option.splits prod.splits)

text \<open>The next chunks of the stream, all taken by the client channel.\<close>

lemma recv_ok_grow:
  assumes ok: "recv_ok ps sc" and xs: "sc_enq sc @ xs = take n ps"
    and cs: "client_sends (sc_chan sc) xs drains = (False, c, taken)"
    and sc': "sc_enq sc' = sc_enq sc @ drop (length (ch_queue (sc_chan sc))) (taken @ ch_queue c)"
      "sc_chan sc' = c" "sc_out sc' = sc_out sc @ concat taken" "sc_wr_done sc' = sc_wr_done sc"
      "sc_fin_received sc' = sc_fin_received sc" "sc_fin_seq sc' = sc_fin_seq sc"
  shows "recv_ok ps sc' \<and> sc_enq sc' = sc_enq sc @ xs"
proof -
  note q = client_sends_ok [OF cs]
  have enq: "sc_enq sc' = sc_enq sc @ xs" using sc'(1) q by simp
  show ?thesis
  proof (cases "sc_wr_done sc")
    case True
    then have "xs = []" using ok q by (auto simp: recv_ok_def)
    with cs q True ok have "taken = []" "c = sc_chan sc" by (auto simp: recv_ok_def)
    then show ?thesis using ok sc' enq \<open>xs = []\<close> by (simp add: recv_ok_def)
  next
    case False
    then obtain d where d: "sc_enq sc = d @ ch_queue (sc_chan sc)" "sc_out sc = concat d"
      using ok by (auto simp: recv_ok_def)
    have "sc_enq sc' = (d @ taken) @ ch_queue c" using enq d q by simp
    moreover have out: "sc_out sc' = concat (d @ taken)" using sc' d by simp
    ultimately have e: "\<exists>d'. sc_enq sc' = d' @ ch_queue (sc_chan sc') \<and> sc_out sc' = concat d'"
      and "\<exists>rest. concat (sc_enq sc') = sc_out sc' @ rest" using sc'(2) by auto
    moreover have "\<exists>m. sc_enq sc' = take m ps" using enq xs by auto
    moreover have "sc_fin_received sc' \<longrightarrow> sc_fin_seq sc' = word_of_nat (length ps + 1)"
      using ok sc'(5,6) unfolding recv_ok_def by simp
    ultimately show ?thesis using False sc'(4) enq unfolding recv_ok_def by simp
  qed
qed

lemma on_frame_recv:
  assumes live: "recv_live rcvd sc" and good: "recv_good rcvd sc" and tcp: "\<not> sc_is_udp sc"
    and ins: "in_stream (rcvd (sc_cid sc)) sq pl" and bound: "length (rcvd (sc_cid sc)) + 1 < 2 ^ 64"
    and f: "on_frame now drains sq pl sc = (False, sc')"
  shows "recv_live rcvd sc' \<and> recv_good rcvd sc' \<and> sc_cid sc' = sc_cid sc"
proof -
  let ?ps = "rcvd (sc_cid sc)"
  obtain b pr where p: "push (sc_reorder sc) sq pl = (b, pr)" by force
  have rel: "rb.stream_rel ?ps (sc_reorder sc) (sc_enq sc)" and rst: "\<not> sc_rst sc"
    using live tcp by (simp_all add: recv_live_def)
  have rel': "rb.stream_rel ?ps b (sc_enq sc @ ready pr)" using rb.step_stream [OF rel ins bound p] by simp
  have ok: "recv_ok ?ps sc" using good tcp rst by (simp add: recv_good_def)
  show ?thesis
  proof (cases "accepted pr")
    case False
    then show ?thesis using f p push_rejected [OF p] live good by (simp add: on_frame_def)
  next
    case True
    obtain ovf c taken where cs: "client_sends (sc_chan sc) (ready pr) drains = (ovf, c, taken)" by (metis surj_pair)
    with True f p have novf: "\<not> ovf" and sc': "sc' = sc\<lparr>sc_reorder := b, sc_chan := c, sc_out := sc_out sc @ concat taken,
        sc_enq := sc_enq sc @ drop (length (ch_queue (sc_chan sc))) (taken @ ch_queue c),
        sc_bytes_recv := sc_bytes_recv sc + word_of_nat (length pl),
        sc_frames_recv := sc_frames_recv sc + 1, sc_last_active := now\<rparr>"
      by (auto simp: on_frame_def Let_def)
    have "recv_ok ?ps sc' \<and> sc_enq sc' = sc_enq sc @ ready pr"
      by (rule recv_ok_grow [OF ok stream_rel_out [OF rel'], of drains c taken]) (use cs novf sc' in auto)
    then show ?thesis using sc' rel' rst tcp by (auto simp: recv_live_def recv_good_def)
  qed
qed

subsection \<open>Operations\<close>

text \<open>A change of fields that the invariant does not speak of.\<close>

definition calm :: "sconn \<Rightarrow> sconn \<Rightarrow> bool" where
  "calm sc sc' \<longleftrightarrow> sc_cid sc' = sc_cid sc \<and> sc_chan sc' = sc_chan sc \<and> sc_out sc' = sc_out sc
     \<and> sc_enq sc' = sc_enq sc \<and> sc_wr_done sc' = sc_wr_done sc \<and> sc_fin_received sc' = sc_fin_received sc
     \<and> sc_fin_seq sc' = sc_fin_seq sc \<and> sc_reorder sc' = sc_reorder sc \<and> sc_rst sc' = sc_rst sc
     \<and> sc_is_udp sc' = sc_is_udp sc \<and> sc_udp_out sc' = sc_udp_out sc"

lemmas recv_defs = recv_good_def recv_live_def recv_ok_def datagrams_ok_def

lemma recv_inv_calm: "recv_inv rcvd s \<Longrightarrow> calm (sp_vcs s ! a) (g (sp_vcs s ! a)) \<Longrightarrow> recv_inv rcvd (upd_sc a g s)"
  by (rule recv_inv_upd) (simp_all add: calm_def recv_defs)

lemma recv_inv_udp:
  assumes "recv_inv rcvd s" and "sc_is_udp (sp_vcs s ! a)" and "sc_is_udp (g (sp_vcs s ! a))"
    and "sc_cid (g (sp_vcs s ! a)) = sc_cid (sp_vcs s ! a)"
    and "datagrams_ok (rcvd (sc_cid (sp_vcs s ! a))) (sp_vcs s ! a) \<Longrightarrow>
      datagrams_ok (rcvd (sc_cid (sp_vcs s ! a))) (g (sp_vcs s ! a))"
  shows "recv_inv rcvd (upd_sc a g s)"
  using assms(1) by (rule recv_inv_upd) (use assms(2-) in \<open>simp_all add: recv_good_def recv_live_def\<close>)

lemma shut_down_recv [simp]: "recv_good rcvd sc \<Longrightarrow> recv_good rcvd (shut_down sc)" "sc_cid (shut_down sc) = sc_cid sc"
  by (simp_all add: shut_down_def recv_good_def datagrams_ok_def)

lemma reset_conn_recv:
  assumes inv: "recv_inv rcvd s"
  shows "recv_inv rcvd (reset_conn now cid s)"
proof (cases "tget (sp_conns s) cid")
  case (Some a)
  then show ?thesis
    using recv_inv_drop [of rcvd "s\<lparr>sp_time_wait := tins cid now (sp_time_wait s)\<rparr>" cid a shut_down] inv
      recv_inv_entry [OF inv Some] recv_inv_good [OF inv, of a] by (simp add: reset_conn_def Let_def)
qed (simp add: reset_conn_def Let_def inv)

text \<open>A failed delivery, followed by the reset.\<close>

lemma broken_reset_recv:
  assumes inv: "recv_inv rcvd s" and c: "tget (sp_conns s) c = Some a" and sc: "sc_cid sc = c" "\<not> sc_is_udp sc"
  shows "recv_inv rcvd (reset_conn now c (upd_sc a (\<lambda>_. sc) s))"
proof -
  let ?s = "s\<lparr>sp_time_wait := tins c now (sp_time_wait s)\<rparr>"
  have "recv_inv rcvd (upd_sc a (\<lambda>_. shut_down sc) (?s\<lparr>sp_conns := tdel c (sp_conns ?s)\<rparr>))"
    by (rule recv_inv_drop) (use inv c sc in \<open>simp_all add: recv_good_def shut_down_def\<close>)
  moreover have "upd_sc a shut_down ((upd_sc a (\<lambda>_. sc) s)\<lparr>sp_time_wait := w, sp_conns := k\<rparr>)
      = upd_sc a (\<lambda>_. shut_down sc) (s\<lparr>sp_time_wait := w, sp_conns := k\<rparr>)" for w k
    using recv_inv_entry [OF inv c] by (simp add: upd_sc_def)
  ultimately show ?thesis using c by (simp add: reset_conn_def Let_def)
qed

lemma on_frame_cid: "on_frame now drains sq pl sc = (r, sc') \<Longrightarrow> sc_cid sc' = sc_cid sc \<and> sc_is_udp sc' = sc_is_udp sc"
  by (auto simp: on_frame_def Let_def split: prod.splits if_splits)

lemma inbound_data_recv:
  assumes inv: "recv_inv rcvd s" and lg: "legit rcvd f" and dat: "has_flag f FLAG_DATA"
  shows "recv_inv rcvd (inbound_data now drains f s)"
proof (cases "tget (sp_conns s) (conn_id f)")
  case (Some a)
  note e = recv_inv_entry [OF inv Some]
  show ?thesis
  proof (cases "sc_is_udp (sp_vcs s ! a)")
    case True
    have "payload f \<in> set (rcvd (conn_id f))" using lg dat by (auto simp: legit_def in_stream_def)
    then show ?thesis using Some inv True e try_send_cases [of "sc_chan (sp_vcs s ! a)" "payload f"]
      by (auto simp: inbound_data_def datagrams_ok_def intro!: recv_inv_udp split: prod.split send_result.split)
  next
    case tcp: False
    obtain ovf sc where f: "on_frame now drains (seq f) (payload f) (sp_vcs s ! a) = (ovf, sc)" by force
    show ?thesis
    proof (cases ovf)
      case True
      have "recv_inv rcvd (reset_conn now (conn_id f) (upd_sc a (\<lambda>_. sc) s))"
        by (rule broken_reset_recv [OF inv Some]) (use on_frame_cid [OF f] e tcp in simp_all)
      then show ?thesis using Some tcp f True by (simp add: inbound_data_def)
    next
      case False
      have "recv_live rcvd sc \<and> recv_good rcvd sc \<and> sc_cid sc = sc_cid (sp_vcs s ! a)"
        by (rule on_frame_recv [of rcvd "sp_vcs s ! a" "seq f" "payload f"])
           (use e tcp lg dat f False recv_inv_good [OF inv] in \<open>auto simp: legit_def\<close>)
      then have "recv_inv rcvd (upd_sc a (\<lambda>_. sc) s)" using inv by (intro recv_inv_upd) auto
      then show ?thesis using Some tcp f False by (simp add: inbound_data_def)
    qed
  qed
qed (simp add: inbound_data_def inv)

lemma inbound_fin_recv:
  assumes inv: "recv_inv rcvd s" and lg: "legit rcvd f" and fin: "has_flag f FLAG_FIN" "\<not> has_flag f FLAG_DATA"
  shows "recv_inv rcvd (inbound_fin f s)"
proof (cases "tget (sp_conns s) (conn_id f)")
  case (Some a)
  note e = recv_inv_entry [OF inv Some]
  have "recv_inv rcvd (upd_sc a (\<lambda>sc. sc\<lparr>sc_fin_received := True, sc_fin_seq := seq f, sc_notify := notify_one (sc_notify sc)\<rparr>) s)"
    using inv by (rule recv_inv_upd) (use lg fin e in \<open>auto simp: recv_defs legit_def\<close>)
  then show ?thesis using Some inv by (simp add: inbound_fin_def)
qed (simp add: inbound_fin_def inv)

lemma read_frame_recv: "recv_inv rcvd s \<Longrightarrow> legit rcvd f \<Longrightarrow> recv_inv rcvd (read_frame i now ms drains f s)"
  by (simp add: read_frame_def Let_def handle_inbound_frame_def inbound_data_recv inbound_fin_recv reset_conn_recv)

lemma tunnel_lost_recv: "recv_inv rcvd s \<Longrightarrow> recv_inv rcvd (tunnel_lost now i lost s)"
proof -
  have "recv_inv rcvd t \<Longrightarrow> recv_inv rcvd (fold (recover_lost now) lost t)" for t
    by (induction lost arbitrary: t) (simp_all add: recover_lost_def reset_conn_recv)
  then show "recv_inv rcvd s \<Longrightarrow> ?thesis" by (simp add: tunnel_lost_def)
qed

lemma remove_own_recv [simp]: "recv_inv rcvd s \<Longrightarrow> recv_inv rcvd (remove_own cid a s)"
  by (simp add: remove_own_def)

lemma end_handler_recv: "recv_inv rcvd s \<Longrightarrow> recv_inv rcvd (end_handler a s)"
  by (auto simp: end_handler_def calm_def intro!: recv_inv_calm)

lemma recv_inv_sent: "sp_send f s = (ok, s') \<Longrightarrow> recv_inv rcvd s \<Longrightarrow> recv_inv rcvd s'"
  using recv_inv_send [of rcvd f s] by simp

lemma insert_new_recv: "recv_inv rcvd s \<Longrightarrow> recv_inv rcvd (insert_sconn cid (new_sconn cid t cap w u peer now) s)"
  by (rule recv_inv_insert) (simp_all add: new_sconn_recv)

lemma open_tcp_recv: "recv_inv rcvd s \<Longrightarrow> recv_inv rcvd (snd (open_tcp now cid target reply s))"
  by (auto simp: open_tcp_def Let_def insert_new_recv split: sum.split prod.split
      intro!: end_handler_recv remove_own_recv elim!: recv_inv_sent)

lemma open_udp_recv: "recv_inv rcvd s \<Longrightarrow> recv_inv rcvd (snd (open_udp now cid peer reply s))"
  by (auto simp: open_udp_def Let_def insert_new_recv split: sum.split prod.split
      intro!: end_handler_recv recv_inv_tdel elim!: recv_inv_sent)

lemma client_accepted_recv: "recv_inv rcvd s \<Longrightarrow> recv_inv rcvd (snd (client_accepted now draws res s))"
  by (auto simp: client_accepted_def Let_def open_tcp_recv open_udp_recv
      split: option.split socks5_result.split prod.split)

lemma finish_client_recv: "recv_inv rcvd s \<Longrightarrow> recv_inv rcvd (finish_client now a s)"
  by (simp add: finish_client_def Let_def end_handler_recv)

lemma recv_inv_async: "sp_send_async rnd f s = (ok, s') \<Longrightarrow> recv_inv rcvd s' = recv_inv rcvd s"
  using sp_send_async_spec by (intro recv_inv_cong) auto

lemma calm_client [simp]:
  "calm sc (sc\<lparr>sc_fin_sent := b\<rparr>)" "calm sc (sc\<lparr>sc_grace_waiting := b, sc_phase := p\<rparr>)" "calm sc (sc\<lparr>sc_phase := p\<rparr>)"
  "calm sc (sc\<lparr>sc_notify := b\<rparr>)" "calm sc (sc\<lparr>sc_peer := q\<rparr>)"
  "calm sc (sc\<lparr>sc_fin_sent := b, sc_grace_waiting := b', sc_phase := p\<rparr>)"
  "calm sc (sc\<lparr>sc_bytes_sent := n, sc_frames_sent := m, sc_last_active := t, sc_seq := k, sc_sent := x\<rparr>)"
  by (simp_all add: calm_def)

lemma client_close_recv:
  assumes inv: "recv_inv rcvd s"
  shows "recv_inv rcvd (client_close rnd now a reason force fin_ok s)"
proof -
  obtain ok s1 where f: "(if reason = CloseRst \<or> force \<or> \<not> fin_ok then (False, s)
      else sp_send_async rnd (frame_fin (sc_cid (sp_vcs s ! a)) (sc_seq (sp_vcs s ! a))) s) = (ok, s1)"
    by (metis surj_pair)
  then have "recv_inv rcvd s1" using inv recv_inv_async by (auto split: if_splits)
  then show ?thesis
    using f by (simp add: client_close_def Let_def finish_client_recv recv_inv_calm)
qed

lemma grace_tick_recv: "recv_inv rcvd s \<Longrightarrow> recv_inv rcvd (grace_tick now a seen s)"
  by (simp add: grace_tick_def Let_def finish_client_recv recv_inv_calm split: option.split)

lemma client_step_recv:
  assumes inv: "recv_inv rcvd s"
  shows "recv_inv rcvd (client_step rnd now a ev s)"
proof (cases ev)
  case (CRead bs ok)
  obtain sent s1 where f: "(if ok then sp_send_async rnd (frame_data (sc_cid (sp_vcs s ! a)) (sc_seq (sp_vcs s ! a)) bs) s
      else (False, s)) = (sent, s1)" by (metis surj_pair)
  then have "recv_inv rcvd s1" using inv recv_inv_async by (auto split: if_splits)
  then show ?thesis using CRead f inv
    by (simp add: client_step_def Let_def client_close_recv recv_inv_calm split: phase.split)
qed (use inv in \<open>simp_all add: client_step_def Let_def client_close_recv grace_tick_recv recv_inv_calm split: phase.split\<close>)

lemma end_udp_recv: "recv_inv rcvd s \<Longrightarrow> recv_inv rcvd (end_udp now a s)"
  by (simp add: end_udp_def Let_def end_handler_recv)

lemma udp_datagram_recv:
  assumes inv: "recv_inv rcvd s"
  shows "recv_inv rcvd (udp_datagram now a peer bs s)"
proof -
  let ?f = "frame_data (sc_cid (sp_vcs s ! a)) (sc_seq (sp_vcs s ! a)) bs"
  let ?s1 = "(upd_sc a (\<lambda>sc. sc\<lparr>sc_peer := Some peer\<rparr>) s)\<lparr>sp_udp_sent := sp_udp_sent s + 1\<rparr>"
  obtain sent s2 where f: "send_retry 3 ?f ?s1 = (sent, s2)" by force
  have "recv_inv rcvd ?s1" using inv by (simp add: recv_inv_calm)
  then have "recv_inv rcvd s2" using send_retry_spec [OF f] recv_inv_cong by blast
  then show ?thesis using inv f by (simp add: udp_datagram_def Let_def recv_inv_calm)
qed

lemma udp_client_step_recv: "recv_inv rcvd s \<Longrightarrow> recv_inv rcvd (udp_client_step now a ev s)"
  by (simp add: udp_client_step_def Let_def udp_datagram_recv end_udp_recv recv_inv_calm split: udp_client_event.split)

lemma udp_response_recv: "recv_inv rcvd s \<Longrightarrow> recv_inv rcvd (udp_response_step a ok s)"
  by (auto simp: udp_response_step_def Let_def datagrams_ok_def try_recv_def intro!: recv_inv_udp
      split: prod.split option.split list.splits)

text \<open>The heartbeat sweeps each entry of the table that it read.\<close>

lemma sweep_out_recv:
  assumes inv: "recv_inv rcvd s" and c: "tget (sp_conns s) c = Some a"
    and g: "sc_cid (g (sp_vcs s ! a)) = c" "recv_good rcvd (g (sp_vcs s ! a))"
  shows "recv_inv rcvd (sweep_out now c a g s)"
proof -
  have "recv_inv rcvd (upd_sc a g (s\<lparr>sp_conns := tdel c (sp_conns s)\<rparr>))" by (rule recv_inv_drop) (use assms in auto)
  then show ?thesis
    by (subst recv_inv_cong [of _ "upd_sc a g (s\<lparr>sp_conns := tdel c (sp_conns s)\<rparr>)"])
       (simp_all add: sweep_out_def Let_def upd_sc_def)
qed

lemma sp_sweep_cases:
  obtains "sp_sweep_conn now (c, a) s = s"
    | "sp_sweep_conn now (c, a) s = sweep_out now c a (\<lambda>sc. sc\<lparr>sc_rst := True\<rparr>) s"
    | "sp_sweep_conn now (c, a) s = sweep_out now c a shut_down s"
  by (cases "sp_sweep_conn now (c, a) s = s") (auto simp: sp_sweep_conn_def Let_def split: if_splits)

lemma sweep_out_conns [simp]: "sp_conns (sweep_out now c a g s) = tdel c (sp_conns s)"
  by (simp add: sweep_out_def Let_def)

lemma reset_good: "recv_good rcvd sc \<Longrightarrow> recv_good rcvd (sc\<lparr>sc_rst := True\<rparr>)"
  by (simp add: recv_good_def datagrams_ok_def)

lemma sp_sweep_conn_recv:
  assumes inv: "recv_inv rcvd s" and c: "tget (sp_conns s) c = Some a"
  shows "recv_inv rcvd (sp_sweep_conn now (c, a) s)
    \<and> (\<forall>c'. c' \<noteq> c \<longrightarrow> tget (sp_conns (sp_sweep_conn now (c, a) s)) c' = tget (sp_conns s) c')"
  using recv_inv_entry [OF inv c] recv_inv_good [OF inv, of a]
  by (cases rule: sp_sweep_cases [of now c a s])
     (simp_all add: inv sweep_out_recv [OF inv c] tget_tdel reset_good)

lemma fold_sweep_recv:
  "recv_inv rcvd s \<Longrightarrow> distinct (map fst cs) \<Longrightarrow> (\<And>c a. (c, a) \<in> set cs \<Longrightarrow> tget (sp_conns s) c = Some a) \<Longrightarrow>
     recv_inv rcvd (fold (sp_sweep_conn now) cs s)"
proof (induction cs arbitrary: s)
  case (Cons x cs)
  obtain c a where x: "x = (c, a)" by force
  have t: "tget (sp_conns s) c = Some a" by (rule Cons.prems(3)) (simp add: x)
  note st = sp_sweep_conn_recv [OF Cons.prems(1) t, of now]
  have "recv_inv rcvd (fold (sp_sweep_conn now) cs (sp_sweep_conn now (c, a) s))"
  proof (rule Cons.IH)
    fix c' b assume m: "(c', b) \<in> set cs"
    then have "c' \<noteq> c" using Cons.prems(2) x by force
    then show "tget (sp_conns (sp_sweep_conn now (c, a) s)) c' = Some b" using st Cons.prems(3) m by auto
  qed (use st Cons.prems(2) in auto)
  then show ?case by (simp add: x)
qed simp

lemma sp_heartbeat_recv:
  assumes inv: "recv_inv rcvd s"
  shows "recv_inv rcvd (sp_heartbeat now ms s)"
proof -
  have d: "distinct (map fst (sp_conns s))" using recv_inv_twf [OF inv] by (simp add: twf_def)
  have "recv_inv rcvd (fold (sp_sweep_conn now) (sp_conns s) (s\<lparr>sp_pool := p, sp_time_wait := w\<rparr>))" for p w
    by (rule fold_sweep_recv) (use inv d in auto)
  then show ?thesis by (simp add: sp_heartbeat_def Let_def)
qed

lemma writer_recv_ok:
  assumes ok: "recv_ok ps sc"
  shows "recv_ok ps (client_writer_step d ev sc)"
proof (cases "sc_is_udp sc \<or> sc_wr_done sc \<or> ch_queue (sc_chan sc) = []")
  case True
  with ok show ?thesis by (auto simp: client_writer_step_def recv_ok_def try_recv_def)
next
  case False
  then obtain x xs where q: "ch_queue (sc_chan sc) = x # xs" by (meson neq_Nil_conv)
  from ok False have "\<exists>d. sc_enq sc = d @ ch_queue (sc_chan sc) \<and> sc_out sc = concat d"
    and "\<exists>n. sc_enq sc = take n ps" by (simp_all add: recv_ok_def)
  with q obtain e n where e: "sc_enq sc = e @ x # xs" "sc_out sc = concat e" "sc_enq sc = take n ps" by metis
  have fin: "sc_fin_received sc \<longrightarrow> sc_fin_seq sc = word_of_nat (length ps + 1)" using ok by (simp add: recv_ok_def)
  have "\<exists>r. concat (e @ x # xs) = concat e @ take k x @ r" for k
    by (rule exI [of _ "drop k x @ concat xs"]) simp
  moreover have "\<exists>d'. e @ x # xs = d' @ xs \<and> concat e @ x = concat d'" by (rule exI [of _ "e @ [x]"]) simp
  moreover have "\<exists>m. e @ x # xs = take m ps" using e by metis
  ultimately show ?thesis using False q e(1,2) fin
    by (cases ev) (simp_all add: client_writer_step_def recv_ok_def try_recv_def)
qed

lemma writer_udp: "sc_is_udp sc \<Longrightarrow> client_writer_step d ev sc = sc"
  by (simp add: client_writer_step_def)

lemma writer_recv: "recv_inv rcvd s \<Longrightarrow> recv_inv rcvd (upd_sc a (client_writer_step d ev) s)"
proof (rule recv_inv_upd)
  let ?sc = "sp_vcs s ! a"
  have "sc_cid (client_writer_step d ev ?sc) = sc_cid ?sc \<and> sc_is_udp (client_writer_step d ev ?sc) = sc_is_udp ?sc
      \<and> sc_rst (client_writer_step d ev ?sc) = sc_rst ?sc \<and> sc_reorder (client_writer_step d ev ?sc) = sc_reorder ?sc
      \<and> sc_enq (client_writer_step d ev ?sc) = sc_enq ?sc"
    by (simp add: client_writer_step_def split: prod.split option.split cwriter_event.split)
  then show "sc_cid (client_writer_step d ev ?sc) = sc_cid ?sc
    \<and> (recv_good rcvd ?sc \<longrightarrow> recv_good rcvd (client_writer_step d ev ?sc))
    \<and> (recv_live rcvd ?sc \<and> tget (sp_conns s) (sc_cid ?sc) = Some a \<longrightarrow> recv_live rcvd (client_writer_step d ev ?sc))"
    using writer_recv_ok by (simp add: recv_good_def recv_live_def writer_udp)
qed

lemma sp_exec_recv:
  assumes "recv_inv rcvd s" and "\<And>i now ms d f. ev = SvFrame i now ms d f \<Longrightarrow> legit rcvd f"
  shows "recv_inv rcvd (sp_exec ev s)"
  using assms
  by (cases ev) (simp_all add: sp_exec_def read_frame_recv tunnel_lost_recv client_accepted_recv client_step_recv
      udp_client_step_recv udp_response_recv sp_heartbeat_recv tunnel_up_def tunnel_down_def
      accept_client_def begin_client_def writer_recv)

lemma reach_recv_inv: "sp_reach (legit rcvd) k w s \<Longrightarrow> recv_inv rcvd s"
proof (induction rule: sp_reach.induct)
  case sp_start
  then show ?case by (simp add: recv_inv_def sp_init_def)
next
  case (sp_step s ev)
  then show ?case using sp_exec_recv by blast
qed

end
