(* ===== verification/SplitterProps.thy ===== *)
theory SplitterProps
  imports SplitterRecv
begin

text \<open>
  What the splitter guarantees in every reachable state, from the invariants of \<open>SplitterInv\<close> and
  \<open>SplitterRecv\<close>, and what its single operations do: opening and closing connections, recovering
  from a dead tunnel, sweeping, and the UDP relay.
\<close>

subsection \<open>The data of a client\<close>

text \<open>The chunks that the client with a connection identifier sent.\<close>

definition sent_of :: "sp \<Rightarrow> u32 \<Rightarrow> bytes list" where
  "sent_of s = cl.sent_by (sp_vcs s)"

lemma emitted_legit:
  assumes "emit_inv F s" and "distinct (map sc_cid (sp_vcs s))"
    and "\<And>c. length (sent_of s c) + 1 < 2 ^ 64" and "f \<in> set (sp_emitted s)"
  shows "legit (sent_of s) f"
  using assms cl.emit_ok_legit [of "sp_vcs s" f] by (simp add: sent_of_def emit_inv_def)

definition ev_ok :: "(frame \<Rightarrow> bool) \<Rightarrow> sp_event \<Rightarrow> bool" where
  "ev_ok Q ev \<longleftrightarrow> (case ev of SvFrame i now ms d f \<Rightarrow> Q f | SvLost now i fs \<Rightarrow> fs = [] | _ \<Rightarrow> True)"

lemma fold_sp_reach: "sp_reach Q k w s \<Longrightarrow> list_all (ev_ok Q) evs \<Longrightarrow> sp_reach Q k w (fold sp_exec evs s)"
proof (induction evs arbitrary: s)
  case (Cons ev evs)
  then have "sp_reach Q k w (sp_exec ev s)" by (intro sp_reach.sp_step) (auto simp: ev_ok_def)
  then show ?case using Cons by simp
qed simp

subsection \<open>A concrete run\<close>

text \<open>
  One tunnel comes up, a client connects, sends two chunks and closes its side; the response
  arrives out of order and its FIN first.
\<close>

lemma one_link_burst:
  assumes "lk_alive l" and "ch_open (lk_chan l)" and "length (ch_queue (lk_chan l)) < ch_cap (lk_chan l)"
  shows "send_async_burst rnd f [] \<lparr>pl_links = [l], pl_rr = r, pl_added = n\<rparr>
    = (Sent, \<lparr>pl_links = [l\<lparr>lk_chan := (lk_chan l)\<lparr>ch_queue := ch_queue (lk_chan l) @ [f]\<rparr>\<rparr>], pl_rr = r + 1, pl_added = n\<rparr>)"
proof -
  let ?p = "\<lparr>pl_links = [l], pl_rr = r, pl_added = n\<rparr>"
  obtain x p' where w: "weighted_pick rnd [] ?p = (x, p')" by force
  then obtain m where "x = Some m" using assms(1) weighted_pick_None [of rnd "[]" ?p p'] by (cases x) auto
  with weighted_pick_Some [of rnd "[]" ?p m p'] w have "x = Some l" "p' = ?p\<lparr>pl_rr := r + 1\<rparr>" by auto
  then show ?thesis using assms w
    by (subst send_async_burst.simps) (simp add: send_async_iter_def try_send_def upd_link_def)
qed

definition demo_client :: "sp_event list" where
  "demo_client =
     [SvUp 0 0, SvAccept, SvBegin,
      SvAccepted 0 [7] (Some (Connect \<lparr>ta_address = [0x7A], ta_port = 80\<rparr>, [5])),
      SvClient id 1 0 (CRead [10] True), SvClient id 2 0 (CRead [20] True), SvClient id 3 0 (CEof True)]"

definition demo_replies :: "sp_event list" where
  "demo_replies = [SvFrame 0 4 4 [] (frame_fin 7 3), SvFrame 0 5 5 [] (frame_data 7 2 [40]),
     SvFrame 0 6 6 [] (frame_data 7 1 [30]), SvWriter 0 CwWritten]"

definition demo_sp :: sp where
  "demo_sp = fold sp_exec demo_client (sp_init 100 1000)"

definition demo_done :: sp where
  "demo_done = fold sp_exec demo_replies demo_sp"

lemmas sp_run_defs = sp_exec_def sp_init_def tunnel_up_def pool_add_def pool_new_def new_link_def accept_client_def
  begin_client_def client_accepted_def alloc_conn_id_def open_tcp_def insert_sconn_def new_sconn_def
  sp_send_def pool_send_def client_step_def sp_send_async_def upd_sc_def client_close_def Let_def thas_def
  try_send_def try_recv_def new_chan_def TUNNEL_CHANNEL_CAP_def CLIENT_CHANNEL_CAP_def MAX_CONCURRENT_CONNS_def
  with_limit_def one_link_burst notify_one_def send_from.simps read_frame_def handle_inbound_frame_def inbound_data_def
  inbound_fin_def on_frame_def push_def drain_pending.simps client_writer_step_def upd_link_def

lemma demo_syn:
  "syn_encode \<lparr>proto = PROTO_TCP, address = [0x7A], port = 80\<rparr> = Inr [PROTO_TCP, 0, 1, 0x7A, 0, 80]"
  by (simp add: syn_encode_def put_u16_bytes)

lemma demo_sp_run:
  "map (\<lambda>sc. (sc_cid sc, sc_sent sc, sc_fin_sent sc)) (sp_vcs demo_sp) = [(7, [[10], [20]], True)]"
  "sp_emitted demo_sp = [frame_syn 7 [PROTO_TCP, 0, 1, 0x7A, 0, 80], frame_data 7 1 [10], frame_data 7 2 [20], frame_fin 7 3]"
  by (simp_all add: demo_sp_def demo_client_def sp_run_defs demo_syn)

lemma demo_done_run:
  "map (\<lambda>sc. (sc_cid sc, sc_is_udp sc, sc_rst sc, sc_out sc, ch_queue (sc_chan sc), sc_fin_received sc,
     sc_wr_done sc, is_complete_through (sc_reorder sc) (sc_fin_seq sc))) (sp_vcs demo_done)
     = [(7, False, False, [30], [[40]], True, False, True)]"
  "sp_conns demo_done = [(7, 0)]"
  "map (\<lambda>sc. (sc_phase sc, sc_last_active sc)) (sp_vcs demo_done) = [(Grace None, 6)]"
  "map sc_sent (sp_vcs demo_done) = [[[10], [20]]]"
  by (simp_all add: demo_done_def demo_replies_def demo_sp_def demo_client_def sp_run_defs demo_syn
      demo_syn [unfolded PROTO_TCP_def] frame_consts is_complete_through_def)

lemma demo_sp_conn: "length (sp_vcs demo_sp) = 1" "sc_cid (sp_vcs demo_sp ! 0) = 7" "sc_sent (sp_vcs demo_sp ! 0) = [[10], [20]]"
  using demo_sp_run(1) by (auto simp: map_eq_Cons_conv)

lemma demo_done_conn:
  "length (sp_vcs demo_done) = 1" "sc_cid (sp_vcs demo_done ! 0) = 7" "\<not> sc_is_udp (sp_vcs demo_done ! 0)"
  "\<not> sc_rst (sp_vcs demo_done ! 0)" "sc_out (sp_vcs demo_done ! 0) = [30]"
  "ch_queue (sc_chan (sp_vcs demo_done ! 0)) = [[40]]" "sc_fin_received (sp_vcs demo_done ! 0)"
  "\<not> sc_wr_done (sp_vcs demo_done ! 0)"
  "is_complete_through (sc_reorder (sp_vcs demo_done ! 0)) (sc_fin_seq (sp_vcs demo_done ! 0))"
  using demo_done_run(1) by (auto simp: map_eq_Cons_conv)

lemma demo_done_phase: "sc_phase (sp_vcs demo_done ! 0) = Grace None" "sc_last_active (sp_vcs demo_done ! 0) = 6"
  using demo_done_run(3) by (auto simp: map_eq_Cons_conv)

definition demo_rcvd :: "u32 \<Rightarrow> bytes list" where
  "demo_rcvd c = (if c = 7 then [[30], [40]] else [])"

lemma demo_sp_reach: "sp_reach (legit demo_rcvd) 100 1000 demo_sp"
  unfolding demo_sp_def by (rule fold_sp_reach [OF sp_reach.sp_start]) (simp add: demo_client_def ev_ok_def)

lemma demo_done_reach: "sp_reach (legit demo_rcvd) 100 1000 demo_done"
  unfolding demo_done_def
  by (rule fold_sp_reach [OF demo_sp_reach])
     (simp add: demo_replies_def ev_ok_def legit_def demo_rcvd_def in_stream_def)

subsection \<open>Properties: the two byte streams\<close>

text \<open>
  C27. What goes into the tunnels is what the clients sent.  In every reachable state, every DATA
  frame that a tunnel accepted carries a chunk of its client's data under that chunk's number
  (counted from 1), every FIN carries the number after the last chunk its client ever sends, and
  everything but a SYN fits the payload limit of a frame.
\<close>

theorem splitter_frames_faithful:
  assumes "sp_reach Q k w s" and "k \<le> MAX_PAYLOAD" and "distinct (map sc_cid (sp_vcs s))"
    and "\<And>c. length (sent_of s c) + 1 < 2 ^ 64" and "f \<in> set (sp_emitted s)"
  shows "legit (sent_of s) f \<and> (has_flag f FLAG_SYN \<or> length (payload f) \<le> MAX_PAYLOAD)"
  using emitted_legit [OF reach_emit_inv [OF assms(1,2)] assms(3-5)] reach_emit_inv [OF assms(1,2)] assms(5)
  by (auto simp: emit_inv_def cl.emit_ok_def)

theorem splitter_frames_faithful_witness: "legit (sent_of demo_sp) (frame_fin 7 3)"
proof -
  have vcs: "sp_vcs demo_sp = [sp_vcs demo_sp ! 0]" using demo_sp_conn(1) by (simp add: length_Suc_conv) auto
  have "length (sent_of demo_sp c) + 1 < 2 ^ 64" for c
    by (subst sent_of_def, subst vcs) (simp add: cl.sent_by_def demo_sp_conn)
  moreover have "distinct (map sc_cid (sp_vcs demo_sp))" by (subst vcs) simp
  moreover have "frame_fin 7 3 \<in> set (sp_emitted demo_sp)" by (simp add: demo_sp_run)
  ultimately show ?thesis
    using splitter_frames_faithful [OF demo_sp_reach, of "frame_fin 7 3"] by (simp add: MAX_PAYLOAD_def)
qed

text \<open>
  Data integrity of the client side.  In every reachable state, whatever way the frames of the
  reassembler were reordered, duplicated or lost on the tunnels, what the writer has put on the
  socket of a TCP client that was not reset is a prefix of the bytes the reassembler sent on that
  connection.
\<close>

lemma client_gets_prefix:
  assumes "sp_reach (legit rcvd) k w s" and "a < length (sp_vcs s)"
    and "\<not> sc_is_udp (sp_vcs s ! a)" and "\<not> sc_rst (sp_vcs s ! a)"
  shows "\<exists>rest. concat (rcvd (sc_cid (sp_vcs s ! a))) = sc_out (sp_vcs s ! a) @ rest"
proof -
  have "recv_ok (rcvd (sc_cid (sp_vcs s ! a))) (sp_vcs s ! a)"
    using recv_inv_good [OF reach_recv_inv [OF assms(1)] assms(2)] assms(3,4) by (simp add: recv_good_def)
  then obtain n r where "sc_enq (sp_vcs s ! a) = take n (rcvd (sc_cid (sp_vcs s ! a)))"
    "concat (sc_enq (sp_vcs s ! a)) = sc_out (sp_vcs s ! a) @ r" by (auto simp: recv_ok_def)
  then show ?thesis by (metis append.assoc append_take_drop_id concat_append)
qed

text \<open>
  The grace wait ends with everything delivered.  When a connection is still in the table, the
  reassembler's FIN has arrived and the reorder buffer is complete through it (the condition on
  which the handler leaves its grace wait), then what the client's socket got together with what is
  queued for it is exactly everything the reassembler sent.
\<close>

lemma client_stream_complete:
  assumes "sp_reach (legit rcvd) k w s" and "tget (sp_conns s) c = Some a" and "\<not> sc_is_udp (sp_vcs s ! a)"
    and "sc_fin_received (sp_vcs s ! a)" and "\<not> sc_wr_done (sp_vcs s ! a)" and "length (rcvd c) + 1 < 2 ^ 64"
    and "is_complete_through (sc_reorder (sp_vcs s ! a)) (sc_fin_seq (sp_vcs s ! a))"
  shows "sc_out (sp_vcs s ! a) @ concat (ch_queue (sc_chan (sp_vcs s ! a))) = concat (rcvd c)"
proof -
  note inv = reach_recv_inv [OF assms(1)]
  have e: "a < length (sp_vcs s)" "sc_cid (sp_vcs s ! a) = c" "\<not> sc_rst (sp_vcs s ! a)"
    "rb.stream_rel (rcvd c) (sc_reorder (sp_vcs s ! a)) (sc_enq (sp_vcs s ! a))"
    using recv_inv_entry [OF inv assms(2)] assms(3) by (auto simp: recv_live_def)
  then have ok: "recv_ok (rcvd c) (sp_vcs s ! a)"
    using recv_inv_good [OF inv, of a] assms(3) by (simp add: recv_good_def)
  then have "sc_fin_seq (sp_vcs s ! a) = word_of_nat (length (rcvd c) + 1)"
    using assms(4) unfolding recv_ok_def by blast
  then have "sc_enq (sp_vcs s ! a) = rcvd c" using complete_all [OF e(4) assms(6)] assms(7) by simp
  moreover obtain d where "sc_enq (sp_vcs s ! a) = d @ ch_queue (sc_chan (sp_vcs s ! a))"
    "sc_out (sp_vcs s ! a) = concat d" using ok assms(5) unfolding recv_ok_def by (simp split: if_splits) blast
  ultimately show ?thesis by (metis concat_append)
qed

text \<open>
  A full client channel can tear a hole into the client's stream: the delivery loop goes on
  after a failed send, so when the writer frees a slot in between, a later chunk is queued although
  an earlier one was dropped; the connection is reset, but only afterwards.
\<close>

theorem on_frame_skips_chunk:
  assumes "ch_open c" and "length (ch_queue c) = ch_cap c" and "ch_queue c = q # qs"
  shows "client_sends c [x, y] [True] = (True, c\<lparr>ch_queue := qs @ [y]\<rparr>, [q])"
  using assms by (simp add: try_send_def try_recv_def)

theorem on_frame_skips_chunk_witness:
  "client_sends \<lparr>ch_queue = [[1]], ch_cap = 1, ch_open = True\<rparr> [[2], [3]] [True]
     = (True, \<lparr>ch_queue = [[3]], ch_cap = 1, ch_open = True\<rparr>, [[1]])"
  using on_frame_skips_chunk [of "\<lparr>ch_queue = [[1]], ch_cap = 1, ch_open = True\<rparr>"] by simp

subsection \<open>Properties: the life of a connection\<close>

text \<open>
  A client learns of success only when its SYN is on a tunnel: \<open>open_tcp\<close> answers with the
  success reply exactly when the SYN was queued, and then the connection is in the table; when no
  tunnel took the SYN the client gets the general failure reply and the table is as before; a
  target that cannot be encoded gets no reply and leaves no trace.
\<close>

theorem open_tcp_reply:
  assumes "tget (sp_conns s) cid = None" and "reply \<noteq> REPLY_GENERAL_FAILURE"
    and "open_tcp now cid target reply s = (told, s')"
  shows "case syn_encode \<lparr>proto = PROTO_TCP, address = ta_address target, port = ta_port target\<rparr> of
      Inl e \<Rightarrow> told = None \<and> sp_conns s' = sp_conns s \<and> sp_emitted s' = sp_emitted s
    | Inr pl \<Rightarrow>
        (told = Some reply \<longrightarrow> sp_emitted s' = sp_emitted s @ [frame_syn cid pl]
           \<and> tget (sp_conns s') cid = Some (length (sp_vcs s)))
        \<and> (told \<noteq> Some reply \<longrightarrow> told = Some REPLY_GENERAL_FAILURE \<and> sp_emitted s' = sp_emitted s
             \<and> (\<forall>c. tget (sp_conns s') c = tget (sp_conns s) c))
        \<and> (told = Some reply \<longleftrightarrow> fst (pool_send (frame_syn cid pl) (sp_pool s)))"
  using assms
  by (auto simp: open_tcp_def Let_def insert_sconn_def sp_send_def end_handler_def remove_own_def tget_tins tget_tdel
      split: sum.splits prod.splits if_splits)

theorem open_tcp_reply_witness:
  "fst (open_tcp 0 7 \<lparr>ta_address = [0x7A], ta_port = 80\<rparr> [5] (sp_init 100 1000)) = Some REPLY_GENERAL_FAILURE"
proof -
  obtain told s' where o: "open_tcp 0 7 \<lparr>ta_address = [0x7A], ta_port = 80\<rparr> [5] (sp_init 100 1000) = (told, s')"
    by force
  show ?thesis
    using open_tcp_reply [OF _ _ o] o by (simp add: demo_syn pool_send_def sp_init_def pool_new_def REPLY_GENERAL_FAILURE_def)
qed

lemma alloc_conn_id_Some:
  assumes "alloc_conn_id draws s = Some i"
  shows "i \<in> set draws \<and> i \<noteq> 0 \<and> \<not> thas (sp_conns s) i \<and> \<not> thas (sp_time_wait s) i"
proof -
  from assms obtain n where n: "n < length (take 1024 draws)" "i = take 1024 draws ! n"
    "i \<noteq> 0 \<and> \<not> thas (sp_conns s) i \<and> \<not> thas (sp_time_wait s) i"
    by (auto simp: alloc_conn_id_def find_Some_iff)
  moreover from n(1,2) have "i \<in> set draws" by (metis in_set_takeD nth_mem)
  ultimately show ?thesis by simp
qed

text \<open>
  Connection identifiers.  A new identifier is one of the draws, is not 0, and belongs neither
  to a live connection nor to one in TIME_WAIT; none is found only if each of the first 1024 draws
  is unusable.
\<close>

theorem alloc_conn_id_fresh:
  "case alloc_conn_id draws s of
     Some i \<Rightarrow> i \<in> set draws \<and> i \<noteq> 0 \<and> \<not> thas (sp_conns s) i \<and> \<not> thas (sp_time_wait s) i
   | None \<Rightarrow> set (take 1024 draws) \<subseteq> {i. i = 0 \<or> thas (sp_conns s) i \<or> thas (sp_time_wait s) i}"
proof (cases "alloc_conn_id draws s")
  case None
  then have "set (take 1024 draws) \<subseteq> {i. i = 0 \<or> thas (sp_conns s) i \<or> thas (sp_time_wait s) i}"
    by (auto simp: alloc_conn_id_def find_None_iff)
  with None show ?thesis by simp
qed (use alloc_conn_id_Some in auto)

text \<open>Every way a connection can end leaves a tombstone.\<close>

lemma end_handler_fields [simp]:
  "sp_time_wait (end_handler a s) = sp_time_wait s" "sp_conns (end_handler a s) = sp_conns s"
  by (simp_all add: end_handler_def)

lemma remove_own_fields [simp]:
  "sp_time_wait (remove_own c a s) = sp_time_wait s"
  "sp_conns (remove_own c a s) = (if tget (sp_conns s) c = Some a then tdel c (sp_conns s) else sp_conns s)"
  by (simp_all add: remove_own_def)

lemma reset_conn_fields [simp]:
  "sp_time_wait (reset_conn now c s) = tins c now (sp_time_wait s)" "sp_conns (reset_conn now c s) = tdel c (sp_conns s)"
  by (simp_all add: reset_conn_def Let_def split: option.split)

lemma sweep_time_wait: "thas (sp_time_wait s) c \<Longrightarrow> thas (sp_time_wait (fold (sp_sweep_conn now) cs s)) c"
proof (induction cs arbitrary: s)
  case (Cons x cs)
  obtain d a where x: "x = (d, a)" by force
  have "thas (sp_time_wait (sp_sweep_conn now (d, a) s)) c"
    using Cons.prems by (cases rule: sp_sweep_cases [of now d a s]) (simp_all add: sweep_out_def Let_def thas_tins)
  then show ?case using Cons.IH x by simp
qed simp



text \<open>
  The heartbeat never cuts an active connection: a connection whose handler runs and that moved
  data in the last 30 seconds is still in the table after a heartbeat, unchanged, whatever else the
  heartbeat sweeps.
\<close>

theorem heartbeat_keeps_active:
  assumes "sp_reach (legit rcvd) k w s" and "tget (sp_conns s) c = Some a"
    and "sc_phase (sp_vcs s ! a) \<noteq> Ended" and "(now - sc_last_active (sp_vcs s ! a)) div 1000 \<le> 30"
  shows "tget (sp_conns (sp_heartbeat now ms s)) c = Some a \<and> sp_vcs (sp_heartbeat now ms s) ! a = sp_vcs s ! a"
proof -
  note inv = reach_recv_inv [OF assms(1)]
  have d: "distinct (map fst (sp_conns s))" using recv_inv_twf [OF inv] by (simp add: twf_def)
  have stay: "sp_sweep_conn now (c, a) t = t" if "sp_vcs t ! a = sp_vcs s ! a" for t
    using that assms(3,4) by (auto simp: sp_sweep_conn_def Let_def fin_sweep_decision_def SP_TCP_IDLE_TIMEOUT_def
        SP_UDP_IDLE_TIMEOUT_def FIN_COMPLETE_IDLE_SECS_def)
  have "sp_vcs t ! a = sp_vcs s ! a \<Longrightarrow> tget (sp_conns t) c = Some a \<Longrightarrow>
      (\<And>c' b. (c', b) \<in> set cs \<Longrightarrow> (c', b) = (c, a) \<or> c' \<noteq> c \<and> b \<noteq> a) \<Longrightarrow>
      tget (sp_conns (fold (sp_sweep_conn now) cs t)) c = Some a
      \<and> sp_vcs (fold (sp_sweep_conn now) cs t) ! a = sp_vcs s ! a" for cs t
  proof (induction cs arbitrary: t)
    case (Cons x cs)
    obtain c' b where x: "x = (c', b)" by force
    have "tget (sp_conns (sp_sweep_conn now x t)) c = Some a \<and> sp_vcs (sp_sweep_conn now x t) ! a = sp_vcs s ! a"
    proof (cases "x = (c, a)")
      case True
      then show ?thesis using stay [OF Cons.prems(1)] Cons.prems by simp
    next
      case False
      then have "c' \<noteq> c" "b \<noteq> a" using Cons.prems(3) [of c' b] x by auto
      then show ?thesis using Cons.prems(1,2) x
        by (cases rule: sp_sweep_cases [of now c' b t]) (simp_all add: tget_tdel sweep_out_def Let_def upd_sc_def)
    qed
    then show ?case using Cons.IH [of "sp_sweep_conn now x t"] Cons.prems(3) by simp
  qed simp
  moreover have "(c', b) = (c, a) \<or> c' \<noteq> c \<and> b \<noteq> a" if "(c', b) \<in> set (sp_conns s)" for c' b
  proof -
    have t: "tget (sp_conns s) c' = Some b" using that d by simp
    have "sc_cid (sp_vcs s ! b) = c'" "sc_cid (sp_vcs s ! a) = c"
      using recv_inv_entry [OF inv t] recv_inv_entry [OF inv assms(2)] by blast+
    then show ?thesis using t assms(2) by (cases "c' = c") auto
  qed
  ultimately show ?thesis using assms(2) by (simp add: sp_heartbeat_def Let_def)
qed

theorem heartbeat_keeps_active_witness: "tget (sp_conns (sp_heartbeat 30000 0 demo_done)) 7 = Some 0"
  by (rule conjunct1 [OF heartbeat_keeps_active [OF demo_done_reach]]) (simp_all add: demo_done_run(2) demo_done_phase)

text \<open>
  C35. The grace wait is bounded: one round of it ends the handler, with a tombstone and without the
  connection in the table, as soon as the connection was closed, the response is complete through
  the FIN, 15 seconds have passed since a round first saw the FIN, or, without a FIN, nothing
  arrived for 60 seconds; in every other case the handler stays, and the round that first sees the
  FIN starts the 15 seconds.
\<close>

theorem grace_wait_bounded:
  assumes "a < length (sp_vcs s)" and "tget (sp_conns s) (sc_cid (sp_vcs s ! a)) = Some a"
    and "sc_phase (sp_vcs s ! a) = Grace seen"
  shows "let sc = sp_vcs s ! a; s' = grace_tick now a seen s;
      done = (sc_closed sc \<or> sc_fin_received sc \<and> is_complete_through (sc_reorder sc) (sc_fin_seq sc)
        \<or> sc_fin_received sc \<and> (\<exists>t. seen = Some t \<and> t + CLOSE_GRACE_MAX \<le> now)
        \<or> \<not> sc_fin_received sc \<and> sc_last_active sc + CLOSE_QUIET_TIMEOUT \<le> now)
    in sc_phase (sp_vcs s' ! a) =
         (if done then Ended
          else if sc_fin_received sc \<and> seen = None then Grace (Some now) else Grace seen)
     \<and> (tget (sp_conns s') (sc_cid sc) = None \<longleftrightarrow> done) \<and> (done \<longrightarrow> tget (sp_time_wait s') (sc_cid sc) = Some now)"
proof -
  have f: "sc_phase (sp_vcs (finish_client now a s) ! a) = Ended"
    "tget (sp_conns (finish_client now a s)) (sc_cid (sp_vcs s ! a)) = None"
    "tget (sp_time_wait (finish_client now a s)) (sc_cid (sp_vcs s ! a)) = Some now"
    using assms by (simp_all add: finish_client_vcs) (simp_all add: finish_client_def Let_def tget_tdel tget_tins)
  have k: "0 < CLOSE_GRACE_MAX" "0 < CLOSE_QUIET_TIMEOUT" by (simp_all add: CLOSE_GRACE_MAX_def CLOSE_QUIET_TIMEOUT_def)
  have le: "(n - t \<ge> m) = (t + m \<le> n)" if "0 < m" for n t m :: nat using that by linarith
  show ?thesis
    using f assms k unfolding grace_tick_def Let_def
    by (auto simp: le split: option.splits)
qed

theorem grace_wait_bounded_witness: "sc_phase (sp_vcs (grace_tick 10 0 None demo_done) ! 0) = Ended"
  using grace_wait_bounded [of 0 demo_done None 10]
  by (simp add: demo_done_conn demo_done_phase demo_done_run(2) Let_def)

definition data_lost :: "frame list \<Rightarrow> u32 \<Rightarrow> bool" where
  "data_lost lost c \<longleftrightarrow>
     list_ex (\<lambda>f. conn_id f = c \<and> \<not> (has_flag f FLAG_SYN \<or> has_flag f FLAG_FIN \<or> has_flag f FLAG_RST)) lost"

lemma recover_lost_conns:
  "tget (sp_conns (fold (recover_lost now) lost s)) c = (if data_lost lost c then None else tget (sp_conns s) c)"
  by (induction lost arbitrary: s) (auto simp: data_lost_def recover_lost_def thas_def tget_tdel)

text \<open>
  A dead tunnel is not a silent loss: for every DATA frame that the tunnel reported as unsent,
  its connection is reset and no longer in the table; no connection whose data was not lost leaves
  the table.
\<close>

theorem lost_data_resets:
  "tget (sp_conns (tunnel_lost now i lost s)) c = (if data_lost lost c then None else tget (sp_conns s) c)"
  by (simp add: tunnel_lost_def recover_lost_conns)

text \<open>
  The reconnect delay is between 3 and 24 seconds and never overflows; a session that ran is
  followed by 3 seconds, and the \<open>n\<close>-th failed attempt in a row by 6, 12, 24, 24, ... seconds: the
  first failure already waits 6 seconds.
\<close>

theorem reconnect_delays:
  "unat (reconnect_delay_secs n) = (if n = 0 then 3 else min 24 (3 * 2 ^ min (unat n) 3))
   \<and> 3 \<le> unat (reconnect_delay_secs n) \<and> unat (reconnect_delay_secs n) \<le> 24
   \<and> reconnect_delay_secs (next_retry True n) = 3 \<and> reconnect_delay_secs (next_retry False 0) = 6"
proof -
  have d: "reconnect_delay_secs 0 = 3" "reconnect_delay_secs 1 = 6" "reconnect_delay_secs 2 = 12"
    by (simp_all add: reconnect_delay_secs_def)
  have "reconnect_delay_secs n = 24 \<and> n \<noteq> 0 \<and> min (unat n) 3 = 3" if "3 \<le> unat n"
  proof -
    have "3 \<le> n" using that by (simp add: word_le_nat_alt)
    then have "min n 3 = 3" "n \<noteq> 0" by (auto simp: min_def)
    then show ?thesis using that by (simp add: reconnect_delay_secs_def)
  qed
  moreover have "n = 0 \<or> n = 1 \<or> n = 2 \<or> 3 \<le> unat n"
  proof -
    have "unat n = 0 \<or> unat n = 1 \<or> unat n = 2 \<or> 3 \<le> unat n" by linarith
    then show ?thesis by (simp add: word_unat_eq_iff)
  qed
  ultimately show ?thesis by (elim disjE) (simp_all add: d next_retry_def)
qed

text \<open>
  The UDP relay serves one client: once the client's address is known, a datagram from any
  other source changes nothing, and a response goes to that address or nowhere; the first sender
  becomes the client when the request named none.
\<close>

theorem udp_relay_pinned:
  assumes "a < length (sp_vcs s)" and "sc_is_udp (sp_vcs s ! a)" and "sc_phase (sp_vcs s ! a) = Reading"
    and "sc_peer (sp_vcs s ! a) = Some p"
  shows "(src \<noteq> p \<longrightarrow> udp_client_step now a (UcDatagram src bs) s = s)
    \<and> sc_peer (sp_vcs (udp_client_step now a (UcDatagram p bs) s) ! a) = Some p
    \<and> (\<exists>out. sc_udp_out (sp_vcs (udp_response_step a ok s) ! a) = sc_udp_out (sp_vcs s ! a) @ out
         \<and> fst ` set out \<subseteq> {p})"
proof -
  obtain sent s2 where f: "send_retry 3 (frame_data (sc_cid (sp_vcs s ! a)) (sc_seq (sp_vcs s ! a)) bs)
      ((upd_sc a (\<lambda>sc. sc\<lparr>sc_peer := Some p\<rparr>) s)\<lparr>sp_udp_sent := sp_udp_sent s + 1\<rparr>) = (sent, s2)" by force
  have "sc_peer (sp_vcs (udp_client_step now a (UcDatagram p bs) s) ! a) = Some p"
    using assms send_retry_spec [OF f] f by (simp add: udp_client_step_def udp_datagram_def Let_def)
  then show ?thesis
    using assms by (auto simp: udp_client_step_def udp_datagram_def udp_response_step_def Let_def split: prod.split option.split)
qed

theorem udp_relay_pinned_witness:
  "let s = insert_sconn 7 (new_sconn 7 \<lparr>proto = PROTO_UDP, address = [], port = 0\<rparr> 1024 1000 True (Some \<lparr>sa_ip = V4 [1, 2, 3, 4], sa_port = 5\<rparr>) 0) (sp_init 100 1000)
   in udp_client_step 1 0 (UcDatagram \<lparr>sa_ip = V4 [9, 9, 9, 9], sa_port = 5\<rparr> [1]) s = s"
  using udp_relay_pinned [of 0
      "insert_sconn 7 (new_sconn 7 \<lparr>proto = PROTO_UDP, address = [], port = 0\<rparr> 1024 1000 True (Some \<lparr>sa_ip = V4 [1, 2, 3, 4], sa_port = 5\<rparr>) 0) (sp_init 100 1000)"
      "\<lparr>sa_ip = V4 [1, 2, 3, 4], sa_port = 5\<rparr>" "\<lparr>sa_ip = V4 [9, 9, 9, 9], sa_port = 5\<rparr>" 1 "[1]" True]
  by (simp add: insert_sconn_def sp_init_def new_sconn_def)

end
