(* ===== verification/Growth.thy ===== *)
theory Growth
  imports ReassemblerEmit SplitterInv
begin

text \<open>
  No event takes back what happened before it: connections keep their address and identifier, and
  the data they have sent and the bytes on their sockets only grow.  The locale \<open>growing\<close> says this
  once for a list of connections with a preorder; the two ends interpret it.
\<close>

locale growing =
  fixes vcs :: "'s \<Rightarrow> 'c list" and ext :: "'c \<Rightarrow> 'c \<Rightarrow> bool"
  assumes ext_refl: "ext c c" and ext_trans: "ext c c' \<Longrightarrow> ext c' c'' \<Longrightarrow> ext c c''"
begin

definition grown :: "'c list \<Rightarrow> 's \<Rightarrow> bool" where
  "grown B s \<longleftrightarrow> length B \<le> length (vcs s) \<and> (\<forall>a < length B. ext (B ! a) (vcs s ! a))"

lemma grown_now: "grown (vcs s) s"
  by (simp add: grown_def ext_refl)

lemma grown_same: "vcs s' = vcs s \<Longrightarrow> grown B s \<Longrightarrow> grown B s'"
  by (simp add: grown_def)

lemma grown_upd:
  assumes "grown B s" and "vcs s' = (vcs s)[a := c]" and "ext (vcs s ! a) c"
  shows "grown B s'"
  unfolding grown_def
proof (intro conjI allI impI)
  show "length B \<le> length (vcs s')" using assms(1,2) by (simp add: grown_def)
  fix b assume b: "b < length B"
  then have "ext (B ! b) (vcs s ! b)" "b < length (vcs s)" using assms(1) by (auto simp: grown_def)
  then show "ext (B ! b) (vcs s' ! b)"
    using assms(2,3) ext_trans by (cases "a = b") auto
qed

lemma grown_append: "grown B s \<Longrightarrow> vcs s' = vcs s @ cs \<Longrightarrow> grown B s'"
  by (auto simp: grown_def nth_append)

lemma grown_fold: "(\<And>x t. grown B t \<Longrightarrow> grown B (g x t)) \<Longrightarrow> grown B s \<Longrightarrow> grown B (fold g xs s)"
  by (induction xs arbitrary: s) simp_all

end

text \<open>Senders that grow: what a connection identifier stands for is only ever extended.\<close>

locale growing_sender = sender cid sent fin syn le + growing vcs ext
  for cid :: "'c \<Rightarrow> u32" and sent :: "'c \<Rightarrow> bytes list" and fin :: "'c \<Rightarrow> bool"
    and syn :: "'c \<Rightarrow> bytes \<Rightarrow> bool" and le :: "'c \<Rightarrow> 'c \<Rightarrow> bool"
    and vcs :: "'s \<Rightarrow> 'c list" and ext :: "'c \<Rightarrow> 'c \<Rightarrow> bool" +
  assumes ext_sent: "ext c c' \<Longrightarrow> cid c' = cid c \<and> (\<exists>x. sent c' = sent c @ x)"
begin

lemma sent_by_grows:
  assumes "grown B s" and "distinct (map cid (vcs s))"
  shows "\<exists>x. sent_by (vcs s) i = sent_by B i @ x"
proof (cases "find (\<lambda>c. cid c = i) B")
  case (Some c)
  then obtain b where b: "b < length B" "B ! b = c" "cid c = i" by (auto simp: find_Some_iff)
  then have e: "b < length (vcs s)" "ext c (vcs s ! b)" using assms(1) by (auto simp: grown_def)
  then have "sent_by (vcs s) i = sent (vcs s ! b)"
    using sent_by_conn [OF assms(2), of "vcs s ! b"] ext_sent [OF e(2)] b(3) by simp
  then show ?thesis using ext_sent [OF e(2)] Some by (simp add: sent_by_def [of B])
qed (simp add: sent_by_def [of B])

end

subsection \<open>The reassembler\<close>

definition vc_ext :: "vconn \<Rightarrow> vconn \<Rightarrow> bool" where
  "vc_ext vc vc' \<longleftrightarrow> vc_cid vc' = vc_cid vc \<and> vc_is_udp vc' = vc_is_udp vc
     \<and> (\<exists>x. vc_sock vc' = vc_sock vc @ x) \<and> (\<exists>x. vc_sent vc' = vc_sent vc @ x)"

lemma vc_ext_refl [simp]: "vc_ext vc vc"
  by (simp add: vc_ext_def)

lemma vc_ext_trans: "vc_ext a b \<Longrightarrow> vc_ext b c \<Longrightarrow> vc_ext a c"
  by (auto simp: vc_ext_def)

interpretation rg: growing rs_vcs vc_ext
  by unfold_locales (simp, rule vc_ext_trans)

lemma rg_upd: "rg.grown B s \<Longrightarrow> vc_ext (rs_vcs s ! a) (g (rs_vcs s ! a)) \<Longrightarrow> rg.grown B (upd_vc a g s)"
  by (rule rg.grown_upd) (simp_all add: upd_vc_def)

lemma rg_fields [simp]:
  "rg.grown B (s\<lparr>rs_conns := x1\<rparr>) = rg.grown B s" "rg.grown B (s\<lparr>rs_pending := x2\<rparr>) = rg.grown B s"
  "rg.grown B (s\<lparr>rs_closed := x3\<rparr>) = rg.grown B s" "rg.grown B (s\<lparr>rs_handshaking := x4\<rparr>) = rg.grown B s"
  "rg.grown B (s\<lparr>rs_pool := x5\<rparr>) = rg.grown B s" "rg.grown B (s\<lparr>rs_pending_bytes := x6\<rparr>) = rg.grown B s"
  "rg.grown B (s\<lparr>rs_resets := x7\<rparr>) = rg.grown B s" "rg.grown B (s\<lparr>rs_permits := x8\<rparr>) = rg.grown B s"
  "rg.grown B (s\<lparr>rs_tasks := x9\<rparr>) = rg.grown B s" "rg.grown B (s\<lparr>rs_next_task := x10\<rparr>) = rg.grown B s"
  "rg.grown B (s\<lparr>rs_timers := x11\<rparr>) = rg.grown B s" "rg.grown B (s\<lparr>rs_udp_out := x12\<rparr>) = rg.grown B s"
  "rg.grown B (s\<lparr>rs_emitted := x13\<rparr>) = rg.grown B s"
  by (simp_all add: rg.grown_def)

lemma rg_prims [simp]:
  "rg.grown B (send_ctl f s) = rg.grown B s" "rg.grown B (tombstone n c s) = rg.grown B s"
  "rg.grown B (end_handshaking c s) = rg.grown B s" "rg.grown B (count_reset s) = rg.grown B s"
  "rg.grown B (notify_task k s) = rg.grown B s" "rg.grown B (end_task i h s) = rg.grown B s"
  "rg.grown B (cancel_pending c s) = rg.grown B s" "rg.grown B (snd (remove_pending c s)) = rg.grown B s"
  "rg.grown B (forward_udp_datagram a p s) = rg.grown B s" "rg.grown B (finish_if_done n a c s) = rg.grown B s"
  by (simp_all add: send_ctl_def tombstone_def end_handshaking_def count_reset_def notify_task_def end_task_def cancel_pending_def
      remove_pending_def forward_udp_datagram_def finish_if_done_def split: option.split sum.split prod.split)

lemma vc_ext_ops [simp]:
  "vc_ext vc (signal_teardown vc)" "vc_ext vc (close_write_half b vc)" "vc_ext vc (note_recv n l vc)" "vc_ext vc (note_sent n l vc)"
  by (auto simp: vc_ext_def signal_teardown_def note_recv_def note_sent_def close_write_half_def Let_def)

lemma start_half_close_ext: "start_half_close q vc = (t, vc') \<Longrightarrow> vc_ext vc vc'"
  by (auto simp: start_half_close_def vc_ext_def Let_def close_write_half_def split: if_splits)

lemma deliver_ext: "deliver q p vc = (r, vc') \<Longrightarrow> vc_ext vc vc'"
  by (auto simp: deliver_def egress_write_all_def vc_ext_def Let_def split: prod.splits if_splits option.splits)

lemma writer_ext: "vc_ext vc (writer_step d e vc)"
  by (auto simp: vc_ext_def writer_step_def end_writer_def Let_def
      split: option.splits writer_event.splits prod.splits wr_result.splits)

lemma replay_ext: "replay fs q vc = (r, q', vc') \<Longrightarrow> vc_ext vc vc'"
proof (induction fs q vc rule: replay.induct)
  case (2 f fs q vc)
  obtain d vc1 where d: "deliver (seq f) (payload f) vc = (d, vc1)" by force
  have "vc_ext vc vc1" using deliver_ext [OF d] .
  moreover from this have "vc_ext vc (close_write_half False vc1)" by (rule vc_ext_trans) simp
  ultimately show ?case using 2 d by (auto split: if_splits delivery.splits intro: vc_ext_trans)
qed simp

lemma rg_conn_ops [simp]:
  "rg.grown B s \<Longrightarrow> rg.grown B (remove_conn c s)"
  "rg.grown B s \<Longrightarrow> rg.grown B (upd_vc a (note_recv n l) s)" "rg.grown B s \<Longrightarrow> rg.grown B (upd_vc a (note_sent n l) s)"
  "rg.grown B s \<Longrightarrow> rg.grown B (upd_vc a (close_write_half b) s)"
  "rg.grown B s \<Longrightarrow> rg.grown B (half_close_conn a q s)"
  by (auto simp: remove_conn_def half_close_conn_def Let_def intro!: rg_upd dest: start_half_close_ext
      split: option.split prod.split)

lemma rg_data_established [simp]:
  assumes "rg.grown B s"
  shows "rg.grown B (data_established n a f s)"
proof -
  obtain d vc where d: "deliver (seq f) (payload f) (rs_vcs s ! a) = (d, vc)" by force
  then have "rg.grown B (upd_vc a (\<lambda>_. vc) s)" using assms deliver_ext by (intro rg_upd)
  then show ?thesis using assms d by (simp add: data_established_def reset_data_conn_def Let_def split: delivery.split)
qed

lemma rg_drop_pending [simp]: "rg.grown B (drop_pending n ke s) = rg.grown B s"
  by (simp add: drop_pending_def)

lemma rg_try_reserve: "try_reserve_pending n ex k s = (r, s') \<Longrightarrow> rg.grown B s \<Longrightarrow> rg.grown B s'"
proof (induction n ex k s rule: try_reserve_pending.induct)
  case (1 n ex k s)
  show ?case using "1.prems" "1.IH" by (subst (asm) try_reserve_pending.simps) (auto split: if_splits option.splits)
qed

lemma rg_handlers [simp]:
  "rg.grown B s \<Longrightarrow> rg.grown B (handle_data n f s)" "rg.grown B s \<Longrightarrow> rg.grown B (handle_fin n f s)"
  "rg.grown B s \<Longrightarrow> rg.grown B (handle_rst n f s)" "rg.grown B s \<Longrightarrow> rg.grown B (syn_fail n c s)"
  "rg.grown B s \<Longrightarrow> rg.grown B (syn_abort c s)" "rg.grown B s \<Longrightarrow> rg.grown B (syn_cancelled n c s)"
  "rg.grown B s \<Longrightarrow> rg.grown B (syn_begin n p f s)" "rg.grown B s \<Longrightarrow> rg.grown B (insert_conn c vc s)"
proof -
  have "rg.grown B s \<Longrightarrow> rg.grown B (data_unknown n f s)"
    by (auto simp: data_unknown_def fail_pending_conn_def Let_def dest: rg_try_reserve split: prod.split option.split bool.split)
  then show "rg.grown B s \<Longrightarrow> rg.grown B (handle_data n f s)" by (simp add: handle_data_def split: option.split)
  show "rg.grown B s \<Longrightarrow> rg.grown B (insert_conn c vc s)" by (erule rg.grown_append) (simp add: insert_conn_def)
qed (simp_all add: handle_fin_def handle_rst_def syn_fail_def syn_abort_def syn_cancelled_def syn_begin_def
      fail_pending_conn_def Let_def split: option.split sum.split)

lemma rg_remove_pending: "remove_pending c s = (e, s') \<Longrightarrow> rg.grown B s \<Longrightarrow> rg.grown B s'"
  using rg_prims(8) by (metis snd_conv)

lemma rg_syn_drain [simp]:
  assumes "rg.grown B s"
  shows "rg.grown B (syn_drain n c a fs s)"
proof -
  obtain r q vc where r: "replay fs None (rs_vcs s ! a) = (r, q, vc)" by (metis prod_cases3)
  then have "rg.grown B (upd_vc a (\<lambda>_. vc) s)" using assms replay_ext by (intro rg_upd)
  then show ?thesis using r by (simp add: syn_drain_def Let_def split: replay_end.split option.split)
qed

lemma rg_syn_bound: "rg.grown B s \<Longrightarrow> rg.grown B (syn_udp_bound n c b s)"
  by (auto simp: syn_udp_bound_def Let_def dest!: rg_remove_pending [of _ _ _ _ B] intro!: rg.grown_fold
      split: option.split prod.split)

lemma rg_syn_connected: "rg.grown B s \<Longrightarrow> rg.grown B (syn_connected n c r s)"
  by (auto simp: syn_connected_def Let_def dest!: rg_remove_pending [of _ _ _ _ B]
      split: connect_result.split option.split prod.split)

lemma rg_reader: "rg.grown B s \<Longrightarrow> rg.grown B (reader_step rnd now a ev s)"
  by (auto simp: reader_step_def Let_def intro!: rg_upd simp: vc_ext_def note_sent_def
      split: reader_event.split prod.split async_outcome.split)

lemma rg_udp_reader: "rg.grown B s \<Longrightarrow> rg.grown B (udp_reader_step now a ev s)"
  by (auto simp: udp_reader_step_def Let_def intro!: rg_upd simp: vc_ext_def note_sent_def
      split: udp_event.split sum.split prod.split bool.split option.split)

lemma rg_heartbeat: "rg.grown B s \<Longrightarrow> rg.grown B (heartbeat n m s)"
  by (simp add: heartbeat_def sweep_stale_pending_def sweep_conn_def Let_def rg.grown_fold)

lemma rg_link_lost: "rg.grown B s \<Longrightarrow> rg.grown B (link_lost i lost s)"
  by (simp add: link_lost_def resend_lost_def rg.grown_fold)

lemma rs_exec_grown: "rg.grown B s \<Longrightarrow> rg.grown B (rs_exec ev s)"
  by (cases ev) (simp_all add: rs_exec_def read_link_frame_def dispatch_frame_def handle_frame_def Let_def rg_syn_bound
      rg_syn_connected rg_reader rg_udp_reader rg_upd writer_ext rg_heartbeat accept_link_def rg_link_lost link_ended_def
      split: option.split)

lemma rs_exec_extends:
  assumes "a < length (rs_vcs s)"
  shows "a < length (rs_vcs (rs_exec ev s))" and "vc_ext (rs_vcs s ! a) (rs_vcs (rs_exec ev s) ! a)"
  using rs_exec_grown [OF rg.grown_now] assms by (auto simp: rg.grown_def intro: order.strict_trans2)

subsection \<open>The splitter\<close>

definition sc_ext :: "sconn \<Rightarrow> sconn \<Rightarrow> bool" where
  "sc_ext sc sc' \<longleftrightarrow> sc_cid sc' = sc_cid sc \<and> sc_is_udp sc' = sc_is_udp sc
     \<and> (\<exists>x. sc_out sc' = sc_out sc @ x) \<and> (\<exists>x. sc_sent sc' = sc_sent sc @ x)"

lemma sc_ext_refl [simp]: "sc_ext sc sc"
  by (simp add: sc_ext_def)

lemma sc_ext_trans: "sc_ext a b \<Longrightarrow> sc_ext b c \<Longrightarrow> sc_ext a c"
  by (auto simp: sc_ext_def)

interpretation sg: growing sp_vcs sc_ext
  by unfold_locales (simp, rule sc_ext_trans)

lemma sg_upd: "sg.grown B s \<Longrightarrow> sc_ext (sp_vcs s ! a) (g (sp_vcs s ! a)) \<Longrightarrow> sg.grown B (upd_sc a g s)"
  by (rule sg.grown_upd) (simp_all add: upd_sc_def)

lemma sg_fields [simp]:
  "sg.grown B (s\<lparr>sp_conns := x1\<rparr>) = sg.grown B s" "sg.grown B (s\<lparr>sp_time_wait := x2\<rparr>) = sg.grown B s"
  "sg.grown B (s\<lparr>sp_pool := x3\<rparr>) = sg.grown B s" "sg.grown B (s\<lparr>sp_resets := x4\<rparr>) = sg.grown B s"
  "sg.grown B (s\<lparr>sp_spawned := x5\<rparr>) = sg.grown B s" "sg.grown B (s\<lparr>sp_half_open := x6\<rparr>) = sg.grown B s"
  "sg.grown B (s\<lparr>sp_slot := x7\<rparr>) = sg.grown B s" "sg.grown B (s\<lparr>sp_udp_sent := x8\<rparr>) = sg.grown B s"
  "sg.grown B (s\<lparr>sp_udp_recv := x9\<rparr>) = sg.grown B s" "sg.grown B (s\<lparr>sp_emitted := x10\<rparr>) = sg.grown B s"
  by (simp_all add: sg.grown_def)

lemma sg_send [simp]: "sg.grown B (snd (sp_send f s)) = sg.grown B s"
  by (simp add: sg.grown_def)

lemma sg_sent: "sp_send f s = (ok, s') \<Longrightarrow> sg.grown B s' = sg.grown B s"
  using sg_send by (metis snd_conv)

lemma sg_send_async: "sp_send_async rnd f s = (ok, s') \<Longrightarrow> sg.grown B s' = sg.grown B s"
  using sp_send_async_spec by (simp add: sg.grown_def)

lemma sg_send_retry: "send_retry n f s = (ok, s') \<Longrightarrow> sg.grown B s' = sg.grown B s"
  using send_retry_spec by (simp add: sg.grown_def)

lemma sc_ext_fields [simp]:
  "sc_ext sc (shut_down sc)" "sc_ext sc (sc\<lparr>sc_rst := b\<rparr>)" "sc_ext sc (sc\<lparr>sc_phase := ph\<rparr>)" "sc_ext sc (sc\<lparr>sc_notify := b\<rparr>)"
  "sc_ext sc (sc\<lparr>sc_fin_sent := b\<rparr>)" "sc_ext sc (sc\<lparr>sc_grace_waiting := b, sc_phase := ph\<rparr>)" "sc_ext sc (sc\<lparr>sc_peer := p\<rparr>)"
  by (simp_all add: sc_ext_def shut_down_def)

lemma sg_flags [simp]:
  "sg.grown B s \<Longrightarrow> sg.grown B (upd_sc a (\<lambda>sc. sc\<lparr>sc_phase := ph\<rparr>) s)" "sg.grown B s \<Longrightarrow> sg.grown B (upd_sc a (\<lambda>sc. sc\<lparr>sc_notify := b\<rparr>) s)"
  "sg.grown B s \<Longrightarrow> sg.grown B (upd_sc a (\<lambda>sc. sc\<lparr>sc_fin_sent := b\<rparr>) s)" "sg.grown B s \<Longrightarrow> sg.grown B (upd_sc a (\<lambda>sc. sc\<lparr>sc_peer := p\<rparr>) s)"
  "sg.grown B s \<Longrightarrow> sg.grown B (upd_sc a (\<lambda>sc. sc\<lparr>sc_fin_sent := b, sc_grace_waiting := b', sc_phase := ph\<rparr>) s)"
  "sg.grown B s \<Longrightarrow> sg.grown B (upd_sc a (\<lambda>sc. sc\<lparr>sc_grace_waiting := b, sc_phase := ph\<rparr>) s)"
  by (erule sg_upd; simp add: sc_ext_def)+

lemma client_writer_ext: "sc_ext sc (client_writer_step d ev sc)"
  by (auto simp: client_writer_step_def sc_ext_def split: prod.split option.split cwriter_event.split)

lemma on_frame_ext: "sc_ext sc (snd (on_frame now drains sq pl sc))"
  by (auto simp: on_frame_def sc_ext_def Let_def split: prod.split)

lemma sg_reset_conn [simp]: "sg.grown B s \<Longrightarrow> sg.grown B (reset_conn now cid s)"
  by (simp add: reset_conn_def Let_def sg_upd split: option.split)

lemma sg_inbound_data [simp]:
  assumes "sg.grown B s"
  shows "sg.grown B (inbound_data now drains f s)"
proof (cases "tget (sp_conns s) (conn_id f)")
  case (Some a)
  obtain ovf sc where o: "on_frame now drains (seq f) (payload f) (sp_vcs s ! a) = (ovf, sc)" by force
  then have "sg.grown B (upd_sc a (\<lambda>_. sc) s)" using assms on_frame_ext [of "sp_vcs s ! a" now drains "seq f" "payload f"] by (intro sg_upd) simp_all
  then have "sg.grown B (inbound_data now drains f s)" if "\<not> sc_is_udp (sp_vcs s ! a)"
    using that Some o by (simp add: inbound_data_def Let_def)
  moreover have "sg.grown B (inbound_data now drains f s)" if "sc_is_udp (sp_vcs s ! a)"
    using that Some assms by (auto simp: inbound_data_def sc_ext_def intro!: sg_upd split: prod.split send_result.split)
  ultimately show ?thesis by blast
qed (simp add: inbound_data_def assms)

lemma sg_inbound_fin [simp]: "sg.grown B s \<Longrightarrow> sg.grown B (inbound_fin f s)"
  by (auto simp: inbound_fin_def sc_ext_def intro!: sg_upd split: option.split)

lemma sg_tunnel_lost: "sg.grown B s \<Longrightarrow> sg.grown B (tunnel_lost now i lost s)"
  by (simp add: tunnel_lost_def recover_lost_def sg.grown_fold)

lemma sg_handlers [simp]:
  "sg.grown B s \<Longrightarrow> sg.grown B (end_handler a s)" "sg.grown B (remove_own cid a s) = sg.grown B s"
  "sg.grown B s \<Longrightarrow> sg.grown B (insert_sconn cid sc s)"
  by (simp_all add: end_handler_def remove_own_def) (erule sg.grown_append, simp add: insert_sconn_def)

lemma sg_client_accepted: "sg.grown B s \<Longrightarrow> sg.grown B (snd (client_accepted now draws res s))"
  by (auto simp: client_accepted_def open_tcp_def open_udp_def Let_def sg_sent
      split: option.split socks5_result.split prod.split sum.split)

lemma sg_finish_client [simp]: "sg.grown B s \<Longrightarrow> sg.grown B (finish_client now a s)"
  by (simp add: finish_client_def Let_def)

lemma sg_client_close [simp]: "sg.grown B s \<Longrightarrow> sg.grown B (client_close rnd now a reason force fin_ok s)"
  by (auto simp: client_close_def Let_def sg_send_async split: prod.split)

lemma sg_client_step: "sg.grown B s \<Longrightarrow> sg.grown B (client_step rnd now a ev s)"
  by (auto simp: client_step_def grace_tick_def Let_def sg_send_async intro!: sg_upd simp: sc_ext_def [of _ "_\<lparr>sc_sent := _\<rparr>"]
      split: phase.split client_event.split prod.split option.split)

lemma sg_udp: "sg.grown B s \<Longrightarrow> sg.grown B (udp_client_step now a ev s)"
  by (auto simp: udp_client_step_def udp_datagram_def end_udp_def Let_def sg_send_retry intro!: sg_upd
      simp: sc_ext_def [of _ "_\<lparr>sc_sent := _\<rparr>"] split: udp_client_event.split prod.split)

lemma sg_udp_response: "sg.grown B s \<Longrightarrow> sg.grown B (udp_response_step a ok s)"
  by (auto simp: udp_response_step_def Let_def sc_ext_def intro!: sg_upd split: prod.split option.split)

lemma sg_heartbeat: "sg.grown B s \<Longrightarrow> sg.grown B (sp_heartbeat now now_ms s)"
  by (simp add: sp_heartbeat_def sp_sweep_conn_def sweep_out_def Let_def sg.grown_fold sg_upd)

lemma sp_exec_grown: "sg.grown B s \<Longrightarrow> sg.grown B (sp_exec ev s)"
  by (cases ev) (simp_all add: sp_exec_def read_frame_def handle_inbound_frame_def Let_def tunnel_up_def tunnel_down_def
      sg_tunnel_lost accept_client_def begin_client_def sg_client_accepted sg_client_step sg_upd client_writer_ext
      sg_udp sg_udp_response sg_heartbeat)

lemma sp_exec_extends:
  assumes "a < length (sp_vcs s)"
  shows "a < length (sp_vcs (sp_exec ev s))" and "sc_ext (sp_vcs s ! a) (sp_vcs (sp_exec ev s) ! a)"
  using sp_exec_grown [OF sg.grown_now] assms by (auto simp: sg.grown_def intro: order.strict_trans2)

interpretation up: growing_sender sc_cid sc_sent sc_fin_sent announces sc_le sp_vcs sc_ext
  by unfold_locales (auto simp: sc_ext_def)

interpretation down: growing_sender vc_cid vc_sent vc_fin_sent "\<lambda>_ _. False" vc_le rs_vcs vc_ext
  by unfold_locales (auto simp: vc_ext_def)

end
