(* ===== verification/System.thy ===== *)
theory System
  imports ReassemblerProps SplitterProps Growth
begin

text \<open>
  The two programs together.  \<open>sys\<close> interleaves the events of a splitter and of a reassembler; the
  only thing that joins them is that a frame that one end reads is a frame that a queue of the other
  end accepted.  The tunnels may lose, delay, repeat and reorder frames at will, and any number of
  clients and targets, timers and link failures may act at any time.
\<close>

subsection \<open>The joint system\<close>

inductive sys_step :: "sp \<Rightarrow> rs \<Rightarrow> sp \<Rightarrow> rs \<Rightarrow> bool" where
  splitter: "(\<And>i now ms d f. ev = SvFrame i now ms d f \<Longrightarrow> f \<in> set (rs_emitted r)) \<Longrightarrow>
     (\<And>now i fs. ev = SvLost now i fs \<Longrightarrow> set fs \<subseteq> set (sp_emitted s)) \<Longrightarrow> sys_step s r (sp_exec ev s) r"
| reassembler: "(\<And>i now ms f. ev = EvFrame i now ms f \<Longrightarrow> f \<in> set (sp_emitted s)) \<Longrightarrow>
     (\<And>i fs. ev = EvLost i fs \<Longrightarrow> set fs \<subseteq> set (rs_emitted r)) \<Longrightarrow> sys_step s r s (rs_exec ev r)"

inductive sys :: "nat \<Rightarrow> nat \<Rightarrow> nat \<Rightarrow> nat \<Rightarrow> sp \<Rightarrow> rs \<Rightarrow> bool" for k w k' w' where
  boot: "sys k w k' w' (sp_init k w) (rs_init w' k')"
| step: "sys k w k' w' s r \<Longrightarrow> sys_step s r s' r' \<Longrightarrow> sys k w k' w' s' r'"

lemma sys_induct [consumes 1, case_names boot splitter reassembler]:
  assumes "sys k w k' w' s r" and "P (sp_init k w) (rs_init w' k')"
    and "\<And>s r ev. sys k w k' w' s r \<Longrightarrow> P s r \<Longrightarrow> (\<And>i now ms d f. ev = SvFrame i now ms d f \<Longrightarrow> f \<in> set (rs_emitted r)) \<Longrightarrow>
      (\<And>now i fs. ev = SvLost now i fs \<Longrightarrow> set fs \<subseteq> set (sp_emitted s)) \<Longrightarrow> P (sp_exec ev s) r"
    and "\<And>s r ev. sys k w k' w' s r \<Longrightarrow> P s r \<Longrightarrow> (\<And>i now ms f. ev = EvFrame i now ms f \<Longrightarrow> f \<in> set (sp_emitted s)) \<Longrightarrow>
      (\<And>i fs. ev = EvLost i fs \<Longrightarrow> set fs \<subseteq> set (rs_emitted r)) \<Longrightarrow> P s (rs_exec ev r)"
  shows "P s r"
  using assms(1)
proof (induction rule: sys.induct)
  case (step s r s' r')
  from step.hyps(2) show ?case
  proof (cases rule: sys_step.cases)
    case (splitter ev)
    then show ?thesis using assms(3) [OF step.hyps(1) step.IH, of ev] by blast
  next
    case (reassembler ev)
    then show ?thesis using assms(4) [OF step.hyps(1) step.IH, of ev] by blast
  qed
qed (rule assms(2))

lemma sys_emit_inv:
  assumes "sys k w k' w' s r" and "k \<le> MAX_PAYLOAD"
  shows "emit_inv {} s"
  using assms(1)
proof (induction rule: sys_induct)
  case boot
  show ?case by (rule reach_emit_inv [OF sp_reach.sp_start assms(2)])
qed (use sp_exec_emit in blast)+

lemma sys_rs_emit:
  assumes "sys k w k' w' s r" and "k' \<le> MAX_PAYLOAD"
  shows "rs_emit {} r"
  using assms(1)
proof (induction rule: sys_induct)
  case boot
  show ?case by (rule rs_emit_init [OF assms(2)])
qed (use rs_exec_emit in blast)+

text \<open>Each end sees the other through a predicate that all its frames satisfy.\<close>

lemma sys_rs_reach:
  assumes "sys k w k' w' s r" and "k \<le> MAX_PAYLOAD" and "\<And>f. f \<in> set (sp_emitted s) \<Longrightarrow> Q f"
  shows "rs_reach Q w' k' r"
  using assms(1,3)
proof (induction rule: sys_induct)
  case boot
  show ?case by (rule rs_reach.init)
next
  case (splitter s r ev)
  have "set (sp_emitted s) \<subseteq> set (sp_emitted (sp_exec ev s))"
    using sp_emitted_mono [OF sys_emit_inv [OF splitter.hyps(1) assms(2)]] splitter.hyps(3) by blast
  then show ?case using splitter.IH splitter.prems by blast
next
  case (reassembler s r ev)
  show ?case by (rule rs_reach.step) (use reassembler in blast)+
qed

lemma sys_sp_reach:
  assumes "sys k w k' w' s r" and "k' \<le> MAX_PAYLOAD" and "\<And>f. f \<in> set (rs_emitted r) \<Longrightarrow> Q f"
  shows "sp_reach Q k w s"
  using assms(1,3)
proof (induction rule: sys_induct)
  case boot
  show ?case by (rule sp_reach.sp_start)
next
  case (splitter s r ev)
  show ?case by (rule sp_reach.sp_step) (use splitter in blast)+
next
  case (reassembler s r ev)
  have "set (rs_emitted r) \<subseteq> set (rs_emitted (rs_exec ev r))"
    using rs_emitted_mono [OF sys_rs_emit [OF reassembler.hyps(1) assms(2)]] reassembler.hyps(3) by blast
  then show ?case using reassembler.IH reassembler.prems by blast
qed

subsection \<open>The two streams\<close>

text \<open>The chunks that the target of a connection sent.\<close>

definition replied_of :: "rs \<Rightarrow> u32 \<Rightarrow> bytes list" where
  "replied_of r = tg.sent_by (rs_vcs r)"

lemma sys_upload:
  assumes "sys k w k' w' s r" and "k \<le> MAX_PAYLOAD" and "distinct (map sc_cid (sp_vcs s))"
    and "\<And>c. length (sent_of s c) + 1 < 2 ^ 64"
  shows "rs_reach (legit (sent_of s)) w' k' r"
  by (rule sys_rs_reach [OF assms(1,2)]) (rule emitted_legit [OF sys_emit_inv [OF assms(1,2)] assms(3,4)])

lemma sys_download:
  assumes "sys k w k' w' s r" and "k' \<le> MAX_PAYLOAD" and "distinct (map vc_cid (rs_vcs r))"
    and "\<And>c. length (replied_of r c) + 1 < 2 ^ 64"
  shows "sp_reach (legit (replied_of r)) k w s"
proof (rule sys_sp_reach [OF assms(1,2)])
  fix f assume "f \<in> set (rs_emitted r)"
  then show "legit (replied_of r) f"
    using sys_rs_emit [OF assms(1,2)] tg.emit_ok_legit assms(3,4) by (simp add: replied_of_def rs_emit_def)
qed

lemma sys_fold_sp:
  "sys k w k' w' s r \<Longrightarrow> list_all (ev_ok (\<lambda>f. f \<in> set (rs_emitted r))) evs \<Longrightarrow> sys k w k' w' (fold sp_exec evs s) r"
proof (induction evs arbitrary: s)
  case (Cons ev evs)
  then have "sys k w k' w' (sp_exec ev s) r" by (elim sys.step) (auto simp: ev_ok_def intro: sys_step.splitter)
  then show ?case using Cons by simp
qed simp

lemma sys_fold_rs:
  "sys k w k' w' s r \<Longrightarrow> list_all (rs_ev_ok (\<lambda>f. f \<in> set (sp_emitted s))) evs \<Longrightarrow> sys k w k' w' s (fold rs_exec evs r)"
proof (induction evs arbitrary: r)
  case (Cons ev evs)
  then have "sys k w k' w' s (rs_exec ev r)" by (elim sys.step) (auto simp: rs_ev_ok_def intro: sys_step.reassembler)
  then show ?case using Cons by simp
qed simp

subsection \<open>A reliable pipe\<close>

text \<open>
  The abstract specification of one direction of one connection: a pipe holds what was put in and
  what came out; bytes are put in at the end, and what comes out next is what was put in next.
\<close>

inductive pipe :: "bytes \<times> bytes \<Rightarrow> bytes \<times> bytes \<Rightarrow> bool" where
  put: "pipe (i, out) (i @ x, out)"
| get: "i = out @ x @ rest \<Longrightarrow> pipe (i, out) (i, out @ x)"

definition upload :: "sp \<Rightarrow> rs \<Rightarrow> nat \<Rightarrow> bytes \<times> bytes" where
  "upload s r a = (concat (sent_of s (vc_cid (rs_vcs r ! a))), vc_sock (rs_vcs r ! a))"

definition download :: "sp \<Rightarrow> rs \<Rightarrow> nat \<Rightarrow> bytes \<times> bytes" where
  "download s r a = (concat (replied_of r (sc_cid (sp_vcs s ! a))), sc_out (sp_vcs s ! a))"

lemma pipe_get:
  assumes "\<exists>rest. i = out' @ rest" and "\<exists>x. out' = out @ x"
  shows "pipe (i, out) (i, out')"
  using assms by (auto intro: pipe.get)

lemma pipe_put: "\<exists>x. i' = i @ x \<Longrightarrow> pipe (concat i, out) (concat i', out)"
  by (auto intro: pipe.put)

lemma upload_pipe:
  assumes "sys k w k' w' s r" and "sys_step s r s' r'" and "k \<le> MAX_PAYLOAD" and "distinct (map sc_cid (sp_vcs s'))"
    and "\<And>c. length (sent_of s' c) + 1 < 2 ^ 64" and "a < length (rs_vcs r)"
  shows "pipe (upload s r a) (upload s' r' a)"
  using assms(2)
proof (cases rule: sys_step.cases)
  case (splitter ev)
  have "sg.grown (sp_vcs s) s'" using sp_exec_grown [OF sg.grown_now] splitter(1) by simp
  then show ?thesis
    using up.sent_by_grows [OF _ assms(4)] splitter(2) by (simp add: upload_def sent_of_def pipe_put)
next
  case (reassembler ev)
  have sys': "sys k w k' w' s' r'" using assms(1,2) by (rule sys.step)
  have e: "a < length (rs_vcs r')" "vc_ext (rs_vcs r ! a) (rs_vcs r' ! a)"
    using rs_exec_extends [OF assms(6)] reassembler(2) by simp_all
  have "\<exists>rest. concat (sent_of s' (vc_cid (rs_vcs r' ! a))) = vc_sock (rs_vcs r' ! a) @ rest"
    by (rule egress_writes_prefix [OF sys_upload [OF sys' assms(3-5)] assms(5) e(1)])
  then show ?thesis using e(2) reassembler(1) by (auto simp: upload_def vc_ext_def intro!: pipe_get)
qed

lemma download_pipe:
  assumes "sys k w k' w' s r" and "sys_step s r s' r'" and "k' \<le> MAX_PAYLOAD" and "distinct (map vc_cid (rs_vcs r'))"
    and "\<And>c. length (replied_of r' c) + 1 < 2 ^ 64" and "a < length (sp_vcs s)"
    and "\<not> sc_is_udp (sp_vcs s' ! a)" and "\<not> sc_rst (sp_vcs s' ! a)"
  shows "pipe (download s r a) (download s' r' a)"
  using assms(2)
proof (cases rule: sys_step.cases)
  case (splitter ev)
  have sys': "sys k w k' w' s' r'" using assms(1,2) by (rule sys.step)
  have e: "a < length (sp_vcs s')" "sc_ext (sp_vcs s ! a) (sp_vcs s' ! a)"
    using sp_exec_extends [OF assms(6)] splitter(1) by simp_all
  have "\<exists>rest. concat (replied_of r' (sc_cid (sp_vcs s' ! a))) = sc_out (sp_vcs s' ! a) @ rest"
    by (rule client_gets_prefix [OF sys_download [OF sys' assms(3-5)] e(1) assms(7,8)])
  then show ?thesis using e(2) splitter(2) by (auto simp: download_def sc_ext_def intro!: pipe_get)
next
  case (reassembler ev)
  have "rg.grown (rs_vcs r) r'" using rs_exec_grown [OF rg.grown_now] reassembler(2) by simp
  then show ?thesis
    using down.sent_by_grows [OF _ assms(4)] reassembler(1) by (simp add: download_def replied_of_def pipe_put)
qed

subsection \<open>A concrete run\<close>

text \<open>
  The run of \<open>SplitterProps\<close> with a real peer: the client's frames reach the reassembler out of
  order, the target gets the two chunks and its write side is closed, it replies with two chunks
  and closes, and the replies reach the splitter out of order.
\<close>

definition demo_target :: "rs_event list" where
  "demo_target =
     [EvAccept 0 0, EvFrame 0 0 0 (frame_data 7 2 [20]), EvFrame 0 1 1 (frame_syn 7 [PROTO_TCP, 0, 1, 0x7A, 0, 80]),
      EvConnect 2 0 ConnOk, EvFrame 0 3 3 (frame_fin 7 3), EvFrame 0 4 4 (frame_data 7 1 [10]),
      EvWriter 0 (WChunk WrWritten), EvWriter 0 (WChunk WrWritten), EvWriter 0 (WHalfClose []),
      EvReader id 5 0 (RData [30] True), EvReader id 6 0 (RData [40] True), EvReader id 7 0 (REof True)]"

definition demo_rs :: rs where
  "demo_rs = fold rs_exec demo_target (rs_init 100 100)"

lemma demo_target_syn:
  "syn_decode [PROTO_TCP, 0, 1, 0x7A, 0, 80] = Inr \<lparr>proto = PROTO_TCP, address = [0x7A], port = 80\<rparr>"
  by (simp add: syn_decode_def from_be_bytes_def from_be_def PROTO_TCP_def)

lemmas demo_run_defs = rs_run_defs accept_link_def reader_step_def note_sent_def pool_add_def new_link_def one_link_burst
  pool_new_def alive_count_def MAX_TUNNEL_LINKS_def TUNNEL_CHANNEL_CAP_def

lemma demo_rs_run:
  "map (\<lambda>v. (vc_cid v, vc_clean v, vc_sock v, vc_is_udp v, vc_sent v, vc_fin_sent v)) (rs_vcs demo_rs)
     = [(7, True, [10, 20], False, [[30], [40]], True)]"
  "rs_emitted demo_rs = [frame_data 7 1 [30], frame_data 7 2 [40], frame_fin 7 3]"
  by (simp_all add: demo_rs_def demo_target_def demo_run_defs demo_target_syn
      demo_target_syn [unfolded PROTO_TCP_def] demo_gap frame_consts)

end
