(* ===== verification/Network.thy ===== *)
theory Network
  imports Queues System
begin

text \<open>
  The two programs with their tunnels.  In \<open>sys\<close> a program may read any frame that the other has
  emitted; here frames travel: a drain task writes the encoded frames of a link's queue to a byte
  stream, the read loop at the other end takes bytes off the stream in pieces of any size, its
  decoder finds the frames, and the program handles them.  Links die, are swept and compacted while
  their tasks still run, and what a drain task left behind is given back to its program.
\<close>

subsection \<open>State and events\<close>

record net =
  nt_sp :: sp
  nt_rs :: rs
  nt_se :: endpoint
  nt_re :: endpoint

definition net_init :: "nat \<Rightarrow> nat \<Rightarrow> nat \<Rightarrow> nat \<Rightarrow> net" where
  "net_init k w k' w' = \<lparr>nt_sp = sp_init k w, nt_rs = rs_init w' k', nt_se = endpoint_init, nt_re = endpoint_init\<rparr>"

datatype net_event =
    NSp sp_event | NSpUp nat u64 real | NSpDown nat | NSpDrain nat drain_move | NSpLost instant nat
  | NSpRecv nat nat | NSpFrame nat instant u64 "bool list"
  | NRs rs_event | NRsUp nat u64 real | NRsDown nat | NRsDrain nat drain_move | NRsLost nat
  | NRsRecv nat nat | NRsFrame nat instant u64

text \<open>The events of the programs that are no business of the tunnels.\<close>

fun sp_local :: "sp_event \<Rightarrow> bool" where
  "sp_local (SvFrame i now ms ds f) = False" | "sp_local (SvUp i ms) = False" | "sp_local (SvDown i) = False"
| "sp_local (SvLost now i fs) = False" | "sp_local (SvPool p) = False" | "sp_local ev = True"

fun rs_local :: "rs_event \<Rightarrow> bool" where
  "rs_local (EvFrame i now ms f) = False" | "rs_local (EvAccept i ms) = False" | "rs_local (EvLinkEnd i) = False"
| "rs_local (EvLost i fs) = False" | "rs_local (EvPool p) = False" | "rs_local ev = True"

definition sp_do :: "sp_event \<Rightarrow> net \<Rightarrow> net" where
  "sp_do ev n = n\<lparr>nt_sp := sp_exec ev (nt_sp n),
     nt_se := detach (sp_pool (nt_sp n)) (sp_pool (sp_exec ev (nt_sp n))) (nt_se n)\<rparr>"

definition rs_do :: "rs_event \<Rightarrow> net \<Rightarrow> net" where
  "rs_do ev n = n\<lparr>nt_rs := rs_exec ev (nt_rs n),
     nt_re := detach (rs_pool (nt_rs n)) (rs_pool (rs_exec ev (nt_rs n))) (nt_re n)\<rparr>"

definition net_exec :: "net_event \<Rightarrow> net \<Rightarrow> net" where
  "net_exec ev n =
     (case ev of
        NSp e \<Rightarrow> if sp_local e then sp_do e n else n
      | NSpUp i ms now \<Rightarrow>
          if thas (en_tasks (nt_se n)) i then n
          else let n1 = sp_do (SvUp i ms) n in n1\<lparr>nt_se := add_task i ms now (nt_se n1)\<rparr>
      | NSpDown i \<Rightarrow>
          if is_reading i (nt_se n)
          then let n1 = sp_do (SvDown i) n in n1\<lparr>nt_se := end_reading i (nt_se n1)\<rparr> else n
      | NSpDrain i m \<Rightarrow>
          let (p, e) = drain_task i m (sp_pool (nt_sp n)) (nt_se n)
          in n\<lparr>nt_sp := sp_exec (SvPool p) (nt_sp n), nt_se := e\<rparr>
      | NSpLost now i \<Rightarrow>
          (case take_lost True i (sp_pool (nt_sp n)) (nt_se n) of
             Some (lost, e) \<Rightarrow> sp_do (SvLost now i lost) (n\<lparr>nt_se := e\<rparr>) | None \<Rightarrow> n)
      | NSpRecv i k \<Rightarrow> n\<lparr>nt_se := recv_bytes i k (wire i (nt_re n)) (nt_se n)\<rparr>
      | NSpFrame i now ms ds \<Rightarrow>
          (case next_frame i (nt_se n) of
             Some (f, e) \<Rightarrow> sp_do (SvFrame i now ms ds f) (n\<lparr>nt_se := e\<rparr>) | None \<Rightarrow> n)
      | NRs e \<Rightarrow> if rs_local e then rs_do e n else n
      | NRsUp i ms now \<Rightarrow>
          if thas (en_tasks (nt_re n)) i \<or> alive_count (rs_pool (nt_rs n)) \<ge> MAX_TUNNEL_LINKS then n
          else let n1 = rs_do (EvAccept i ms) n in n1\<lparr>nt_re := add_task i ms now (nt_re n1)\<rparr>
      | NRsDown i \<Rightarrow>
          if is_reading i (nt_re n)
          then let n1 = rs_do (EvLinkEnd i) n in n1\<lparr>nt_re := end_reading i (nt_re n1)\<rparr> else n
      | NRsDrain i m \<Rightarrow>
          let (p, e) = drain_task i m (rs_pool (nt_rs n)) (nt_re n)
          in n\<lparr>nt_rs := rs_exec (EvPool p) (nt_rs n), nt_re := e\<rparr>
      | NRsLost i \<Rightarrow>
          (case take_lost False i (rs_pool (nt_rs n)) (nt_re n) of
             Some (lost, e) \<Rightarrow> rs_do (EvLost i lost) (n\<lparr>nt_re := e\<rparr>) | None \<Rightarrow> n)
      | NRsRecv i k \<Rightarrow> n\<lparr>nt_re := recv_bytes i k (wire i (nt_se n)) (nt_re n)\<rparr>
      | NRsFrame i now ms \<Rightarrow>
          (case next_frame i (nt_re n) of
             Some (f, e) \<Rightarrow> rs_do (EvFrame i now ms f) (n\<lparr>nt_re := e\<rparr>) | None \<Rightarrow> n))"

subsection \<open>The invariant\<close>

definition net_inv :: "nat \<Rightarrow> nat \<Rightarrow> nat \<Rightarrow> nat \<Rightarrow> net \<Rightarrow> bool" where
  "net_inv k w k' w' n \<longleftrightarrow> sys k w k' w' (nt_sp n) (nt_rs n)
     \<and> end_ok (set (sp_emitted (nt_sp n))) (sp_pool (nt_sp n)) (nt_se n)
     \<and> end_ok (set (rs_emitted (nt_rs n))) (rs_pool (nt_rs n)) (nt_re n)
     \<and> read_ok (\<lambda>i. wire i (nt_re n)) (nt_se n) \<and> read_ok (\<lambda>i. wire i (nt_se n)) (nt_re n)"

text \<open>A step of the network is a step of the joint system, or does not touch the programs.\<close>

definition sys_or_same :: "net \<Rightarrow> net \<Rightarrow> bool" where
  "sys_or_same n n' \<longleftrightarrow> sys_step (nt_sp n) (nt_rs n) (nt_sp n') (nt_rs n')
     \<or> nt_sp n' = nt_sp n \<and> nt_rs n' = nt_rs n"

lemma sp_do_inv:
  assumes inv: "net_inv k w k' w' n" and k: "k \<le> MAX_PAYLOAD" and fine: "sp_fine ev (nt_sp n)"
    and fr: "\<And>i now ms d f. ev = SvFrame i now ms d f \<Longrightarrow> f \<in> set (rs_emitted (nt_rs n))"
  shows "net_inv k w k' w' (sp_do ev n) \<and> sys_or_same n (sp_do ev n)"
proof -
  have s: "sys k w k' w' (nt_sp n) (nt_rs n)" using inv by (simp add: net_inv_def)
  have step: "sys_step (nt_sp n) (nt_rs n) (sp_exec ev (nt_sp n)) (nt_rs n)"
    by (rule sys_step.splitter) (use fr fine in \<open>auto simp: sp_fine_def\<close>)
  show ?thesis
    using sys.step [OF s step] step su.exec_end_ok [OF sys_emit_inv [OF s k] fine] inv
    by (simp add: net_inv_def sp_do_def sys_or_same_def)
qed

lemma rs_do_inv:
  assumes inv: "net_inv k w k' w' n" and k: "k' \<le> MAX_PAYLOAD" and fine: "rs_fine ev (nt_rs n)"
    and fr: "\<And>i now ms f. ev = EvFrame i now ms f \<Longrightarrow> f \<in> set (sp_emitted (nt_sp n))"
  shows "net_inv k w k' w' (rs_do ev n) \<and> sys_or_same n (rs_do ev n)"
proof -
  have s: "sys k w k' w' (nt_sp n) (nt_rs n)" using inv by (simp add: net_inv_def)
  have step: "sys_step (nt_sp n) (nt_rs n) (nt_sp n) (rs_exec ev (nt_rs n))"
    by (rule sys_step.reassembler) (use fr fine in \<open>auto simp: rs_fine_def\<close>)
  show ?thesis
    using sys.step [OF s step] step ru.exec_end_ok [OF sys_rs_emit [OF s k] fine] inv
    by (simp add: net_inv_def rs_do_def sys_or_same_def)
qed

text \<open>A change of the tasks of one end.\<close>

lemma net_inv_se:
  assumes "net_inv k w k' w' n" and "end_ok (set (sp_emitted (nt_sp n))) (sp_pool (nt_sp n)) e"
    and "read_ok (\<lambda>i. wire i (nt_re n)) e" and "wires_grow (nt_se n) e"
  shows "net_inv k w k' w' (n\<lparr>nt_se := e\<rparr>)"
  using assms read_ok_grow [of "nt_se n" "nt_re n" e] by (simp add: net_inv_def)

lemma net_inv_re:
  assumes "net_inv k w k' w' n" and "end_ok (set (rs_emitted (nt_rs n))) (rs_pool (nt_rs n)) e"
    and "read_ok (\<lambda>i. wire i (nt_se n)) e" and "wires_grow (nt_re n) e"
  shows "net_inv k w k' w' (n\<lparr>nt_re := e\<rparr>)"
  using assms read_ok_grow [of "nt_re n" "nt_se n" e] by (simp add: net_inv_def)

lemma sys_or_same_tasks [simp]:
  "sys_or_same n (n'\<lparr>nt_se := e\<rparr>) = sys_or_same n n'" "sys_or_same n (n'\<lparr>nt_re := e\<rparr>) = sys_or_same n n'"
  "sys_or_same (n\<lparr>nt_se := e\<rparr>) n' = sys_or_same n n'" "sys_or_same (n\<lparr>nt_re := e\<rparr>) n' = sys_or_same n n'"
  "sys_or_same n n"
  by (simp_all add: sys_or_same_def)

lemma net_inv_parts:
  assumes "net_inv k w k' w' n"
  shows "end_ok (set (sp_emitted (nt_sp n))) (sp_pool (nt_sp n)) (nt_se n)"
    and "end_ok (set (rs_emitted (nt_rs n))) (rs_pool (nt_rs n)) (nt_re n)"
    and "read_ok (\<lambda>i. wire i (nt_re n)) (nt_se n)" and "read_ok (\<lambda>i. wire i (nt_se n)) (nt_re n)"
  using assms by (simp_all add: net_inv_def)

lemma sp_do_re [simp]: "nt_re (sp_do ev n) = nt_re n" "en_tasks (nt_se (sp_do ev n)) = en_tasks (nt_se n)"
  by (simp_all add: sp_do_def)

lemma rs_do_se [simp]: "nt_se (rs_do ev n) = nt_se n" "en_tasks (nt_re (rs_do ev n)) = en_tasks (nt_re n)"
  by (simp_all add: rs_do_def)

lemma local_fine: "sp_local e \<Longrightarrow> sp_fine e s" "rs_local e' \<Longrightarrow> rs_fine e' r"
  by (auto simp: sp_fine_def rs_fine_def)

lemma sp_tasks_inv:
  assumes inv: "net_inv k w k' w' n" and k: "k \<le> MAX_PAYLOAD"
  shows "\<not> thas (en_tasks (nt_se n)) i \<Longrightarrow> net_inv k w k' w' (net_exec (NSpUp i ms now) n) \<and> sys_or_same n (net_exec (NSpUp i ms now) n)"
    and "net_inv k w k' w' (net_exec (NSpDown i) n) \<and> sys_or_same n (net_exec (NSpDown i) n)"
    and "net_inv k w k' w' (net_exec (NSpRecv i m) n) \<and> sys_or_same n (net_exec (NSpRecv i m) n)"
proof -
  assume f: "\<not> thas (en_tasks (nt_se n)) i"
  let ?n = "sp_do (SvUp i ms) n"
  have n: "net_inv k w k' w' ?n" "sys_or_same n ?n" using sp_do_inv [OF inv k, of "SvUp i ms"] by (auto simp: sp_fine_def)
  note p = net_inv_parts [OF n(1)]
  have "net_inv k w k' w' (?n\<lparr>nt_se := add_task i ms now (nt_se ?n)\<rparr>)"
    using p f by (intro net_inv_se [OF n(1)] add_task_ok add_task_read) simp_all
  then show "net_inv k w k' w' (net_exec (NSpUp i ms now) n) \<and> sys_or_same n (net_exec (NSpUp i ms now) n)"
    using n(2) f by (simp add: net_exec_def Let_def)
next
  let ?n = "sp_do (SvDown i) n"
  have n: "net_inv k w k' w' ?n" "sys_or_same n ?n" using sp_do_inv [OF inv k, of "SvDown i"] by (auto simp: sp_fine_def)
  note p = net_inv_parts [OF n(1)]
  have "net_inv k w k' w' (?n\<lparr>nt_se := end_reading i (nt_se ?n)\<rparr>)"
    using end_reading_ok [OF p(1,3), of i] by (intro net_inv_se [OF n(1)]) simp_all
  then show "net_inv k w k' w' (net_exec (NSpDown i) n) \<and> sys_or_same n (net_exec (NSpDown i) n)"
    using n(2) inv by (simp add: net_exec_def Let_def)
next
  show "net_inv k w k' w' (net_exec (NSpRecv i m) n) \<and> sys_or_same n (net_exec (NSpRecv i m) n)"
    using recv_bytes_ok [OF net_inv_parts(1,3) [OF inv], of i m] net_inv_se [OF inv] by (simp add: net_exec_def)
qed

lemma rs_tasks_inv:
  assumes inv: "net_inv k w k' w' n" and k: "k' \<le> MAX_PAYLOAD"
  shows "\<not> thas (en_tasks (nt_re n)) i \<Longrightarrow> net_inv k w k' w' (net_exec (NRsUp i ms now) n) \<and> sys_or_same n (net_exec (NRsUp i ms now) n)"
    and "net_inv k w k' w' (net_exec (NRsDown i) n) \<and> sys_or_same n (net_exec (NRsDown i) n)"
    and "net_inv k w k' w' (net_exec (NRsRecv i m) n) \<and> sys_or_same n (net_exec (NRsRecv i m) n)"
proof -
  assume f: "\<not> thas (en_tasks (nt_re n)) i"
  let ?n = "rs_do (EvAccept i ms) n"
  have n: "net_inv k w k' w' ?n" "sys_or_same n ?n" using rs_do_inv [OF inv k, of "EvAccept i ms"] by (auto simp: rs_fine_def)
  note p = net_inv_parts [OF n(1)]
  have "net_inv k w k' w' (?n\<lparr>nt_re := add_task i ms now (nt_re ?n)\<rparr>)"
    using p f by (intro net_inv_re [OF n(1)] add_task_ok add_task_read) simp_all
  then show "net_inv k w k' w' (net_exec (NRsUp i ms now) n) \<and> sys_or_same n (net_exec (NRsUp i ms now) n)"
    using n(2) f inv by (simp add: net_exec_def Let_def)
next
  let ?n = "rs_do (EvLinkEnd i) n"
  have n: "net_inv k w k' w' ?n" "sys_or_same n ?n" using rs_do_inv [OF inv k, of "EvLinkEnd i"] by (auto simp: rs_fine_def)
  note p = net_inv_parts [OF n(1)]
  have "net_inv k w k' w' (?n\<lparr>nt_re := end_reading i (nt_re ?n)\<rparr>)"
    using end_reading_ok [OF p(2,4), of i] by (intro net_inv_re [OF n(1)]) simp_all
  then show "net_inv k w k' w' (net_exec (NRsDown i) n) \<and> sys_or_same n (net_exec (NRsDown i) n)"
    using n(2) inv by (simp add: net_exec_def Let_def)
next
  show "net_inv k w k' w' (net_exec (NRsRecv i m) n) \<and> sys_or_same n (net_exec (NRsRecv i m) n)"
    using recv_bytes_ok [OF net_inv_parts(2,4) [OF inv], of i m] net_inv_re [OF inv] by (simp add: net_exec_def)
qed

lemma drains_inv:
  assumes inv: "net_inv k w k' w' n"
  shows "net_inv k w k' w' (net_exec (NSpDrain i m) n) \<and> sys_or_same n (net_exec (NSpDrain i m) n)"
    and "net_inv k w k' w' (net_exec (NRsDrain i m) n) \<and> sys_or_same n (net_exec (NRsDrain i m) n)"
proof -
  have s: "sys k w k' w' (nt_sp n) (nt_rs n)" using inv by (simp add: net_inv_def)
  note p = net_inv_parts [OF inv]
  {
    obtain q e where d: "drain_task i m (sp_pool (nt_sp n)) (nt_se n) = (q, e)" by force
    have st: "sys_step (nt_sp n) (nt_rs n) (sp_exec (SvPool q) (nt_sp n)) (nt_rs n)"
      by (rule sys_step.splitter) simp_all
    have e: "end_ok (set (sp_emitted (nt_sp n))) q e" "read_ok (\<lambda>i. wire i (nt_re n)) e" "wires_grow (nt_se n) e"
      using drain_task_ok [OF d p(1), of "\<lambda>i. wire i (nt_re n)"] p(3) by auto
    show "net_inv k w k' w' (net_exec (NSpDrain i m) n) \<and> sys_or_same n (net_exec (NSpDrain i m) n)"
      using d st e sys.step [OF s st] p read_ok_grow [OF p(4) e(3)]
      by (simp add: net_exec_def net_inv_def sys_or_same_def sp_exec_def)
  next
    obtain q e where d: "drain_task i m (rs_pool (nt_rs n)) (nt_re n) = (q, e)" by force
    have st: "sys_step (nt_sp n) (nt_rs n) (nt_sp n) (rs_exec (EvPool q) (nt_rs n))"
      by (rule sys_step.reassembler) simp_all
    have e: "end_ok (set (rs_emitted (nt_rs n))) q e" "read_ok (\<lambda>i. wire i (nt_se n)) e" "wires_grow (nt_re n) e"
      using drain_task_ok [OF d p(2), of "\<lambda>i. wire i (nt_se n)"] p(4) by auto
    show "net_inv k w k' w' (net_exec (NRsDrain i m) n) \<and> sys_or_same n (net_exec (NRsDrain i m) n)"
      using d st e sys.step [OF s st] p read_ok_grow [OF p(3) e(3)]
      by (simp add: net_exec_def net_inv_def sys_or_same_def rs_exec_def)
  }
qed

lemma lost_inv:
  assumes inv: "net_inv k w k' w' n" and k: "k \<le> MAX_PAYLOAD" "k' \<le> MAX_PAYLOAD"
  shows "net_inv k w k' w' (net_exec (NSpLost now i) n) \<and> sys_or_same n (net_exec (NSpLost now i) n)"
    and "net_inv k w k' w' (net_exec (NRsLost i) n) \<and> sys_or_same n (net_exec (NRsLost i) n)"
proof -
  note p = net_inv_parts [OF inv]
  show "net_inv k w k' w' (net_exec (NSpLost now i) n) \<and> sys_or_same n (net_exec (NSpLost now i) n)"
  proof (cases "take_lost True i (sp_pool (nt_sp n)) (nt_se n)")
    case (Some x)
    then obtain l e where l: "take_lost True i (sp_pool (nt_sp n)) (nt_se n) = Some (l, e)" by (cases x) simp
    note t = take_lost_ok [OF l p(1), of "\<lambda>i. wire i (nt_re n)"]
    have n: "net_inv k w k' w' (n\<lparr>nt_se := e\<rparr>)" using t p(3) by (intro net_inv_se [OF inv]) auto
    show ?thesis using sp_do_inv [OF n k(1), of "SvLost now i l"] t l by (simp add: net_exec_def sp_fine_def)
  qed (simp add: net_exec_def inv)
  show "net_inv k w k' w' (net_exec (NRsLost i) n) \<and> sys_or_same n (net_exec (NRsLost i) n)"
  proof (cases "take_lost False i (rs_pool (nt_rs n)) (nt_re n)")
    case (Some x)
    then obtain l e where l: "take_lost False i (rs_pool (nt_rs n)) (nt_re n) = Some (l, e)" by (cases x) simp
    note t = take_lost_ok [OF l p(2), of "\<lambda>i. wire i (nt_se n)"]
    have n: "net_inv k w k' w' (n\<lparr>nt_re := e\<rparr>)" using t p(4) by (intro net_inv_re [OF inv]) auto
    show ?thesis using rs_do_inv [OF n k(2), of "EvLost i l"] t l by (simp add: net_exec_def rs_fine_def)
  qed (simp add: net_exec_def inv)
qed

lemma frame_inv:
  assumes inv: "net_inv k w k' w' n" and k: "k \<le> MAX_PAYLOAD" "k' \<le> MAX_PAYLOAD"
  shows "net_inv k w k' w' (net_exec (NSpFrame i now ms ds) n) \<and> sys_or_same n (net_exec (NSpFrame i now ms ds) n)"
    and "net_inv k w k' w' (net_exec (NRsFrame i now ms) n) \<and> sys_or_same n (net_exec (NRsFrame i now ms) n)"
proof -
  note p = net_inv_parts [OF inv]
  show "net_inv k w k' w' (net_exec (NSpFrame i now ms ds) n) \<and> sys_or_same n (net_exec (NSpFrame i now ms ds) n)"
  proof (cases "next_frame i (nt_se n)")
    case (Some x)
    then obtain f e where f: "next_frame i (nt_se n) = Some (f, e)" by (cases x) simp
    note t = next_frame_ok [OF f p(1,3,2)]
    have n: "net_inv k w k' w' (n\<lparr>nt_se := e\<rparr>)" using t by (intro net_inv_se [OF inv]) auto
    show ?thesis using sp_do_inv [OF n k(1), of "SvFrame i now ms ds f"] t f by (simp add: net_exec_def sp_fine_def)
  qed (simp add: net_exec_def inv)
  show "net_inv k w k' w' (net_exec (NRsFrame i now ms) n) \<and> sys_or_same n (net_exec (NRsFrame i now ms) n)"
  proof (cases "next_frame i (nt_re n)")
    case (Some x)
    then obtain f e where f: "next_frame i (nt_re n) = Some (f, e)" by (cases x) simp
    note t = next_frame_ok [OF f p(2,4,1)]
    have n: "net_inv k w k' w' (n\<lparr>nt_re := e\<rparr>)" using t by (intro net_inv_re [OF inv]) auto
    show ?thesis using rs_do_inv [OF n k(2), of "EvFrame i now ms f"] t f by (simp add: net_exec_def rs_fine_def)
  qed (simp add: net_exec_def inv)
qed

lemma net_exec_inv:
  assumes inv: "net_inv k w k' w' n" and k: "k \<le> MAX_PAYLOAD" "k' \<le> MAX_PAYLOAD"
  shows "net_inv k w k' w' (net_exec ev n) \<and> sys_or_same n (net_exec ev n)"
proof (cases ev)
  case (NSp e)
  have "net_inv k w k' w' (sp_do e n) \<and> sys_or_same n (sp_do e n)" if "sp_local e"
    by (rule sp_do_inv [OF inv k(1) local_fine(1)]) (use that in auto)
  then show ?thesis using NSp inv by (simp add: net_exec_def)
next
  case (NRs e)
  have "net_inv k w k' w' (rs_do e n) \<and> sys_or_same n (rs_do e n)" if "rs_local e"
    by (rule rs_do_inv [OF inv k(2) local_fine(2)]) (use that in auto)
  then show ?thesis using NRs inv by (simp add: net_exec_def)
next
  case (NSpUp i ms now)
  then show ?thesis using sp_tasks_inv(1) [OF inv k(1)] inv by (cases "thas (en_tasks (nt_se n)) i") (auto simp: net_exec_def)
next
  case (NRsUp i ms now)
  then show ?thesis using rs_tasks_inv(1) [OF inv k(2)] inv by (cases "thas (en_tasks (nt_re n)) i") (auto simp: net_exec_def)
qed (use sp_tasks_inv(2,3) [OF inv k(1)] rs_tasks_inv(2,3) [OF inv k(2)] drains_inv [OF inv] lost_inv [OF inv k] frame_inv [OF inv k]
      in simp_all)

lemma net_init_inv: "net_inv k w k' w' (net_init k w k' w')"
proof -
  have "pl_links (sp_pool (sp_init k w)) = []" "pl_links (rs_pool (rs_init w' k')) = []"
    by (simp_all add: sp_init_def rs_init_def pool_new_def)
  then show ?thesis by (simp add: net_inv_def net_init_def sys.boot end_ok_def read_ok_def endpoint_init_def holds_def)
qed

lemma net_run_inv:
  "net_inv k w k' w' n \<Longrightarrow> k \<le> MAX_PAYLOAD \<Longrightarrow> k' \<le> MAX_PAYLOAD \<Longrightarrow> net_inv k w k' w' (fold net_exec evs n)"
  by (induction evs arbitrary: n) (simp_all add: net_exec_inv)

lemma net_inv_run: "k \<le> MAX_PAYLOAD \<Longrightarrow> k' \<le> MAX_PAYLOAD \<Longrightarrow> net_inv k w k' w' (fold net_exec evs (net_init k w k' w'))"
  by (rule net_run_inv [OF net_init_inv])

subsection \<open>Frames across a tunnel\<close>

text \<open>
  Tunnel \<open>i\<close> towards the reassembler works and is at rest: the drain task of the splitter runs with the
  frames \<open>q\<close> in the queue of its link, and the read loop has handled all that was written.
\<close>

definition carrying :: "nat \<Rightarrow> frame list \<Rightarrow> net \<Rightarrow> bool" where
  "carrying i q n \<longleftrightarrow>
     (case (tget (en_tasks (nt_se n)) i, find_link i (sp_pool (nt_sp n)) (nt_se n), tget (en_tasks (nt_re n)) i) of
        (Some t, Some l, Some u) \<Rightarrow>
          tk_stage t = Draining \<and> \<not> dr_dead (tk_drain t) \<and> ch_queue (lk_chan l) = q
          \<and> tk_reading u \<and> tk_buf u = [] \<and> tk_got u = length (wire i (nt_se n))
      | _ \<Rightarrow> False)"

text \<open>One write, one read and one return of the decoder.\<close>

definition fetch :: "nat \<Rightarrow> nat \<Rightarrow> u64 \<times> real \<times> instant \<times> u64 \<Rightarrow> net_event list" where
  "fetch i m t =
     (case t of (sent_ms, sent, now, ms) \<Rightarrow>
        [NSpDrain i (DStep (DrFrame (WrOk sent_ms sent))), NRsRecv i m, NRsFrame i now ms])"

definition frame_event :: "nat \<Rightarrow> u64 \<times> real \<times> instant \<times> u64 \<Rightarrow> frame \<Rightarrow> rs_event" where
  "frame_event i t f = (case t of (sent_ms, sent, now, ms) \<Rightarrow> EvFrame i now ms f)"

lemma find_link_set:
  "find_link i p e = Some l \<Longrightarrow> lk_id l' = i \<Longrightarrow> find_link i (upd_link i (\<lambda>_. l') p) (upd_off i (\<lambda>_. l') e) = Some l'"
proof -
  have "find (\<lambda>l. lk_id l = i) (map (\<lambda>l. if lk_id l = i then l' else l) ls) = Some l'"
    if "find (\<lambda>l. lk_id l = i) ls = Some l" "lk_id l' = i" for ls
    using that by (induction ls) (auto split: if_splits)
  then show "find_link i p e = Some l \<Longrightarrow> lk_id l' = i \<Longrightarrow> find_link i (upd_link i (\<lambda>_. l') p) (upd_off i (\<lambda>_. l') e) = Some l'"
    by (simp add: find_link_def upd_link_def upd_off_def flip: map_append)
qed

lemma find_link_id: "find_link i p e = Some l \<Longrightarrow> lk_id l = i"
  by (auto simp: find_link_def find_Some_iff)

lemma find_link_tasks [simp]: "find_link i p (e\<lparr>en_tasks := x\<rparr>) = find_link i p e"
  by (simp add: find_link_def)

lemma drain_one:
  assumes "tget (en_tasks e) i = Some t" and "tk_stage t = Draining" and "\<not> dr_dead (tk_drain t)"
    and "find_link i p e = Some l" and "ch_queue (lk_chan l) = f # q" and "encode f = Inr w"
    and "drain_task i (DStep (DrFrame (WrOk ms now))) p e = (p', e')"
  shows "wire i e' = wire i e @ w"
    and "\<exists>t' l'. tget (en_tasks e') i = Some t' \<and> tk_stage t' = Draining \<and> \<not> dr_dead (tk_drain t')
      \<and> find_link i p' e' = Some l' \<and> ch_queue (lk_chan l') = q"
proof -
  define d where "d = drain_frame (WrOk ms now) ((tk_drain t)\<lparr>dr_link := l\<rparr>)"
  have d: "dr_wire d = dr_wire (tk_drain t) @ w" "\<not> dr_dead d" "ch_queue (lk_chan (dr_link d)) = q" "lk_id (dr_link d) = i"
    using assms(3,5,6) find_link_id [OF assms(4)]
    by (simp_all add: d_def drain_frame_def try_recv_def encode_def [symmetric] wrote_frame_def Let_def)
  have eq: "p' = upd_link i (\<lambda>_. dr_link d) p"
    "e' = upd_off i (\<lambda>_. dr_link d) (e\<lparr>en_tasks := tins i (t\<lparr>tk_drain := d, tk_stage := Draining\<rparr>) (en_tasks e)\<rparr>)"
    using assms by (simp_all add: drain_task_def drain_step_def d_def Let_def)
  show "wire i e' = wire i e @ w" using assms(1) d(1) by (simp add: eq(2) wire_def table_simps)
  show "\<exists>t' l'. tget (en_tasks e') i = Some t' \<and> tk_stage t' = Draining \<and> \<not> dr_dead (tk_drain t')
      \<and> find_link i p' e' = Some l' \<and> ch_queue (lk_chan l') = q"
    using d find_link_set [of i p "e\<lparr>en_tasks := tins i (t\<lparr>tk_drain := d, tk_stage := Draining\<rparr>) (en_tasks e)\<rparr>" l "dr_link d"] assms(4)
    by (simp add: eq table_simps)
qed

lemma carry_one:
  assumes "carrying i (f # q) n" and "encode f = Inr w" and "length w \<le> m"
  shows "nt_rs (fold net_exec (fetch i m tm) n) = rs_exec (frame_event i tm f) (nt_rs n)"
    and "carrying i q (fold net_exec (fetch i m tm) n)"
proof -
  obtain sms st now ms where tm: "tm = (sms, st, now, ms)" by (metis prod_cases4)
  from assms(1) obtain t l u where c: "tget (en_tasks (nt_se n)) i = Some t" "find_link i (sp_pool (nt_sp n)) (nt_se n) = Some l"
    "tget (en_tasks (nt_re n)) i = Some u" "tk_stage t = Draining" "\<not> dr_dead (tk_drain t)" "ch_queue (lk_chan l) = f # q"
    "tk_reading u" "tk_buf u = []" "tk_got u = length (wire i (nt_se n))"
    by (auto simp: carrying_def split: option.splits)
  obtain p e where d: "drain_task i (DStep (DrFrame (WrOk sms st))) (sp_pool (nt_sp n)) (nt_se n) = (p, e)" by force
  note one = drain_one [OF c(1,4,5,2,6) assms(2) d]
  have empty: "parse_buffered [] = Inr None" "MAX_DECODER_BUF \<noteq> 0"
    by (simp_all add: parse_buffered_def frame_consts MAX_DECODER_BUF_def)
  have w: "parse_buffered w = Inr (Some (f, []))" using parse_encoded [OF assms(2), of "[]"] by simp
  show "nt_rs (fold net_exec (fetch i m tm) n) = rs_exec (frame_event i tm f) (nt_rs n)"
    using c d one(1) empty w assms(3)
    by (simp add: fetch_def frame_event_def tm net_exec_def recv_bytes_def next_frame_def rs_do_def table_simps Let_def)
  show "carrying i q (fold net_exec (fetch i m tm) n)"
    using c d one empty w assms(3)
    by (auto simp: fetch_def tm net_exec_def recv_bytes_def next_frame_def rs_do_def table_simps Let_def carrying_def sp_exec_def)
qed

text \<open>A tunnel 0 whose splitter end has an RST frame queued.\<close>

definition carry_demo :: net where
  "carry_demo = \<lparr>nt_sp = (sp_init 100 1000)\<lparr>sp_pool := snd (pool_send (frame_rst 9) (pool_add pool_new (new_link 0 0)))\<rparr>,
     nt_rs = rs_init 1000 100, nt_se = add_task 0 0 0 endpoint_init, nt_re = add_task 0 0 0 endpoint_init\<rparr>"

lemma carry_demo_link:
  "find_link 0 (sp_pool (nt_sp carry_demo)) (nt_se carry_demo)
     = Some ((new_link 0 0)\<lparr>lk_chan := (new_chan TUNNEL_CHANNEL_CAP)\<lparr>ch_queue := [frame_rst 9]\<rparr>\<rparr>)"
  by (simp add: carry_demo_def find_link_def pool_send_def pool_add_def pool_new_def new_link_def new_chan_def
      send_from.simps try_send_def TUNNEL_CHANNEL_CAP_def add_task_def endpoint_init_def Let_def)

text \<open>A client connects and its SYN crosses tunnel 0.\<close>

definition syn_demo :: net where
  "syn_demo = fold net_exec ([NSpUp 0 0 0, NRsUp 0 0 0, NSp SvAccept, NSp SvBegin,
     NSp (SvAccepted 0 [7] (Some (Connect \<lparr>ta_address = [0x7A], ta_port = 80\<rparr>, [5])))] @ fetch 0 100 (1, 1, 2, 2))
     (net_init 100 1000 100 1000)"

lemma syn_demo_encode:
  "encode_into (frame_syn 7 [PROTO_TCP, 0, 1, 0x7A, 0, 80]) [] = Inr ([0, 0, 0, 7, 0, 0, 0, 0, 0, 0, 0, 0, 1, 0, 6, PROTO_TCP, 0, 1, 0x7A, 0, 80])"
  using encode_Inr_iff [of "frame_syn 7 [PROTO_TCP, 0, 1, 0x7A, 0, 80]"]
  by (simp add: encode_def frame_syn_def frame_consts flag_defs put_u32_def put_u64_def put_u16_def to_be_numeral)

lemma syn_demo_parse:
  "parse_buffered [0, 0, 0, 7, 0, 0, 0, 0, 0, 0, 0, 0, 1, 0, 6, PROTO_TCP, 0, 1, 0x7A, 0, 80]
     = Inr (Some (frame_syn 7 [PROTO_TCP, 0, 1, 0x7A, 0, 80], []))"
  using parse_encoded [of "frame_syn 7 [PROTO_TCP, 0, 1, 0x7A, 0, 80]" _ "[]"] syn_demo_encode by (simp add: encode_def)

lemma syn_demo_run:
  "map_option (\<lambda>t. (dr_written (tk_drain t), dr_dead (tk_drain t))) (tget (en_tasks (nt_se syn_demo)) 0) = Some ([frame_syn 7 [PROTO_TCP, 0, 1, 0x7A, 0, 80]], False)"
  "map_option tk_read (tget (en_tasks (nt_re syn_demo)) 0) = Some [frame_syn 7 [PROTO_TCP, 0, 1, 0x7A, 0, 80]]"
  by (simp_all add: syn_demo_def fetch_def net_init_def net_exec_def sp_do_def rs_do_def sp_run_defs demo_syn
      thas_def add_task_def endpoint_init_def new_task_def drain_init_def detach_def drain_task_def find_link_def drain_step_def drain_frame_def
      syn_demo_encode wrote_frame_def upd_off_def recv_bytes_def wire_def next_frame_def syn_demo_parse
      rs_init_def alive_count_def MAX_TUNNEL_LINKS_def rs_exec_def accept_link_def table_simps
      parse_buffered_def [of "[]"] HEADER_LEN_def MAX_DECODER_BUF_def)

subsection \<open>Properties\<close>

text \<open>
  C7. The tunnels implement the channel that the joint system assumes.  In every run of the two programs
  with their drain tasks, byte streams and decoders, the states of the programs are states of the
  joint system \<open>sys\<close>, and each event of the network is one step of it or leaves both programs alone:
  a frame that a read loop returns was emitted by the other program, and a frame reported as lost
  by its own.  So every theorem about \<open>sys\<close> holds of the network.
\<close>

theorem network_refines_sys:
  assumes "k \<le> MAX_PAYLOAD" and "k' \<le> MAX_PAYLOAD"
  shows "sys k w k' w' (nt_sp (fold net_exec evs (net_init k w k' w'))) (nt_rs (fold net_exec evs (net_init k w k' w')))
    \<and> sys_or_same (fold net_exec evs (net_init k w k' w')) (net_exec ev (fold net_exec evs (net_init k w k' w')))"
  using net_exec_inv [OF net_inv_run [OF assms] assms] net_inv_run [OF assms] by (simp add: net_inv_def)

theorem network_refines_sys_witness: "sys 100 1000 100 1000 (nt_sp syn_demo) (nt_rs syn_demo)"
  unfolding syn_demo_def by (rule conjunct1 [OF network_refines_sys]) (simp_all add: MAX_PAYLOAD_def)

text \<open>
  C8. A queue crosses a tunnel.  When the drain task of a tunnel works through the queue of its link and the
  read loop at the other end keeps up, the reassembler handles exactly the frames of the queue, in
  order and each once, at the cost of one write, one read and one return of the decoder for each.
\<close>

theorem network_carries_queue:
  assumes "carrying i (fs @ q) n" and "map encode fs = map Inr ws" and "\<forall>w \<in> set ws. length w \<le> m"
    and "length tms = length fs"
  shows "nt_rs (fold net_exec (concat (map (fetch i m) tms)) n) = fold rs_exec (map2 (frame_event i) tms fs) (nt_rs n)
    \<and> carrying i q (fold net_exec (concat (map (fetch i m) tms)) n)"
  using assms(4,1-3)
proof (induction tms fs arbitrary: n ws rule: list_induct2)
  case (Cons tm tms f fs)
  then obtain w ws' where w: "encode f = Inr w" "map encode fs = map Inr ws'" "length w \<le> m" "\<forall>w \<in> set ws'. length w \<le> m"
    by (cases ws) auto
  have c: "carrying i (f # fs @ q) n" using Cons.prems(1) by simp
  from carry_one [OF c w(1,3), of tm] Cons.IH [OF _ w(2,4), of "fold net_exec (fetch i m tm) n"]
  show ?case by simp
qed simp

theorem network_carries_queue_witness:
  "nt_rs (fold net_exec (fetch 0 15 (1, 1, 2, 2)) carry_demo) = rs_exec (EvFrame 0 2 2 (frame_rst 9)) (rs_init 1000 100)"
proof -
  have e: "encode (frame_rst 9) = Inr [0, 0, 0, 9, 0, 0, 0, 0, 0, 0, 0, 0, 8, 0, 0]"
    by (simp add: encode_Inr_iff frame_rst_def frame_consts flag_defs put_u32_def put_u64_def put_u16_def to_be_numeral)
  have "carrying 0 ([frame_rst 9] @ []) carry_demo"
    unfolding carrying_def carry_demo_link
    by (simp add: carry_demo_def add_task_def endpoint_init_def table_simps wire_def new_task_def drain_init_def)
  from network_carries_queue [OF this, of "[[0, 0, 0, 9, 0, 0, 0, 0, 0, 0, 0, 0, 8, 0, 0]]" 15 "[(1, 1, 2, 2)]"]
  show ?thesis using e by (simp add: frame_event_def) (simp add: carry_demo_def)
qed

text \<open>
  C9. A tunnel is a queue.  In every run of the network, the frames that a read loop of the reassembler has
  returned are the first frames that the drain task at the splitter's end of the same tunnel has written, in
  order, each once; only after the drain task died may they contain one more, the frame whose write it gave up,
  and that frame was emitted too.
\<close>

theorem network_tunnel_fifo:
  assumes "k \<le> MAX_PAYLOAD" and "k' \<le> MAX_PAYLOAD" and "n = fold net_exec evs (net_init k w k' w')"
    and "tget (en_tasks (nt_se n)) i = Some t" and "tget (en_tasks (nt_re n)) i = Some u"
  shows "(\<exists>more. dr_written (tk_drain t) = tk_read u @ more)
    \<or> dr_dead (tk_drain t) \<and> (\<exists>f \<in> set (sp_emitted (nt_sp n)). tk_read u = dr_written (tk_drain t) @ [f])"
proof -
  have inv: "net_inv k w k' w' n" unfolding assms(3) by (rule net_inv_run [OF assms(1,2)])
  then have wire: "wire_ok (set (sp_emitted (nt_sp n))) (tk_drain t)" and read: "read_task (wire i (nt_se n)) u"
    using assms(4,5) by (auto simp: net_inv_def end_ok_def read_ok_def)
  obtain ws rest where "map encode (tk_read u) = map Inr ws" "dr_wire (tk_drain t) = concat ws @ rest"
    using read_task_prefix [OF read] assms(4) by (auto simp: wire_def)
  from wire_prefix [OF wire this] show ?thesis .
qed

theorem network_tunnel_fifo_witness:
  "\<exists>t u more. tget (en_tasks (nt_se syn_demo)) 0 = Some t \<and> tget (en_tasks (nt_re syn_demo)) 0 = Some u
     \<and> tk_read u = [frame_syn 7 [PROTO_TCP, 0, 1, 0x7A, 0, 80]] \<and> dr_written (tk_drain t) = tk_read u @ more"
proof -
  obtain t u where t: "tget (en_tasks (nt_se syn_demo)) 0 = Some t" "\<not> dr_dead (tk_drain t)"
    "tget (en_tasks (nt_re syn_demo)) 0 = Some u" "tk_read u = [frame_syn 7 [PROTO_TCP, 0, 1, 0x7A, 0, 80]]"
    using syn_demo_run by auto
  have "100 \<le> MAX_PAYLOAD" by (simp add: MAX_PAYLOAD_def)
  from network_tunnel_fifo [OF this this syn_demo_def t(1,3)] t show ?thesis by blast
qed

end
