(* ===== verification/Relay.thy ===== *)
theory Relay
  imports System
begin

text \<open>
  Where connections go and what UDP associations carry.  \<open>Reassembler\<close> records in \<open>rs_tasks\<close> the
  target of a handshake and in \<open>rs_udp_out\<close> every datagram handed to a socket; here both are traced back to
  the client of the connection at the splitter, and the datagrams given to a client to the sockets
  of the reassembler.
\<close>

subsection \<open>What most steps leave alone\<close>

definition task_targets :: "rs \<Rightarrow> (u32 \<times> syn_target) set" where
  "task_targets s = {(hs_cid h, hs_target h) | i h. tget (rs_tasks s) i = Some h}"

definition same_out :: "rs \<Rightarrow> rs \<Rightarrow> bool" where
  "same_out s s' \<longleftrightarrow> rs_udp_out s' = rs_udp_out s \<and> task_targets s' \<subseteq> task_targets s"

lemma same_out_refl [simp]: "same_out s s"
  by (simp add: same_out_def)

lemma same_out_trans: "same_out s t \<Longrightarrow> same_out t u \<Longrightarrow> same_out s u"
  by (auto simp: same_out_def)

lemma same_out_fields [simp]:
  "same_out s (t\<lparr>rs_conns := x1\<rparr>) = same_out s t" "same_out s (t\<lparr>rs_vcs := x2\<rparr>) = same_out s t"
  "same_out s (t\<lparr>rs_pending := x3\<rparr>) = same_out s t" "same_out s (t\<lparr>rs_closed := x4\<rparr>) = same_out s t"
  "same_out s (t\<lparr>rs_handshaking := x5\<rparr>) = same_out s t" "same_out s (t\<lparr>rs_pool := x6\<rparr>) = same_out s t"
  "same_out s (t\<lparr>rs_pending_bytes := x7\<rparr>) = same_out s t" "same_out s (t\<lparr>rs_resets := x8\<rparr>) = same_out s t"
  "same_out s (t\<lparr>rs_permits := x9\<rparr>) = same_out s t" "same_out s (t\<lparr>rs_next_task := x10\<rparr>) = same_out s t"
  "same_out s (t\<lparr>rs_timers := x11\<rparr>) = same_out s t" "same_out s (t\<lparr>rs_emitted := x12\<rparr>) = same_out s t"
  "same_out s (upd_vc a g t) = same_out s t"
  by (simp_all add: same_out_def task_targets_def upd_vc_def)

lemma same_out_prims [simp]:
  "same_out s (send_ctl f t) = same_out s t" "same_out s (tombstone n c t) = same_out s t"
  "same_out s (end_handshaking c t) = same_out s t" "same_out s (count_reset t) = same_out s t"
  "same_out s (insert_conn c vc t) = same_out s t" "same_out s (remove_conn c t) = same_out s t"
  "same_out s (finish_if_done n a c t) = same_out s t" "same_out s (half_close_conn a q t) = same_out s t"
  by (simp_all add: send_ctl_def tombstone_def end_handshaking_def count_reset_def insert_conn_def remove_conn_def
      finish_if_done_def half_close_conn_def Let_def split: prod.split option.split)

lemma task_targets_tins: "task_targets (s\<lparr>rs_tasks := tins i h (rs_tasks s)\<rparr>) \<subseteq> insert (hs_cid h, hs_target h) (task_targets s)"
  by (auto simp: task_targets_def table_simps split: if_splits)

lemma same_out_notify [simp]:
  assumes "same_out s t"
  shows "same_out s (notify_task k t)"
proof (cases "\<exists>i h. k = Some i \<and> tget (rs_tasks t) i = Some h")
  case True
  then obtain i h where k: "k = Some i" "tget (rs_tasks t) i = Some h" by blast
  then have "(hs_cid h, hs_target h) \<in> task_targets t" by (auto simp: task_targets_def)
  then have "task_targets (t\<lparr>rs_tasks := tins i (h\<lparr>hs_cancel := notify_one (hs_cancel h)\<rparr>) (rs_tasks t)\<rparr>) \<subseteq> task_targets t"
    using task_targets_tins [where s = t and i = i and h = "h\<lparr>hs_cancel := notify_one (hs_cancel h)\<rparr>"] by auto
  then show ?thesis using assms k by (auto simp: notify_task_def same_out_def)
qed (use assms in \<open>auto simp: notify_task_def split: option.split\<close>)

lemma same_out_end_task [simp]: "same_out s t \<Longrightarrow> same_out s (end_task i h t)"
  by (simp add: same_out_def end_task_def task_targets_def table_simps) blast

lemma same_out_pending [simp]:
  "same_out s t \<Longrightarrow> same_out s (cancel_pending c t)" "same_out s t \<Longrightarrow> same_out s (fail_pending_conn n c t)"
  "same_out s t \<Longrightarrow> same_out s (drop_pending n ke t)" "same_out s (snd (remove_pending c t)) = same_out s t"
  by (simp_all add: cancel_pending_def fail_pending_conn_def drop_pending_def remove_pending_def split: option.split)

lemma same_out_removed: "remove_pending c t = (e, t') \<Longrightarrow> same_out s t' = same_out s t"
  using same_out_pending(4) [of s c t] by simp

lemma same_out_fold: "(\<And>x t. same_out s t \<Longrightarrow> same_out s (g x t)) \<Longrightarrow> same_out s t \<Longrightarrow> same_out s (fold g xs t)"
  by (induction xs arbitrary: t) auto

lemma same_out_reserve: "try_reserve_pending n ex k t = (r, t') \<Longrightarrow> same_out s t \<Longrightarrow> same_out s t'"
proof (induction n ex k t rule: try_reserve_pending.induct)
  case (1 n ex k t)
  then show ?case by (auto simp: try_reserve_pending.simps [of n ex k t] split: if_splits option.splits)
qed

lemma same_out_resets [simp]:
  "same_out s t \<Longrightarrow> same_out s (reset_data_conn n c t)" "same_out s t \<Longrightarrow> same_out s (syn_fail n c t)"
  "same_out s t \<Longrightarrow> same_out s (syn_abort c t)" "same_out s t \<Longrightarrow> same_out s (syn_cancelled n c t)"
  "same_out s t \<Longrightarrow> same_out s (syn_drain n c a fs t)"
  by (simp_all add: reset_data_conn_def syn_fail_def syn_abort_def syn_cancelled_def syn_drain_def Let_def
      split: prod.split replay_end.split option.split)

lemma same_out_data: "same_out s t \<Longrightarrow> \<not> vc_is_udp (rs_vcs t ! a) \<Longrightarrow> same_out s (data_established n a f t)"
  by (simp add: data_established_def Let_def split: prod.split delivery.split)

lemma same_out_unknown:
  assumes "same_out s t" and "tget (rs_conns t) (conn_id f) = None" and "pend_inv Q t"
  shows "same_out s (data_unknown n f t)"
proof -
  have "same_out s t' \<and> rs_conns t' = rs_conns t" if "try_reserve_pending n ex k t = (r, t')" for ex k r t'
    using same_out_reserve [OF that assms(1)] try_reserve_spec [OF assms(3) that] by blast
  then show ?thesis using assms(1,2)
    by (auto simp: data_unknown_def Let_def split: prod.split bool.split option.split)
qed

lemma same_out_handlers [simp]:
  "same_out s t \<Longrightarrow> same_out s (handle_fin n f t)" "same_out s t \<Longrightarrow> same_out s (handle_rst n f t)"
  by (simp_all add: handle_fin_def handle_rst_def Let_def split: option.split)

lemma same_out_connected: "same_out s t \<Longrightarrow> same_out s (syn_connected n c r t)"
  by (auto simp: syn_connected_def Let_def same_out_removed split: connect_result.split prod.split option.split)

lemma same_out_readers: "same_out s t \<Longrightarrow> same_out s (reader_step rnd n a ev t)" "same_out s t \<Longrightarrow> same_out s (udp_reader_step n a ue t)"
  by (simp_all add: reader_step_def udp_reader_step_def Let_def
      split: reader_event.split udp_event.split prod.split async_outcome.split sum.split bool.split option.split)

lemma same_out_heartbeat: "same_out s t \<Longrightarrow> same_out s (heartbeat n m t)"
  by (simp add: heartbeat_def sweep_stale_pending_def Let_def same_out_fold sweep_conn_def)

lemma same_out_lost: "same_out s t \<Longrightarrow> same_out s (link_lost i fs t)"
  by (simp add: link_lost_def resend_lost_def same_out_fold)

subsection \<open>Datagrams to the targets\<close>

text \<open>What the socket of association \<open>a\<close> is given: datagrams in payloads of \<open>P\<close>.\<close>

definition forwarded :: "bytes set \<Rightarrow> nat \<Rightarrow> rs \<Rightarrow> rs \<Rightarrow> bool" where
  "forwarded P a s s' \<longleftrightarrow> task_targets s' \<subseteq> task_targets s
     \<and> (\<exists>new. rs_udp_out s' = rs_udp_out s @ new
          \<and> (\<forall>x \<in> set new. fst x = a \<and> (\<exists>p \<in> P. decode_udp_datagram p = Inr (snd x))))"

lemma forwarded_same: "same_out s s' \<Longrightarrow> forwarded P a s s'"
  by (simp add: same_out_def forwarded_def)

lemma forwarded_then: "forwarded P a s t \<Longrightarrow> same_out t u \<Longrightarrow> forwarded P a s u"
  by (auto simp: same_out_def forwarded_def)

lemma forward_forwarded: "p \<in> P \<Longrightarrow> forwarded P a s t \<Longrightarrow> forwarded P a s (forward_udp_datagram a p t)"
  by (auto simp: forwarded_def forward_udp_datagram_def task_targets_def split: sum.split)

lemma fold_forwarded:
  "payload ` set fs \<subseteq> P \<Longrightarrow> forwarded P a s t \<Longrightarrow> forwarded P a s (fold (\<lambda>f. forward_udp_datagram a (payload f)) fs t)"
  by (induction fs arbitrary: t) (simp_all add: forward_forwarded)

lemma data_forwarded: "forwarded {payload f} a s (data_established n a f s)"
proof (cases "vc_is_udp (rs_vcs s ! a)")
  case True
  have "forwarded {payload f} a s (forward_udp_datagram a (payload f) s)"
    by (rule forward_forwarded) (simp_all add: forwarded_same)
  then show ?thesis using True by (auto simp: data_established_def elim: forwarded_then)
qed (simp add: forwarded_same same_out_data)

lemma bound_forwarded:
  assumes "pend_inv Q s"
  shows "forwarded {payload f | f. Q f \<and> conn_id f = c \<and> has_flag f FLAG_DATA} (length (rs_vcs s)) s (syn_udp_bound n c b s)"
    (is "forwarded ?P ?a s _")
proof (cases b)
  case (Some v6)
  let ?s1 = "insert_conn c (new_udp_vconn c (rs_window s) v6 n) s"
  obtain e s2 where r: "remove_pending c ?s1 = (e, s2)" by force
  have s2: "same_out s s2" using same_out_removed [OF r, of s] by simp
  show ?thesis
  proof (cases "\<exists>e'. e = Some e' \<and> \<not> pe_cancelled e'")
    case True
    then obtain e' where e: "e = Some e'" "\<not> pe_cancelled e'" by blast
    have "tget (rs_pending s) c = Some e'" using r e(1) by (auto simp: remove_pending_def insert_conn_def split: option.splits)
    then have "entry_ok Q c e'" using assms pend_ok_entry by (auto simp: pend_inv_def)
    then have "payload ` set (filter (\<lambda>f. has_flag f FLAG_DATA) (pe_frames e')) \<subseteq> ?P" by (auto simp: entry_ok_def)
    from forwarded_then [OF fold_forwarded [OF this forwarded_same [OF s2]]]
    have "forwarded ?P ?a s (end_handshaking c (fold (\<lambda>f. forward_udp_datagram ?a (payload f))
        (filter (\<lambda>f. has_flag f FLAG_DATA) (pe_frames e')) s2))" by simp
    then show ?thesis using r e Some by (simp add: syn_udp_bound_def)
  next
    case False
    then have "same_out s (syn_udp_bound n c b s)" using r s2 Some by (auto simp: syn_udp_bound_def split: option.split)
    then show ?thesis by (rule forwarded_same)
  qed
qed (simp add: syn_udp_bound_def forwarded_same)

lemma bound_conn:
  assumes "b = Some v6"
  shows "length (rs_vcs s) < length (rs_vcs (syn_udp_bound n c b s))"
    and "vc_ext (new_udp_vconn c (rs_window s) v6 n) (rs_vcs (syn_udp_bound n c b s) ! length (rs_vcs s))"
proof -
  let ?vc = "new_udp_vconn c (rs_window s) v6 n"
  have "rg.grown (rs_vcs s @ [?vc]) (insert_conn c ?vc s)" using rg.grown_now [of "insert_conn c ?vc s"] by (simp add: insert_conn_def)
  then have "rg.grown (rs_vcs s @ [?vc]) (syn_udp_bound n c b s)"
    using assms by (auto simp: syn_udp_bound_def syn_cancelled_def Let_def rg.grown_fold rg_remove_pending split: prod.split option.split)
  then show "length (rs_vcs s) < length (rs_vcs (syn_udp_bound n c b s))"
    and "vc_ext ?vc (rs_vcs (syn_udp_bound n c b s) ! length (rs_vcs s))"
    by (auto simp: rg.grown_def nth_append dest: spec [of _ "length (rs_vcs s)"])
qed

subsection \<open>One event\<close>

definition syn_targets :: "frame \<Rightarrow> (u32 \<times> syn_target) set" where
  "syn_targets f = {(conn_id f, t) | t. has_flag f FLAG_SYN \<and> syn_decode (payload f) = Inr t}"

definition started :: "frame \<Rightarrow> rs \<Rightarrow> rs \<Rightarrow> bool" where
  "started f s t \<longleftrightarrow> rs_udp_out t = rs_udp_out s \<and> task_targets t \<subseteq> task_targets s \<union> syn_targets f"

lemma started_same: "same_out s t \<Longrightarrow> started f s t"
  by (auto simp: same_out_def started_def)

lemma started_task:
  assumes "rs_udp_out t = rs_udp_out s" and "rs_tasks t = tins i h (rs_tasks s)" and "(hs_cid h, hs_target h) \<in> syn_targets f"
  shows "started f s t"
proof -
  have "task_targets t = task_targets (s\<lparr>rs_tasks := tins i h (rs_tasks s)\<rparr>)" using assms(2) by (simp add: task_targets_def)
  then show ?thesis using assms task_targets_tins [where s = s and i = i and h = h] by (auto simp: started_def)
qed

lemma syn_begin_started:
  assumes "has_flag f FLAG_SYN"
  shows "started f s (syn_begin n p f s)"
  using assms by (auto simp: syn_begin_def Let_def syn_targets_def started_same intro: started_task split: sum.split)

lemma frame_relay:
  assumes "conn_inv sent s" and "pend_inv Q s"
  obtains "started f s (dispatch_frame n f s)"
    | a where "tget (rs_conns s) (conn_id f) = Some a" "vc_is_udp (rs_vcs s ! a)" "has_flag f FLAG_DATA"
      "forwarded {payload f} a s (dispatch_frame n f s)"
proof (cases "\<not> has_flag f FLAG_SYN \<and> has_flag f FLAG_DATA \<and> (\<exists>a. tget (rs_conns s) (conn_id f) = Some a \<and> vc_is_udp (rs_vcs s ! a))")
  case True
  then obtain a where "tget (rs_conns s) (conn_id f) = Some a" "vc_is_udp (rs_vcs s ! a)" by blast
  moreover from this have "forwarded {payload f} a s (dispatch_frame n f s)"
    using True data_forwarded by (simp add: dispatch_frame_def handle_frame_def handle_data_def)
  ultimately show thesis using True that(2) by blast
next
  case False
  have "started f s (dispatch_frame n f s)"
  proof (cases "has_flag f FLAG_SYN")
    case True
    then show ?thesis by (simp add: dispatch_frame_def handle_frame_def syn_begin_started)
  next
    case not_syn: False
    have "same_out s (handle_data n f s)" if "has_flag f FLAG_DATA"
      using False not_syn that same_out_unknown [OF same_out_refl _ assms(2)]
      by (auto simp: handle_data_def same_out_data split: option.split)
    then show ?thesis using not_syn by (auto simp: dispatch_frame_def handle_frame_def intro!: started_same)
  qed
  then show thesis by (rule that(1))
qed

lemma other_same:
  assumes "case ev of EvFrame i n m f \<Rightarrow> False | EvBound n i b \<Rightarrow> False | _ \<Rightarrow> True"
  shows "same_out s (rs_exec ev s)"
  using assms by (cases ev) (simp_all add: rs_exec_def same_out_connected same_out_readers same_out_heartbeat
      same_out_lost accept_link_def link_ended_def split: option.split)

subsection \<open>The invariant\<close>

text \<open>
  The datagrams that went out are those of the association's client; the targets of the handshakes
  are those of SYN frames that satisfy \<open>Q\<close>.
\<close>

definition relayed :: "(u32 \<Rightarrow> bytes list) \<Rightarrow> rs \<Rightarrow> nat \<times> target_addr \<times> bytes \<Rightarrow> bool" where
  "relayed sent s x \<longleftrightarrow> fst x < length (rs_vcs s) \<and> vc_is_udp (rs_vcs s ! fst x)
     \<and> (\<exists>p \<in> set (sent (vc_cid (rs_vcs s ! fst x))). decode_udp_datagram p = Inr (snd x))"

definition relay_inv :: "(u32 \<Rightarrow> bytes list) \<Rightarrow> (frame \<Rightarrow> bool) \<Rightarrow> rs \<Rightarrow> bool" where
  "relay_inv sent Q s \<longleftrightarrow> (\<forall>x \<in> set (rs_udp_out s). relayed sent s x)
     \<and> task_targets s \<subseteq> (\<Union>f \<in> Collect Q. syn_targets f)"

lemma relayed_exec: "relayed sent s x \<Longrightarrow> relayed sent (rs_exec ev s) x"
  using rs_exec_extends [of "fst x" s ev] by (auto simp: relayed_def vc_ext_def)

lemma relay_inv_started:
  assumes "relay_inv sent Q s" and "started f s (rs_exec ev s)" and "Q f"
  shows "relay_inv sent Q (rs_exec ev s)"
  using assms relayed_exec by (fastforce simp: relay_inv_def started_def)

lemma relay_inv_same:
  assumes "relay_inv sent Q s" and "same_out s (rs_exec ev s)"
  shows "relay_inv sent Q (rs_exec ev s)"
  using assms relayed_exec by (fastforce simp: relay_inv_def same_out_def)

lemma relay_inv_forwarded:
  assumes "relay_inv sent Q s" and "forwarded P a s (rs_exec ev s)" and "a < length (rs_vcs (rs_exec ev s))"
    and "vc_is_udp (rs_vcs (rs_exec ev s) ! a)" and "P \<subseteq> set (sent (vc_cid (rs_vcs (rs_exec ev s) ! a)))"
  shows "relay_inv sent Q (rs_exec ev s)"
proof -
  obtain new where new: "rs_udp_out (rs_exec ev s) = rs_udp_out s @ new"
      "\<forall>x \<in> set new. fst x = a \<and> (\<exists>p \<in> P. decode_udp_datagram p = Inr (snd x))"
      "task_targets (rs_exec ev s) \<subseteq> task_targets s"
    using assms(2) by (auto simp: forwarded_def)
  have "relayed sent (rs_exec ev s) x" if "x \<in> set new" for x
    using that new(2) assms(3-5) by (fastforce simp: relayed_def)
  then show ?thesis using assms(1) new(1,3) relayed_exec by (auto simp: relay_inv_def)
qed

lemma rs_exec_relay:
  assumes inv: "relay_inv sent Q s" and conn: "conn_inv sent s" and pend: "pend_inv (legit sent) s"
    and f: "\<And>i n m f. ev = EvFrame i n m f \<Longrightarrow> legit sent f \<and> Q f"
  shows "relay_inv sent Q (rs_exec ev s)"
proof (cases ev)
  case (EvFrame i n m f)
  have ex: "started f s (rs_exec ev s) = started f s (dispatch_frame n f s)"
    "forwarded P a s (rs_exec ev s) = forwarded P a s (dispatch_frame n f s)" for P a
    using EvFrame by (simp_all add: rs_exec_def read_link_frame_def Let_def started_def forwarded_def task_targets_def)
  from conn pend show ?thesis
  proof (cases rule: frame_relay [of sent s "legit sent" f n])
    case 1
    then show ?thesis using relay_inv_started [OF inv] ex(1) assms(4) [OF EvFrame] by blast
  next
    case (2 a)
    note e = conn_inv_entry(1,2) [OF conn 2(1)]
    have "payload f \<in> set (sent (conn_id f))" using assms(4) [OF EvFrame] 2(3) by (auto simp: legit_def in_stream_def)
    then show ?thesis
      using relay_inv_forwarded [OF inv, of "{payload f}" a ev] 2 ex(2) e rs_exec_extends [OF e(1), of ev] by (simp add: vc_ext_def)
  qed
next
  case (EvBound n i b)
  show ?thesis
  proof (cases "\<exists>h. tget (rs_tasks s) i = Some h \<and> proto (hs_target h) = PROTO_UDP \<and> b \<noteq> None")
    case True
    then obtain h v6 where h: "tget (rs_tasks s) i = Some h" "proto (hs_target h) = PROTO_UDP" "b = Some v6" by blast
    let ?t = "end_task i h s" and ?P = "{payload f | f. legit sent f \<and> conn_id f = hs_cid h \<and> has_flag f FLAG_DATA}"
    have ev: "rs_exec ev s = syn_udp_bound n (hs_cid h) b ?t" using EvBound h by (simp add: rs_exec_def)
    have "forwarded ?P (length (rs_vcs ?t)) ?t (rs_exec ev s)" unfolding ev by (rule bound_forwarded) (simp add: pend)
    moreover have "same_out s ?t" by simp
    ultimately have "forwarded ?P (length (rs_vcs s)) s (rs_exec ev s)" by (auto simp: forwarded_def same_out_def)
    moreover have "?P \<subseteq> set (sent (hs_cid h))" by (auto simp: legit_def in_stream_def)
    ultimately show ?thesis
      using bound_conn [OF h(3), where s = ?t and n = n and c = "hs_cid h"]
      by (intro relay_inv_forwarded [OF inv]) (auto simp: ev vc_ext_def new_udp_vconn_def new_vconn_def)
  next
    case False
    then have "same_out s (rs_exec ev s)" using EvBound
      by (auto simp: rs_exec_def syn_udp_bound_def split: option.split)
    then show ?thesis by (rule relay_inv_same [OF inv])
  qed
qed (rule relay_inv_same [OF inv other_same], simp)+

lemma reach_relay:
  assumes "rs_reach (\<lambda>f. legit sent f \<and> Q f) w k s" and "\<And>c. length (sent c) + 1 < 2 ^ 64"
  shows "relay_inv sent Q s \<and> conn_inv sent s \<and> pend_inv (legit sent) s"
  using assms(1)
proof (induction rule: rs_reach.induct)
  case init
  have "relay_inv sent Q (rs_init w k)" by (simp add: relay_inv_def rs_init_def task_targets_def)
  then show ?case by (simp add: pend_inv_init conn_inv_init)
next
  case (step s ev)
  then show ?case using rs_exec_relay [of sent Q s ev] rs_exec_pend_inv [of "legit sent" s ev] rs_exec_conn_inv [of sent s ev] assms(2)
    by blast
qed

subsection \<open>In the joint system\<close>

lemma sys_relay:
  assumes "sys k w k' w' s r" and "k \<le> MAX_PAYLOAD" and "distinct (map sc_cid (sp_vcs s))"
    and "\<And>c. length (sent_of s c) + 1 < 2 ^ 64"
  shows "relay_inv (sent_of s) (\<lambda>f. f \<in> set (sp_emitted s)) r"
proof -
  have "legit (sent_of s) f" if "f \<in> set (sp_emitted s)" for f
    using emitted_legit [OF sys_emit_inv [OF assms(1,2)] assms(3,4) that] .
  then have "rs_reach (\<lambda>f. legit (sent_of s) f \<and> f \<in> set (sp_emitted s)) w' k' r"
    by (intro sys_rs_reach [OF assms(1,2)]) blast
  from reach_relay [OF this assms(4)] show ?thesis by blast
qed

lemma emitted_syn_target:
  assumes "emit_inv F s" and "f \<in> set (sp_emitted s)" and "(c, t) \<in> syn_targets f"
  shows "\<exists>sc \<in> set (sp_vcs s). sc_cid sc = c \<and> sc_target sc = t"
proof -
  have f: "has_flag f FLAG_SYN" "syn_decode (payload f) = Inr t" "conn_id f = c" using assms(3) by (auto simp: syn_targets_def)
  have "cl.emit_ok (sp_vcs s) f" using assms(1,2) by (simp add: emit_inv_def)
  with f obtain sc where "sc \<in> set (sp_vcs s)" "sc_cid sc = c" "syn_encode (sc_target sc) = Inr (payload f)"
    by (auto simp: cl.emit_ok_def announces_def)
  then show ?thesis using syn_decode_unique f(2) by blast
qed

subsection \<open>A concrete association\<close>

text \<open>
  A client associates, sends a datagram for 1.2.3.4:53, the socket answers, the client gets the answer.
\<close>

abbreviation demo_peer :: socket_addr where
  "demo_peer \<equiv> \<lparr>sa_ip = V4 [9, 9, 9, 9], sa_port = 5\<rparr>"

definition demo_query :: bytes where
  "demo_query = [0, 0, 0, 1, 1, 2, 3, 4, 0, 53, 7]"

definition demo_answer :: bytes where
  "demo_answer = [0, 0, 0, 1, 1, 2, 3, 4, 0, 53, 8]"

definition udp_syn :: bytes where
  "udp_syn = [PROTO_UDP, 0, 7] @ ascii ''0.0.0.0'' @ [0, 0]"

definition udp_sp :: sp where
  "udp_sp = fold sp_exec [SvUp 0 0, SvAccept, SvBegin, SvAccepted 0 [7] (Some (UdpAssociate demo_peer None, [5])),
     SvUdp 1 0 (UcDatagram demo_peer demo_query)] (sp_init 100 1000)"

definition udp_waiting :: rs where
  "udp_waiting = fold rs_exec [EvAccept 0 0, EvFrame 0 1 1 (frame_syn 7 udp_syn)] (rs_init 1000 100)"

definition udp_rs :: rs where
  "udp_rs = fold rs_exec [EvBound 2 0 (Some False), EvFrame 0 3 3 (frame_data 7 1 demo_query),
     EvUdpReader 4 0 (URecv \<lparr>sa_ip = V4 [1, 2, 3, 4], sa_port = 53\<rparr> [8])] udp_waiting"

definition udp_done :: sp where
  "udp_done = fold sp_exec [SvFrame 0 5 5 [] (frame_data 7 1 demo_answer), SvResponse 0 True] udp_sp"

abbreviation udp_target :: syn_target where
  "udp_target \<equiv> \<lparr>proto = PROTO_UDP, address = ascii ''0.0.0.0'', port = 0\<rparr>"

lemma udp_syn_encode: "syn_encode udp_target = Inr udp_syn"
  by (simp add: syn_encode_def put_u16_bytes udp_syn_def ascii_def)

lemma udp_syn_decode: "syn_decode udp_syn = Inr udp_target"
  using syn_decode_encoded [OF udp_syn_encode, of "[]"] by (simp add: ascii_def utf8_valid.simps)

lemma demo_query_decode: "decode_udp_datagram demo_query = Inr (\<lparr>ta_address = show_ipv4 [1, 2, 3, 4], ta_port = 53\<rparr>, [7])"
  by (simp add: demo_query_def decode_udp_datagram_def parse_udp_address_def socks_consts from_be_bytes_def from_be_def)

lemma demo_answer_encode: "encode_udp_datagram \<lparr>ta_address = show_ipv4 [1, 2, 3, 4], ta_port = 53\<rparr> [8] = Inr demo_answer"
  by (simp add: demo_answer_def encode_udp_datagram_def encode_address_def parse_show_ipv4 socks_consts put_u16_bytes)

lemma demo_lengths [simp]: "length demo_query = 11" "length demo_answer = 11"
  by (simp_all add: demo_query_def demo_answer_def)

lemma udp_sp_run:
  "map (\<lambda>sc. (sc_cid sc, sc_sent sc, sc_is_udp sc, sc_target sc)) (sp_vcs udp_sp) = [(7, [demo_query], True, udp_target)]"
  "sp_emitted udp_sp = [frame_syn 7 udp_syn, frame_data 7 1 demo_query]"
  by (simp_all add: udp_sp_def sp_run_defs udp_syn_encode open_udp_def udp_client_step_def udp_datagram_def
      UDP_CHANNEL_CAP_def numeral_3_eq_3)

lemma udp_waiting_run: "map (\<lambda>(i, h). (i, hs_cid h, hs_target h)) (rs_tasks udp_waiting) = [(0, 7, udp_target)]"
  by (simp add: udp_waiting_def demo_run_defs udp_syn_decode frame_consts)

lemma udp_rs_run:
  "map (\<lambda>v. (vc_cid v, vc_is_udp v, vc_sent v)) (rs_vcs udp_rs) = [(7, True, [demo_answer])]"
  "rs_udp_out udp_rs = [(0, \<lparr>ta_address = show_ipv4 [1, 2, 3, 4], ta_port = 53\<rparr>, [7])]"
  "rs_emitted udp_rs = [frame_data 7 1 demo_answer]"
  by (simp_all add: udp_rs_def udp_waiting_def demo_run_defs udp_syn_decode frame_consts syn_udp_bound_def new_udp_vconn_def
      forward_udp_datagram_def demo_query_decode udp_reader_step_def normalize_ip_def demo_answer_encode pool_send_def send_from.simps)

lemma udp_done_run:
  "map (\<lambda>sc. (sc_cid sc, sc_sent sc, sc_is_udp sc, sc_udp_out sc)) (sp_vcs udp_done) = [(7, [demo_query], True, [(demo_peer, demo_answer)])]"
  by (simp add: udp_done_def udp_sp_def sp_run_defs udp_syn_encode udp_syn_encode [unfolded PROTO_UDP_def] open_udp_def
      udp_client_step_def udp_datagram_def UDP_CHANNEL_CAP_def numeral_3_eq_3 frame_consts udp_response_step_def)

lemma udp_sys_waiting: "sys 100 1000 100 1000 udp_sp udp_waiting"
proof -
  have "sys 100 1000 100 1000 udp_sp (rs_init 1000 100)"
    unfolding udp_sp_def by (rule sys_fold_sp [OF sys.boot]) (simp add: ev_ok_def)
  then show ?thesis unfolding udp_waiting_def by (rule sys_fold_rs) (simp add: rs_ev_ok_def udp_sp_run)
qed

lemma udp_sys: "sys 100 1000 100 1000 udp_done udp_rs"
proof -
  have "sys 100 1000 100 1000 udp_sp udp_rs"
    unfolding udp_rs_def by (rule sys_fold_rs [OF udp_sys_waiting]) (simp add: rs_ev_ok_def udp_sp_run)
  then show ?thesis unfolding udp_done_def by (rule sys_fold_sp) (simp add: ev_ok_def udp_rs_run)
qed

lemma udp_done_conn: "length (sp_vcs udp_done) = 1" "sc_cid (sp_vcs udp_done ! 0) = 7"
  "sc_sent (sp_vcs udp_done ! 0) = [demo_query]" "sc_is_udp (sp_vcs udp_done ! 0)"
  "sc_udp_out (sp_vcs udp_done ! 0) = [(demo_peer, demo_answer)]"
  using udp_done_run by (auto simp: map_eq_Cons_conv)

lemma udp_sp_conn: "length (sp_vcs udp_sp) = 1" "sc_cid (sp_vcs udp_sp ! 0) = 7" "sc_sent (sp_vcs udp_sp ! 0) = [demo_query]"
  using udp_sp_run(1) by (auto simp: map_eq_Cons_conv)

lemma udp_rs_conn: "length (rs_vcs udp_rs) = 1" "vc_cid (rs_vcs udp_rs ! 0) = 7" "vc_sent (rs_vcs udp_rs ! 0) = [demo_answer]"
  using udp_rs_run(1) by (auto simp: map_eq_Cons_conv)

lemma single: "length xs = 1 \<Longrightarrow> xs = [xs ! 0]"
  by (cases xs) auto

lemma udp_sent: "sent_of udp_done c = (if c = 7 then [demo_query] else [])" "sent_of udp_sp c = (if c = 7 then [demo_query] else [])"
  "replied_of udp_rs c = (if c = 7 then [demo_answer] else [])"
  by (subst sent_of_def, subst single [OF udp_done_conn(1)], simp add: cl.sent_by_def udp_done_conn,
      subst sent_of_def, subst single [OF udp_sp_conn(1)], simp add: cl.sent_by_def udp_sp_conn,
      subst replied_of_def, subst single [OF udp_rs_conn(1)], simp add: tg.sent_by_def udp_rs_conn)

lemma udp_distinct: "distinct (map sc_cid (sp_vcs udp_done))" "distinct (map sc_cid (sp_vcs udp_sp))" "distinct (map vc_cid (rs_vcs udp_rs))"
  by (subst single [OF udp_done_conn(1)], simp, subst single [OF udp_sp_conn(1)], simp, subst single [OF udp_rs_conn(1)], simp)

subsection \<open>Properties\<close>

text \<open>
  C10. Connections go where their clients asked.  Every handshake that the reassembler runs, whatever
  the tunnels did to the frames before, is for a connection of the splitter, and its protocol, address and
  port are exactly those of the request that the client of this connection made.
\<close>

theorem connects_where_asked:
  assumes "sys k w k' w' s r" and "k \<le> MAX_PAYLOAD" and "distinct (map sc_cid (sp_vcs s))"
    and "\<And>c. length (sent_of s c) + 1 < 2 ^ 64" and "tget (rs_tasks r) i = Some h"
  shows "\<exists>sc \<in> set (sp_vcs s). sc_cid sc = hs_cid h \<and> sc_target sc = hs_target h"
proof -
  have "(hs_cid h, hs_target h) \<in> task_targets r" using assms(5) by (auto simp: task_targets_def)
  then obtain f where "f \<in> set (sp_emitted s)" "(hs_cid h, hs_target h) \<in> syn_targets f"
    using sys_relay [OF assms(1-4)] by (auto simp: relay_inv_def)
  then show ?thesis using emitted_syn_target [OF sys_emit_inv [OF assms(1,2)]] by blast
qed

theorem connects_where_asked_witness: "\<exists>sc \<in> set (sp_vcs udp_sp). sc_cid sc = 7 \<and> sc_target sc = udp_target"
proof -
  obtain h where h: "rs_tasks udp_waiting = [(0, h)]" "hs_cid h = 7" "hs_target h = udp_target"
    using udp_waiting_run by (auto simp: map_eq_Cons_conv)
  show ?thesis
    using connects_where_asked [OF udp_sys_waiting _ udp_distinct(2), of 0 h] h
    by (simp add: MAX_PAYLOAD_def udp_sent)
qed

text \<open>
  C11. Datagrams to the targets, end to end.  Every datagram that the reassembler hands to a UDP socket
  belongs to a UDP association and is what the client of that association asked for in one datagram
  of its own: the target in its header and the data after it.  Nothing is invented, mixed up
  between associations, cut or joined.
\<close>

theorem udp_upload_authentic:
  assumes "sys k w k' w' s r" and "k \<le> MAX_PAYLOAD" and "distinct (map sc_cid (sp_vcs s))"
    and "\<And>c. length (sent_of s c) + 1 < 2 ^ 64" and "(a, target, dat) \<in> set (rs_udp_out r)"
  shows "a < length (rs_vcs r) \<and> vc_is_udp (rs_vcs r ! a)
    \<and> (\<exists>p \<in> set (sent_of s (vc_cid (rs_vcs r ! a))). decode_udp_datagram p = Inr (target, dat))"
  using sys_relay [OF assms(1-4)] assms(5) by (fastforce simp: relay_inv_def relayed_def)

theorem udp_upload_authentic_witness:
  "\<exists>p \<in> set (sent_of udp_done 7). decode_udp_datagram p = Inr (\<lparr>ta_address = show_ipv4 [1, 2, 3, 4], ta_port = 53\<rparr>, [7])"
  using udp_upload_authentic [OF udp_sys _ udp_distinct(1), of 0] by (simp add: MAX_PAYLOAD_def udp_sent udp_rs_run udp_rs_conn)

text \<open>
  C12. Datagrams to the clients, end to end.  Every datagram that the splitter sends to the client of a
  UDP association is one that a socket of the same association received at the reassembler, with its
  header, unchanged.
\<close>

theorem udp_download_authentic:
  assumes "sys k w k' w' s r" and "k' \<le> MAX_PAYLOAD" and "distinct (map vc_cid (rs_vcs r))"
    and "\<And>c. length (replied_of r c) + 1 < 2 ^ 64" and "a < length (sp_vcs s)" and "sc_is_udp (sp_vcs s ! a)"
    and "(peer, dgram) \<in> set (sc_udp_out (sp_vcs s ! a))"
  shows "dgram \<in> set (replied_of r (sc_cid (sp_vcs s ! a)))"
  using recv_inv_good [OF reach_recv_inv [OF sys_download [OF assms(1-4)]] assms(5)] assms(6,7)
  by (force simp: recv_good_def datagrams_ok_def)

theorem udp_download_authentic_witness: "demo_answer \<in> set (replied_of udp_rs 7)"
  using udp_download_authentic [OF udp_sys _ udp_distinct(3), of 0 demo_peer demo_answer]
  by (simp add: MAX_PAYLOAD_def udp_sent udp_done_conn)

text \<open>
  C13. An answer names its source, and an answer to the answer reaches it.  Whatever address a datagram came
  from, the reassembler puts it into the header as SOCKS5 has it: four octets for an IPv4 address
  and for an IPv4 address that the dual-stack socket mapped into IPv6, sixteen octets for any other.  A datagram that
  the client sends back to the target in that header goes out to exactly this address and port, on the socket of
  its family, without a name lookup.
\<close>

theorem udp_answer_address:
  assumes "ip_wf ip" and "\<And>os. unmapped ip = V4 os \<Longrightarrow> sock = SockV4" and "\<And>gs. unmapped ip = V6 gs \<Longrightarrow> sock = SockV6"
  shows "\<exists>w host. encode_udp_datagram \<lparr>ta_address = normalize_ip ip, ta_port = pt\<rparr> dat = Inr w
    \<and> w = [0, 0, 0] @ (case unmapped ip of V4 os \<Rightarrow> ATYP_IPV4 # os | V6 gs \<Rightarrow> ATYP_IPV6 # octets_of_groups gs) @ put_u16 pt @ dat
    \<and> decode_udp_datagram w = Inr (\<lparr>ta_address = host, ta_port = pt\<rparr>, dat)
    \<and> udp_send_to lookup True host pt = Some (sock, \<lparr>sa_ip = unmapped ip, sa_port = pt\<rparr>)"
proof -
  let ?t = "\<lparr>ta_address = normalize_ip ip, ta_port = pt\<rparr>"
  have z: "put_u16 0 = [0, 0]" by (simp add: put_u16_bytes)
  consider os where "unmapped ip = V4 os" "length os = 4" "normalize_ip ip = show_ipv4 os"
    | gs where "unmapped ip = V6 gs" "length gs = 8" "normalize_ip ip = show_ipv6 gs"
    using assms(1) by (cases rule: unmapped_cases)
  then show ?thesis
  proof cases
    case 1
    have "encode_udp_datagram ?t dat = Inr ([0, 0, 0] @ (ATYP_IPV4 # os) @ put_u16 pt @ dat)"
      using 1 z by (simp add: encode_udp_datagram_def encode_address_def parse_show_ipv4)
    moreover from decode_encoded_udp [OF this] have "decode_udp_datagram ([0, 0, 0] @ (ATYP_IPV4 # os) @ put_u16 pt @ dat) = Inr (?t, dat)"
      using 1 by (simp add: canon_target_def canon_host_def parse_show_ipv4)
    ultimately show ?thesis using 1 assms(2) by (simp add: udp_send_to_def parse_ip_show_ipv4)
  next
    case 2
    have "encode_udp_datagram ?t dat = Inr ([0, 0, 0] @ (ATYP_IPV6 # octets_of_groups gs) @ put_u16 pt @ dat)"
      using 2 z by (simp add: encode_udp_datagram_def encode_address_def parse_show_ipv6)
    moreover from decode_encoded_udp [OF this]
    have "decode_udp_datagram ([0, 0, 0] @ (ATYP_IPV6 # octets_of_groups gs) @ put_u16 pt @ dat)
        = Inr (\<lparr>ta_address = show_ipv6_full (octets_of_groups gs), ta_port = pt\<rparr>, dat)"
      using 2 by (simp add: canon_target_def canon_host_def parse_show_ipv6)
    ultimately show ?thesis using 2 assms(3) by (simp add: udp_send_to_def parse_ip_full)
  qed
qed

theorem udp_answer_address_witness:
  "\<exists>w host. encode_udp_datagram \<lparr>ta_address = normalize_ip (V6 [0x2001, 0xDB8, 0, 0, 1, 0, 0, 1]), ta_port = 53\<rparr> [8] = Inr w
    \<and> decode_udp_datagram w = Inr (\<lparr>ta_address = host, ta_port = 53\<rparr>, [8])
    \<and> udp_send_to (\<lambda>_ _. LookupTimeout) True host 53 = Some (SockV6, \<lparr>sa_ip = V6 [0x2001, 0xDB8, 0, 0, 1, 0, 0, 1], sa_port = 53\<rparr>)"
  using udp_answer_address [of "V6 [0x2001, 0xDB8, 0, 0, 1, 0, 0, 1]" SockV6 53 "[8]" "\<lambda>_ _. LookupTimeout"]
  by (auto simp: ip_wf_def unmapped_def to_ipv4_mapped_def)

end
