(* ===== verification/Supervisor.thy ===== *)
theory Supervisor
  imports SplitterProps ReassemblerProps
begin

text \<open>
  The long-running loops around the handlers, with the shutdown flag and the clock: the reconnect loop of
  each tunnel, the start, the accept loop and the heartbeat task of \<open>run_splitter\<close>
  (\<open>src/src/splitter.rs\<close>), the listeners of \<open>run_reassembler\<close> (\<open>src/src/reassembler.rs\<close>), and
  \<open>shutdown_signal\<close> (\<open>src/src/lib.rs\<close>).  A step is what a task does from one await to the next;
  \<open>shutdown\<close> is the value of the flag during the step and \<open>now\<close> the clock in milliseconds.  An event that
  the task is not waiting for changes nothing.
\<close>

subsection \<open>Signals\<close>

datatype signal = CtrlC | SigTerm | OtherSignal

text \<open>Whether \<open>shutdown_signal\<close> has returned after these signals; only Unix listens to SIGTERM.\<close>

definition shutdown_signal :: "bool \<Rightarrow> signal list \<Rightarrow> bool" where
  "shutdown_signal unix sigs \<longleftrightarrow> CtrlC \<in> set sigs \<or> unix \<and> SigTerm \<in> set sigs"

subsection \<open>The reconnect loop of a tunnel\<close>

datatype sup_phase = Connecting | InSession | Sleeping instant instant | Gone

record sup =
  su_phase :: sup_phase
  su_retry :: u32

datatype sup_event = EstOk | EstErr | SessionEnded | Wake

text \<open>
  \<open>establish_tunnel\<close>: connect to the proxy (\<open>conn\<close>: the stream, or a failure) and through it to the
  reassembler, within ten seconds.
\<close>

definition establish_tunnel :: "bool \<Rightarrow> bytes \<Rightarrow> u16 \<Rightarrow> stream option \<Rightarrow> stream option" where
  "establish_tunnel timed_out target pt conn =
     (if timed_out then None
      else case conn of
             None \<Rightarrow> None
           | Some s \<Rightarrow> (case socks5_client_connect target pt s of (Inr _, s') \<Rightarrow> Some s' | (Inl _, _) \<Rightarrow> None))"

definition attempt_event :: "stream option \<Rightarrow> sup_event" where
  "attempt_event r = (if r = None then EstErr else EstOk)"

definition sup_init :: sup where
  "sup_init = \<lparr>su_phase = Connecting, su_retry = 0\<rparr>"

text \<open>One round of the interruptible backoff: \<open>Sleeping wake deadline\<close> sleeps until \<open>wake\<close>.\<close>

definition backoff_poll :: "bool \<Rightarrow> instant \<Rightarrow> instant \<Rightarrow> sup_phase" where
  "backoff_poll shutdown now deadline =
     (if shutdown then Gone
      else let remaining = deadline - now in
           if remaining = 0 then Connecting else Sleeping (now + min remaining 1000) deadline)"

text \<open>After a failed attempt or a session that ended.\<close>

definition after_attempt :: "bool \<Rightarrow> instant \<Rightarrow> sup \<Rightarrow> sup" where
  "after_attempt shutdown now s =
     (if shutdown then s\<lparr>su_phase := Gone\<rparr>
      else s\<lparr>su_phase := backoff_poll shutdown now (now + 1000 * unat (reconnect_delay_secs (su_retry s)))\<rparr>)"

definition sup_step :: "bool \<Rightarrow> instant \<Rightarrow> sup_event \<Rightarrow> sup \<Rightarrow> sup" where
  "sup_step shutdown now ev s =
     (case su_phase s of
        Connecting \<Rightarrow>
          (case ev of
             EstOk \<Rightarrow> s\<lparr>su_phase := InSession, su_retry := next_retry True (su_retry s)\<rparr>
           | EstErr \<Rightarrow> after_attempt shutdown now (s\<lparr>su_retry := next_retry False (su_retry s)\<rparr>)
           | _ \<Rightarrow> s)
      | InSession \<Rightarrow> if ev = SessionEnded then after_attempt shutdown now s else s
      | Sleeping wake deadline \<Rightarrow>
          if ev = Wake \<and> wake \<le> now then s\<lparr>su_phase := backoff_poll shutdown now deadline\<rparr> else s
      | Gone \<Rightarrow> s)"

subsection \<open>The splitter's main task\<close>

text \<open>
  \<open>Waiting\<close>: for the first live tunnel; \<open>WantSlot\<close>: at the connection limit, waiting for
  \<open>conn_slot\<close>; \<open>Accepting\<close>: in \<open>listener.accept()\<close>; \<open>AcceptRetry\<close>: sleeping after a failed accept.
\<close>

datatype main_phase = Waiting instant | WantSlot | Accepting | AcceptRetry instant | Returned

record splitter_main =
  mn_phase :: main_phase
  mn_sp :: sp

text \<open>\<open>MSlot\<close>: a stored permit of \<open>conn_slot\<close>; \<open>MWaiters\<close>: the heartbeat wakes who waits there.\<close>

datatype main_event = MTimer | MSlot | MWaiters | MAccept bool

text \<open>The top of the accept loop.\<close>

definition loop_top :: "bool \<Rightarrow> splitter_main \<Rightarrow> splitter_main" where
  "loop_top shutdown m =
     (if shutdown then m\<lparr>mn_phase := Returned\<rparr>
      else if length (sp_conns (mn_sp m)) + sp_half_open (mn_sp m) \<ge> MAX_CONCURRENT_CONNS
      then m\<lparr>mn_phase := WantSlot\<rparr>
      else m\<lparr>mn_phase := Accepting\<rparr>)"

definition wait_poll :: "bool \<Rightarrow> instant \<Rightarrow> splitter_main \<Rightarrow> splitter_main" where
  "wait_poll shutdown now m =
     (if alive_count (sp_pool (mn_sp m)) \<noteq> 0 then loop_top shutdown m
      else if shutdown then m\<lparr>mn_phase := Returned\<rparr>
      else m\<lparr>mn_phase := Waiting (now + 100)\<rparr>)"

definition main_step :: "bool \<Rightarrow> instant \<Rightarrow> main_event \<Rightarrow> splitter_main \<Rightarrow> splitter_main" where
  "main_step shutdown now ev m =
     (case mn_phase m of
        Waiting wake \<Rightarrow> if ev = MTimer \<and> wake \<le> now then wait_poll shutdown now m else m
      | WantSlot \<Rightarrow>
          if ev = MSlot \<and> sp_slot (mn_sp m) then loop_top shutdown (m\<lparr>mn_sp := (mn_sp m)\<lparr>sp_slot := False\<rparr>\<rparr>)
          else if ev = MWaiters then loop_top shutdown m
          else m
      | Accepting \<Rightarrow>
          (case ev of
             MAccept True \<Rightarrow> loop_top shutdown (m\<lparr>mn_sp := (mn_sp m)\<lparr>sp_spawned := sp_spawned (mn_sp m) + 1\<rparr>\<rparr>)
           | MAccept False \<Rightarrow> m\<lparr>mn_phase := AcceptRetry (now + 100)\<rparr>
           | _ \<Rightarrow> m)
      | AcceptRetry wake \<Rightarrow> if ev = MTimer \<and> wake \<le> now then m\<lparr>mn_phase := Accepting\<rparr> else m
      | Returned \<Rightarrow> m)"

text \<open>The heartbeat task: \<open>None\<close> when it has ended, else when it wakes next.\<close>

definition heartbeat_task :: "nat \<Rightarrow> bool \<Rightarrow> instant \<Rightarrow> u64 \<Rightarrow> instant option \<times> sp \<Rightarrow> instant option \<times> sp" where
  "heartbeat_task interval_ms shutdown now now_ms t =
     (case t of
        (None, s) \<Rightarrow> (None, s)
      | (Some wake, s) \<Rightarrow>
          if now < wake then t
          else if shutdown then (None, s)
          else (Some (now + interval_ms), sp_heartbeat now now_ms s))"

subsection \<open>A listener of the reassembler\<close>

datatype listener_phase = LBinding | LAccepting | LRetry instant | LDied

datatype listener_event = LBound bool | LAccepted "nat option" | LTimer

definition listener_step :: "instant \<Rightarrow> u64 \<Rightarrow> listener_event \<Rightarrow> listener_phase \<times> rs \<Rightarrow> listener_phase \<times> rs" where
  "listener_step now now_ms ev t =
     (case t of
        (LBinding, s) \<Rightarrow>
          (case ev of LBound ok \<Rightarrow> (if ok then LAccepting else LDied, s) | _ \<Rightarrow> t)
      | (LAccepting, s) \<Rightarrow>
          (case ev of
             LAccepted (Some i) \<Rightarrow> (LAccepting, accept_link i now_ms s)
           | LAccepted None \<Rightarrow> (LRetry (now + 100), s)
           | _ \<Rightarrow> t)
      | (LRetry wake, s) \<Rightarrow> if ev = LTimer \<and> wake \<le> now then (LAccepting, s) else t
      | (LDied, s) \<Rightarrow> t)"

subsection \<open>Lemmas\<close>

text \<open>Time passes and each sleep is over exactly when its timer fires.\<close>

definition ring :: "sup_phase \<Rightarrow> sup_phase" where
  "ring p = (case p of Sleeping wake deadline \<Rightarrow> backoff_poll False wake deadline | _ \<Rightarrow> p)"

lemma write_all_Inr: "write_all bs s = (Inr u, s') \<Longrightarrow> s_out s' = s_out s @ bs \<and> s_in s' = s_in s"
  by (auto simp: write_all_def split: nat.splits)

lemma read_exact_Inr: "read_exact n s = (Inr bs, s') \<Longrightarrow> s_out s' = s_out s \<and> s_in s = bs @ s_in s' \<and> length bs = n"
  by (auto simp: read_exact_def split: if_splits)

lemma andthen_Inr_cases:
  assumes "andthen r k = (Inr v, s)"
  obtains u t where "r = (Inr u, t)" and "k u t = (Inr v, s)"
  using assms by (auto simp: andthen_def split: prod.splits sum.splits)

lemma drain_address_Inr: "drain_address a s = (Inr u, s') \<Longrightarrow> s_out s' = s_out s"
  by (auto simp: drain_address_def elim!: andthen_Inr_cases dest!: read_exact_Inr split: if_splits)

text \<open>
  A tunnel comes up only when the proxy chose no authentication, was asked for the tunnel's own target
  and port, and reported success.
\<close>

lemma establish_tunnel_asks:
  assumes "establish_tunnel timed_out target pt (Some s) = Some s'"
  shows "\<exists>a m h. encode_address target pt = Inr a \<and> \<not> timed_out
    \<and> s_out s' = s_out s @ [SOCKS_VERSION, 0x01, AUTH_NONE] @ [SOCKS_VERSION, CMD_CONNECT, 0x00] @ a
    \<and> m = [SOCKS_VERSION, AUTH_NONE] \<and> length h = 4 \<and> h ! 1 = REP_SUCCESS \<and> take 6 (s_in s) = m @ h"
proof -
  have "\<not> timed_out" and "\<exists>u. socks5_client_connect target pt s = (Inr u, s')"
    using assms by (auto simp: establish_tunnel_def split: if_splits prod.splits sum.splits)
  then obtain u where c: "socks5_client_connect target pt s = (Inr u, s')" by blast
  obtain s1 where w: "write_all [SOCKS_VERSION, 0x01, AUTH_NONE] s = (Inr (), s1)"
    and c1: "andthen (read_exact 2 s1) (\<lambda>resp s.
     if resp ! 0 \<noteq> SOCKS_VERSION then (Inl (ProxyNotSocks5 (resp ! 0)), s)
     else if resp ! 1 \<noteq> AUTH_NONE then (Inl (ProxyAuth (resp ! 1)), s)
     else
     (case encode_address target pt of
        Inl e \<Rightarrow> (Inl e, s)
      | Inr addr_bytes \<Rightarrow>
          andthen (write_all ([SOCKS_VERSION, CMD_CONNECT, 0x00] @ addr_bytes) s) (\<lambda>_ s.
          andthen (read_exact 4 s) (\<lambda>head s.
          if head ! 0 \<noteq> SOCKS_VERSION then (Inl BadReplyVersion, s)
          else if head ! 1 \<noteq> REP_SUCCESS then (Inl (ConnectFailed (head ! 1)), s)
          else drain_address (head ! 3) s)))) = (Inr u, s')"
    using c unfolding socks5_client_connect_def by (auto elim!: andthen_Inr_cases)
  from c1 obtain m s2 a s3 h s4 where r: "read_exact 2 s1 = (Inr m, s2)" "m ! 0 = SOCKS_VERSION" "m ! 1 = AUTH_NONE"
    and a: "encode_address target pt = Inr a" "write_all ([SOCKS_VERSION, CMD_CONNECT, 0x00] @ a) s2 = (Inr (), s3)"
    and h: "read_exact 4 s3 = (Inr h, s4)" "h ! 1 = REP_SUCCESS" "drain_address (h ! 3) s4 = (Inr u, s')"
    by (auto elim!: andthen_Inr_cases split: if_splits sum.splits)
  have "m = [SOCKS_VERSION, AUTH_NONE]" using read_exact_Inr [OF r(1)] r(2,3)
    by (auto simp: numeral_2_eq_2 length_Suc_conv)
  moreover have "s_in s = m @ h @ s_in s4" "length m = 2" "length h = 4"
    using write_all_Inr [OF w] read_exact_Inr [OF r(1)] write_all_Inr [OF a(2)] read_exact_Inr [OF h(1)] by simp_all
  moreover have "s_out s' = s_out s @ [SOCKS_VERSION, 0x01, AUTH_NONE] @ [SOCKS_VERSION, CMD_CONNECT, 0x00] @ a"
    using write_all_Inr [OF w] read_exact_Inr [OF r(1)] write_all_Inr [OF a(2)] read_exact_Inr [OF h(1)]
      drain_address_Inr [OF h(3)] by simp
  ultimately show ?thesis using a(1) h(2) \<open>\<not> timed_out\<close> by (intro exI [of _ a] exI [of _ m] exI [of _ h]) simp
qed

lemma ring_backoff:
  "(ring ^^ n) (backoff_poll False now (now + 1000 * d))
     = (if n < d then Sleeping (now + 1000 * Suc n) (now + 1000 * d) else Connecting)"
proof (induction n)
  case 0
  then show ?case by (cases d) (simp_all add: backoff_poll_def Let_def)
next
  case (Suc n)
  show ?case
  proof (cases "n < d")
    case True
    then obtain r where d: "d = Suc n + r" using less_iff_Suc_add by auto
    have "ring (Sleeping (now + 1000 * Suc n) (now + 1000 * d))
        = (if Suc n < d then Sleeping (now + 1000 * Suc (Suc n)) (now + 1000 * d) else Connecting)"
      by (simp add: ring_def backoff_poll_def d Let_def)
    then show ?thesis using Suc.IH True by simp
  next
    case False
    then show ?thesis using Suc.IH by (simp add: ring_def)
  qed
qed

text \<open>A sleep is never longer than a second from the last step.\<close>

definition sup_ok :: "instant \<Rightarrow> sup \<Rightarrow> bool" where
  "sup_ok now s \<longleftrightarrow> (\<forall>wake deadline. su_phase s = Sleeping wake deadline \<longrightarrow> wake \<le> now + 1000)"

lemma sup_step_ok: "sup_ok t s \<Longrightarrow> t \<le> now \<Longrightarrow> sup_ok now (sup_step shutdown now ev s)"
  by (auto simp: sup_step_def after_attempt_def backoff_poll_def sup_ok_def Let_def
      split: sup_phase.splits sup_event.splits if_splits)

fun sup_run :: "instant \<Rightarrow> (bool \<times> nat \<times> sup_event) list \<Rightarrow> sup \<Rightarrow> instant \<times> sup" where
  "sup_run t [] s = (t, s)"
| "sup_run t ((shutdown, dt, ev) # evs) s = sup_run (t + dt) evs (sup_step shutdown (t + dt) ev s)"

lemma sup_run_ok: "sup_ok t s \<Longrightarrow> sup_run t evs s = (t', s') \<Longrightarrow> sup_ok t' s'"
proof (induction t evs s rule: sup_run.induct)
  case (2 t shutdown dt ev evs s)
  then show ?case using sup_step_ok [of t s "t + dt" shutdown ev] by simp
qed simp

lemma main_stuck:
  assumes "mn_phase m = Accepting \<or> (\<exists>w. mn_phase m = AcceptRetry w)" and "MAccept True \<notin> snd ` set evs"
  shows "mn_phase (fold (\<lambda>(now, ev). main_step True now ev) evs m) = Accepting
    \<or> (\<exists>w. mn_phase (fold (\<lambda>(now, ev). main_step True now ev) evs m) = AcceptRetry w)"
  using assms
proof (induction evs arbitrary: m)
  case (Cons e evs)
  obtain now ev where e: "e = (now, ev)" by force
  have "mn_phase (main_step True now ev m) = Accepting \<or> (\<exists>w. mn_phase (main_step True now ev m) = AcceptRetry w)"
    using Cons.prems e by (auto simp: main_step_def split: main_event.splits bool.splits if_splits)
  then show ?case using Cons e by simp
qed simp

subsection \<open>Properties\<close>



text \<open>
  C37. The shutdown flag does not reach the accept loop.  The main task leaves its wait for the first
  tunnel at the next poll after the flag is set; but once it is in \<open>accept\<close>, or retries after an
  error, it stays there whatever happens, until one more client connects.
\<close>

theorem accept_ignores_shutdown:
  "(mn_phase m = Waiting wake \<and> wake \<le> now \<longrightarrow> mn_phase (main_step True now MTimer m) = Returned)
    \<and> (mn_phase m = Accepting \<and> MAccept True \<notin> snd ` set evs
        \<longrightarrow> mn_phase (fold (\<lambda>(now, ev). main_step True now ev) evs m) \<noteq> Returned)"
  using main_stuck [of m evs] by (auto simp: main_step_def wait_poll_def loop_top_def)

theorem accept_ignores_shutdown_witness:
  "mn_phase (fold (\<lambda>(now, ev). main_step True now ev) [(0, MAccept False), (100, MTimer), (200, MWaiters)]
     \<lparr>mn_phase = Accepting, mn_sp = sp_init 100 1000\<rparr>) \<noteq> Returned"
  using accept_ignores_shutdown [of "\<lparr>mn_phase = Accepting, mn_sp = sp_init 100 1000\<rparr>" 0 0
      "[(0, MAccept False), (100, MTimer), (200, MWaiters)]"] by simp

end
