(* ===== verification/Config.thy ===== *)
theory Config
  imports Frame NetAddr
begin

text \<open>
  Configuration and startup: \<open>src/src/config.rs\<close> and the mode dispatch of \<open>src/src/main.rs\<close>.

  The TOML text is parsed by the toml crate with the code that serde derives; what it yields is a
  \<open>raw\<close> record whose missing keys are \<open>None\<close>, and \<open>fill_splitter\<close>, \<open>fill_reassembler\<close> put in the
  defaults that the source names.  A Rust string is its list of Unicode scalar values (\<open>ustr\<close>).
\<close>

type_synonym ustr = "nat list"

abbreviation lit :: "string \<Rightarrow> ustr" where "lit s \<equiv> map of_char s"

subsection \<open>Schema and defaults\<close>

record tunnel_cfg =
  tn_proxy :: socket_addr
  tn_target :: ustr
  tn_port :: u16

datatype ports_cfg = Range ustr | PortList "u16 list"

record splitter_cfg =
  sl_listen :: socket_addr
  sl_chunk_size :: nat
  sl_tunnel :: "tunnel_cfg list"
  sl_data_send_timeout_secs :: u64
  sl_heartbeat_secs :: u64
  sl_reorder_window_bytes :: u64

record reassembler_cfg =
  ra_listen :: ip_addr
  ra_ports :: ports_cfg
  ra_local_target :: socket_addr
  ra_chunk_size :: nat
  ra_data_send_timeout_secs :: u64
  ra_heartbeat_secs :: u64
  ra_reorder_window_bytes :: u64

record config =
  cf_mode :: ustr
  cf_log :: bool
  cf_splitter :: "splitter_cfg option"
  cf_reassembler :: "reassembler_cfg option"

definition default_true :: bool where "default_true = True"
definition default_data_send_timeout :: u64 where "default_data_send_timeout = 30"
definition default_heartbeat :: u64 where "default_heartbeat = 60"
definition default_reorder_window :: u64 where "default_reorder_window = 64 * 1024 * 1024"
definition default_listen_ip :: ip_addr where "default_listen_ip = V4 [127, 0, 0, 1]"
definition default_chunk :: nat where "default_chunk = 65535"
definition default_splitter_listen :: socket_addr where
  "default_splitter_listen = \<lparr>sa_ip = V4 [127, 0, 0, 1], sa_port = 52310\<rparr>"
definition default_reassembler_ports :: ports_cfg where
  "default_reassembler_ports = Range (lit ''52311-52319'')"
definition default_local_target :: socket_addr where
  "default_local_target = \<lparr>sa_ip = V4 [127, 0, 0, 1], sa_port = 52310\<rparr>"

record raw_splitter =
  rw_listen :: "socket_addr option"
  rw_chunk_size :: "nat option"
  rw_tunnel :: "tunnel_cfg list"
  rw_data_send_timeout_secs :: "u64 option"
  rw_heartbeat_secs :: "u64 option"
  rw_reorder_window_bytes :: "u64 option"

record raw_reassembler =
  rr_listen :: "ip_addr option"
  rr_ports :: "ports_cfg option"
  rr_local_target :: "socket_addr option"
  rr_chunk_size :: "nat option"
  rr_data_send_timeout_secs :: "u64 option"
  rr_heartbeat_secs :: "u64 option"
  rr_reorder_window_bytes :: "u64 option"

definition or_default :: "'a \<Rightarrow> 'a option \<Rightarrow> 'a" where
  "or_default d x = (case x of Some v \<Rightarrow> v | None \<Rightarrow> d)"

definition fill_splitter :: "raw_splitter \<Rightarrow> splitter_cfg" where
  "fill_splitter r =
     \<lparr>sl_listen = or_default default_splitter_listen (rw_listen r),
      sl_chunk_size = or_default default_chunk (rw_chunk_size r),
      sl_tunnel = rw_tunnel r,
      sl_data_send_timeout_secs = or_default default_data_send_timeout (rw_data_send_timeout_secs r),
      sl_heartbeat_secs = or_default default_heartbeat (rw_heartbeat_secs r),
      sl_reorder_window_bytes = or_default default_reorder_window (rw_reorder_window_bytes r)\<rparr>"

definition fill_reassembler :: "raw_reassembler \<Rightarrow> reassembler_cfg" where
  "fill_reassembler r =
     \<lparr>ra_listen = or_default default_listen_ip (rr_listen r),
      ra_ports = or_default default_reassembler_ports (rr_ports r),
      ra_local_target = or_default default_local_target (rr_local_target r),
      ra_chunk_size = or_default default_chunk (rr_chunk_size r),
      ra_data_send_timeout_secs = or_default default_data_send_timeout (rr_data_send_timeout_secs r),
      ra_heartbeat_secs = or_default default_heartbeat (rr_heartbeat_secs r),
      ra_reorder_window_bytes = or_default default_reorder_window (rr_reorder_window_bytes r)\<rparr>"

subsection \<open>Validation\<close>

datatype int_error = IntEmpty | InvalidDigit | PosOverflow

datatype config_error =
    ChunkSize
  | ZeroSecs string
  | WindowBelowChunk
  | WindowAboveCap
  | TunnelPortZero
  | ProxyPortZero
  | BadPort int_error
  | StartAfterEnd
  | RangeTooLong nat
  | ListTooLong nat
  | PortZero
  | NoPorts
  | MissingSection string
  | NoTunnels
  | UnknownMode ustr
  | NoConfigFile
  | ReadFailed

definition validate_secs :: "string \<Rightarrow> u64 \<Rightarrow> config_error + unit" where
  "validate_secs nm secs = (if secs = 0 then Inl (ZeroSecs nm) else Inr ())"

definition validate_reorder_window :: "u64 \<Rightarrow> u64 \<Rightarrow> config_error + unit" where
  "validate_reorder_window bs chunk_size =
     (if bs < chunk_size then Inl WindowBelowChunk
      else if bs > 1024 * 1024 * 1024 then Inl WindowAboveCap
      else Inr ())"

definition validate_splitter :: "splitter_cfg \<Rightarrow> config_error + unit" where
  "validate_splitter c =
     (if sl_chunk_size c < MIN_CHUNK \<or> sl_chunk_size c > MAX_CHUNK then Inl ChunkSize
      else case validate_secs ''splitter.data_send_timeout_secs'' (sl_data_send_timeout_secs c) of
        Inl e \<Rightarrow> Inl e
      | Inr _ \<Rightarrow>
          (case validate_secs ''splitter.heartbeat_secs'' (sl_heartbeat_secs c) of
             Inl e \<Rightarrow> Inl e
           | Inr _ \<Rightarrow>
               (case validate_reorder_window (sl_reorder_window_bytes c) (word_of_nat (sl_chunk_size c)) of
                  Inl e \<Rightarrow> Inl e
                | Inr _ \<Rightarrow>
                    if list_ex (\<lambda>t. tn_port t = 0) (sl_tunnel c) then Inl TunnelPortZero
                    else if list_ex (\<lambda>t. sa_port (tn_proxy t) = 0) (sl_tunnel c) then Inl ProxyPortZero
                    else Inr ())))"

definition validate_reassembler :: "reassembler_cfg \<Rightarrow> config_error + unit" where
  "validate_reassembler c =
     (if ra_chunk_size c < MIN_CHUNK \<or> ra_chunk_size c > MAX_CHUNK then Inl ChunkSize
      else case validate_secs ''reassembler.data_send_timeout_secs'' (ra_data_send_timeout_secs c) of
        Inl e \<Rightarrow> Inl e
      | Inr _ \<Rightarrow>
          (case validate_secs ''reassembler.heartbeat_secs'' (ra_heartbeat_secs c) of
             Inl e \<Rightarrow> Inl e
           | Inr _ \<Rightarrow> validate_reorder_window (ra_reorder_window_bytes c) (word_of_nat (ra_chunk_size c))))"

subsection \<open>Ports\<close>

text \<open>\<open>char::is_whitespace\<close> (the Unicode property White_Space) and \<open>str::trim\<close>.\<close>

definition is_whitespace :: "nat \<Rightarrow> bool" where
  "is_whitespace c \<longleftrightarrow> (9 \<le> c \<and> c \<le> 13) \<or> c \<in> {0x20, 0x85, 0xA0, 0x1680} \<or> (0x2000 \<le> c \<and> c \<le> 0x200A)
     \<or> c \<in> {0x2028, 0x2029, 0x202F, 0x205F, 0x3000}"

definition trim :: "ustr \<Rightarrow> ustr" where
  "trim s = rev (dropWhile is_whitespace (rev (dropWhile is_whitespace s)))"

definition split_once :: "nat \<Rightarrow> ustr \<Rightarrow> (ustr \<times> ustr) option" where
  "split_once c s =
     (case dropWhile (\<lambda>x. x \<noteq> c) s of [] \<Rightarrow> None | _ # r \<Rightarrow> Some (takeWhile (\<lambda>x. x \<noteq> c) s, r))"

text \<open>\<open>u16::from_str\<close>: an optional plus sign and decimal digits, checked for overflow.\<close>

fun u16_digits :: "nat \<Rightarrow> ustr \<Rightarrow> int_error + u16" where
  "u16_digits acc [] = Inr (word_of_nat acc)"
| "u16_digits acc (c # cs) =
     (if c < 48 \<or> 57 < c then Inl InvalidDigit
      else if acc * 10 + (c - 48) > 65535 then Inl PosOverflow
      else u16_digits (acc * 10 + (c - 48)) cs)"

definition parse_u16 :: "ustr \<Rightarrow> int_error + u16" where
  "parse_u16 s =
     (if s = [] then Inl IntEmpty
      else if s = [43] \<or> s = [45] then Inl InvalidDigit
      else u16_digits 0 (if hd s = 43 then tl s else s))"

definition MAX_PORTS :: nat where "MAX_PORTS = 256"

definition read_ports :: "ports_cfg \<Rightarrow> config_error + u16 list" where
  "read_ports ports =
     (case ports of
        PortList v \<Rightarrow> Inr v
      | Range s \<Rightarrow>
          (case split_once 45 s of
             Some (a, b) \<Rightarrow>
               (case parse_u16 (trim a) of
                  Inl e \<Rightarrow> Inl (BadPort e)
                | Inr start \<Rightarrow>
                    (case parse_u16 (trim b) of
                       Inl e \<Rightarrow> Inl (BadPort e)
                     | Inr stop \<Rightarrow>
                         if start > stop then Inl StartAfterEnd
                         else let count = unat stop - unat start + 1
                              in if count > MAX_PORTS then Inl (RangeTooLong count)
                                 else Inr (map word_of_nat [unat start..<Suc (unat stop)])))
           | None \<Rightarrow>
               (case parse_u16 (trim s) of Inl e \<Rightarrow> Inl (BadPort e) | Inr p \<Rightarrow> Inr [p])))"

text \<open>\<open>out.retain(|p| seen.insert(*p))\<close>.\<close>

fun retain_unseen :: "u16 list \<Rightarrow> u16 list \<Rightarrow> u16 list" where
  "retain_unseen seen [] = []"
| "retain_unseen seen (p # ps) =
     (if p \<in> set seen then retain_unseen seen ps else p # retain_unseen (p # seen) ps)"

definition parse_ports :: "ports_cfg \<Rightarrow> config_error + u16 list" where
  "parse_ports ports =
     (case read_ports ports of
        Inl e \<Rightarrow> Inl e
      | Inr ps \<Rightarrow>
          if length ps > MAX_PORTS then Inl (ListTooLong (length ps))
          else if 0 \<in> set ps then Inl PortZero
          else let out = retain_unseen [] ps
               in if out = [] then Inl NoPorts else Inr out)"

subsection \<open>Startup\<close>

text \<open>\<open>find_config\<close>: for each name the directory of the executable (if known), then the working directory.\<close>

datatype file_state = NoFile | Unreadable | Readable bytes

fun find_config_in :: "(string \<Rightarrow> file_state) option \<Rightarrow> (string \<Rightarrow> file_state) \<Rightarrow> string list \<Rightarrow> config_error + bytes" where
  "find_config_in exe_dir cwd [] = Inl NoConfigFile"
| "find_config_in exe_dir cwd (nm # nms) =
     (case (case exe_dir of Some dir \<Rightarrow> dir nm | None \<Rightarrow> NoFile) of
        Readable t \<Rightarrow> Inr t
      | Unreadable \<Rightarrow> Inl ReadFailed
      | NoFile \<Rightarrow>
          (case cwd nm of
             Readable t \<Rightarrow> Inr t
           | Unreadable \<Rightarrow> Inl ReadFailed
           | NoFile \<Rightarrow> find_config_in exe_dir cwd nms))"

definition find_config :: "(string \<Rightarrow> file_state) option \<Rightarrow> (string \<Rightarrow> file_state) \<Rightarrow> config_error + bytes" where
  "find_config exe_dir cwd = find_config_in exe_dir cwd [''config.toml'', ''round_robin.toml'']"

record splitter_run =
  sr_listen_addr :: socket_addr
  sr_tunnels :: "tunnel_cfg list"
  sr_chunk_size :: nat
  sr_heartbeat_interval :: nat
  sr_data_send_timeout :: nat
  sr_reorder_window_bytes :: nat

record reassembler_run =
  rn_listen_ip :: ip_addr
  rn_listen_ports :: "u16 list"
  rn_local_target :: socket_addr
  rn_chunk_size :: nat
  rn_data_send_timeout :: nat
  rn_heartbeat_interval :: nat
  rn_reorder_window_bytes :: nat

datatype program = RunSplitter splitter_run | RunReassembler reassembler_run

definition start_splitter :: "splitter_cfg \<Rightarrow> config_error + program" where
  "start_splitter sc =
     (case validate_splitter sc of
        Inl e \<Rightarrow> Inl e
      | Inr _ \<Rightarrow>
          if sl_tunnel sc = [] then Inl NoTunnels
          else Inr (RunSplitter
                 \<lparr>sr_listen_addr = sl_listen sc, sr_tunnels = sl_tunnel sc, sr_chunk_size = sl_chunk_size sc,
                  sr_heartbeat_interval = unat (sl_heartbeat_secs sc),
                  sr_data_send_timeout = unat (sl_data_send_timeout_secs sc),
                  sr_reorder_window_bytes = unat (sl_reorder_window_bytes sc)\<rparr>))"

definition start_reassembler :: "reassembler_cfg \<Rightarrow> config_error + program" where
  "start_reassembler rc =
     (case validate_reassembler rc of
        Inl e \<Rightarrow> Inl e
      | Inr _ \<Rightarrow>
          (case parse_ports (ra_ports rc) of
             Inl e \<Rightarrow> Inl e
           | Inr ps \<Rightarrow>
               Inr (RunReassembler
                 \<lparr>rn_listen_ip = ra_listen rc, rn_listen_ports = ps, rn_local_target = ra_local_target rc,
                  rn_chunk_size = ra_chunk_size rc,
                  rn_data_send_timeout = unat (ra_data_send_timeout_secs rc),
                  rn_heartbeat_interval = unat (ra_heartbeat_secs rc),
                  rn_reorder_window_bytes = unat (ra_reorder_window_bytes rc)\<rparr>)))"

definition main_start :: "config \<Rightarrow> config_error + program" where
  "main_start cfg =
     (if cf_mode cfg = lit ''splitter'' then
        (case cf_splitter cfg of None \<Rightarrow> Inl (MissingSection ''splitter'') | Some sc \<Rightarrow> start_splitter sc)
      else if cf_mode cfg = lit ''reassembler'' then
        (case cf_reassembler cfg of None \<Rightarrow> Inl (MissingSection ''reassembler'') | Some rc \<Rightarrow> start_reassembler rc)
      else Inl (UnknownMode (cf_mode cfg)))"

text \<open>
  The startup banner: the address and the number of tunnels or ports it shows, and whether the invalid
  ports are warned about.  It is logged before the configuration is checked.
\<close>

definition show_socket_addr :: "socket_addr \<Rightarrow> bytes" where
  "show_socket_addr a =
     (case sa_ip a of
        V4 os \<Rightarrow> show_ipv4 os @ [58] @ show_dec (unat (sa_port a))
      | V6 gs \<Rightarrow> [91] @ show_ipv6 gs @ [93, 58] @ show_dec (unat (sa_port a)))"

definition banner :: "config \<Rightarrow> bytes \<times> nat \<times> bool" where
  "banner cfg =
     (if cf_mode cfg = lit ''splitter'' then
        (case cf_splitter cfg of
           None \<Rightarrow> ([], 0, False)
         | Some sc \<Rightarrow> (show_socket_addr (sl_listen sc), length (sl_tunnel sc), False))
      else if cf_mode cfg = lit ''reassembler'' then
        (case cf_reassembler cfg of
           None \<Rightarrow> ([], 0, False)
         | Some rc \<Rightarrow>
             (case parse_ports (ra_ports rc) of
                Inr ps \<Rightarrow> (show_socket_addr (ra_local_target rc), length ps, False)
              | Inl e \<Rightarrow> (show_socket_addr (ra_local_target rc), 0, True)))
      else ([], 0, False))"

subsection \<open>Lemmas: ports\<close>

lemma retain_unseen_set: "set (retain_unseen seen ps) = set ps - set seen"
  by (induction ps arbitrary: seen) auto

lemma retain_unseen_distinct: "distinct (retain_unseen seen ps)"
  by (induction ps arbitrary: seen) (auto simp: retain_unseen_set)

lemma retain_unseen_length: "length (retain_unseen seen ps) \<le> length ps"
  by (induction ps arbitrary: seen) (auto intro: le_SucI)

lemma retain_unseen_id: "distinct ps \<Longrightarrow> set ps \<inter> set seen = {} \<Longrightarrow> retain_unseen seen ps = ps"
  by (induction ps arbitrary: seen) auto

lemma u16_digits_append:
  "u16_digits acc (xs @ ys) = (case u16_digits acc xs of Inl e \<Rightarrow> Inl e | Inr v \<Rightarrow> u16_digits (unat v) ys)"
  if "acc \<le> 65535"
  using that by (induction acc xs rule: u16_digits.induct) (auto simp: unat_of_nat)

lemma u16_digits_show:
  assumes "n \<le> 65535"
  shows "u16_digits 0 (map unat (show_dec n)) = Inr (word_of_nat n)"
  using assms
proof (induction n rule: less_induct)
  case (less n)
  show ?case
  proof (cases "n < 10")
    case True
    then show ?thesis by (simp add: show_dec_def show_radix.simps digit_char_dec)
  next
    case False
    then have "u16_digits 0 (map unat (show_dec (n div 10))) = Inr (word_of_nat (n div 10))" using less by simp
    then show ?thesis using False less.prems
      by (simp add: show_dec_def show_radix.simps [of 10 n] u16_digits_append digit_char_dec unat_of_nat)
  qed
qed

lemma show_dec_code:
  assumes "c \<in> set (map unat (show_dec n))"
  shows "48 \<le> c \<and> c \<le> 57"
  using assms show_dec_digits [of n] by (auto simp: word_le_nat_alt)

lemma parse_u16_show: "n \<le> 65535 \<Longrightarrow> parse_u16 (map unat (show_dec n)) = Inr (word_of_nat n)"
proof -
  assume n: "n \<le> 65535"
  let ?s = "map unat (show_dec n)"
  have "?s \<noteq> []" using show_dec_digits [of n] by simp
  moreover have "43 \<notin> set ?s" "45 \<notin> set ?s" using show_dec_code [of 43 n] show_dec_code [of 45 n] by auto
  moreover from calculation have "hd ?s \<noteq> 43" by (metis list.set_sel(1))
  ultimately show ?thesis using u16_digits_show [OF n] by (auto simp: parse_u16_def)
qed

lemma trim_pad:
  assumes "list_all is_whitespace ws" and "list_all is_whitespace ws'" and "s \<noteq> []"
    and "\<not> is_whitespace (hd s)" and "\<not> is_whitespace (last s)"
  shows "trim (ws @ s @ ws') = s"
proof -
  have "dropWhile is_whitespace (ws @ s @ ws') = s @ ws'"
    using assms(1,3,4) by (cases s) (simp_all add: list_all_iff)
  moreover have "dropWhile is_whitespace (rev s) = rev s"
    using assms(3,5) by (cases "rev s") (auto simp: hd_rev [symmetric])
  moreover have "dropWhile is_whitespace (rev ws' @ rev s) = dropWhile is_whitespace (rev s)"
    by (rule dropWhile_append2) (use assms(2) in \<open>simp add: list_all_iff\<close>)
  ultimately show ?thesis by (simp add: trim_def)
qed

lemma show_dec_no_space:
  "\<not> is_whitespace (hd (map unat (show_dec n)))" "\<not> is_whitespace (last (map unat (show_dec n)))"
proof -
  let ?s = "map unat (show_dec n)"
  have w: "\<not> is_whitespace c" if "c \<in> set ?s" for c using show_dec_code [OF that] by (auto simp: is_whitespace_def)
  have "?s \<noteq> []" using show_dec_digits [of n] by simp
  then show "\<not> is_whitespace (hd ?s)" "\<not> is_whitespace (last ?s)" using w by (metis list.set_sel(1), metis last_in_set)
qed

lemma parse_padded:
  assumes "n \<le> 65535" and "list_all is_whitespace ws" and "list_all is_whitespace ws'"
  shows "parse_u16 (trim (ws @ map unat (show_dec n) @ ws')) = Inr (word_of_nat n)"
proof -
  have "map unat (show_dec n) \<noteq> []" using show_dec_digits [of n] by simp
  then have "trim (ws @ map unat (show_dec n) @ ws') = map unat (show_dec n)"
    by (rule trim_pad [OF assms(2,3)]) (rule show_dec_no_space)+
  then show ?thesis by (simp add: parse_u16_show [OF assms(1)])
qed

lemma no_minus:
  assumes "list_all is_whitespace ws" and "list_all is_whitespace ws'"
  shows "45 \<notin> set (ws @ map unat (show_dec n) @ ws')"
  using assms show_dec_code [of 45 n] by (auto simp: list_all_iff is_whitespace_def)

lemma split_once_at: "c \<notin> set a \<Longrightarrow> split_once c (a @ c # b) = Some (a, b)"
proof -
  assume "c \<notin> set a"
  then have "\<And>x. x \<in> set a \<Longrightarrow> x \<noteq> c" by auto
  then show ?thesis by (simp add: split_once_def)
qed

subsection \<open>Lemmas: validation\<close>

lemma validate_secs_ok: "validate_secs nm n = Inr u \<longleftrightarrow> 0 < unat n"
  by (cases u) (simp add: validate_secs_def unat_gt_0)

lemma validate_window_ok:
  assumes "k \<le> MAX_CHUNK" and "validate_reorder_window b (word_of_nat k) = Inr u"
  shows "k \<le> unat b \<and> unat b \<le> 2 ^ 30"
  using assms by (auto simp: validate_reorder_window_def MAX_CHUNK_def word_le_nat_alt word_less_nat_alt unat_of_nat
      split: if_splits)

lemma validate_splitter_ok:
  assumes "validate_splitter c = Inr u"
  shows "MIN_CHUNK \<le> sl_chunk_size c \<and> sl_chunk_size c \<le> MAX_PAYLOAD
    \<and> sl_chunk_size c \<le> unat (sl_reorder_window_bytes c) \<and> unat (sl_reorder_window_bytes c) \<le> 2 ^ 30
    \<and> 0 < unat (sl_heartbeat_secs c) \<and> 0 < unat (sl_data_send_timeout_secs c)
    \<and> (\<forall>t \<in> set (sl_tunnel c). tn_port t \<noteq> 0 \<and> sa_port (tn_proxy t) \<noteq> 0)"
proof -
  from assms have k: "MIN_CHUNK \<le> sl_chunk_size c" "sl_chunk_size c \<le> MAX_CHUNK"
    and w: "validate_reorder_window (sl_reorder_window_bytes c) (word_of_nat (sl_chunk_size c)) = Inr ()"
    and s: "validate_secs ''splitter.heartbeat_secs'' (sl_heartbeat_secs c) = Inr ()"
      "validate_secs ''splitter.data_send_timeout_secs'' (sl_data_send_timeout_secs c) = Inr ()"
    and t: "\<forall>t \<in> set (sl_tunnel c). tn_port t \<noteq> 0 \<and> sa_port (tn_proxy t) \<noteq> 0"
    by (auto simp: validate_splitter_def list_ex_iff split: if_splits sum.splits)
  have "MAX_CHUNK \<le> MAX_PAYLOAD" by (simp add: MAX_CHUNK_def MAX_PAYLOAD_def)
  then show ?thesis using k t s validate_window_ok [OF k(2) w] by (auto simp: validate_secs_ok)
qed

lemma validate_reassembler_ok:
  assumes "validate_reassembler c = Inr u"
  shows "MIN_CHUNK \<le> ra_chunk_size c \<and> ra_chunk_size c \<le> MAX_PAYLOAD
    \<and> ra_chunk_size c \<le> unat (ra_reorder_window_bytes c) \<and> unat (ra_reorder_window_bytes c) \<le> 2 ^ 30
    \<and> 0 < unat (ra_heartbeat_secs c) \<and> 0 < unat (ra_data_send_timeout_secs c)"
proof -
  from assms have k: "MIN_CHUNK \<le> ra_chunk_size c" "ra_chunk_size c \<le> MAX_CHUNK"
    and w: "validate_reorder_window (ra_reorder_window_bytes c) (word_of_nat (ra_chunk_size c)) = Inr ()"
    and s: "validate_secs ''reassembler.heartbeat_secs'' (ra_heartbeat_secs c) = Inr ()"
      "validate_secs ''reassembler.data_send_timeout_secs'' (ra_data_send_timeout_secs c) = Inr ()"
    by (auto simp: validate_reassembler_def split: if_splits sum.splits)
  have "MAX_CHUNK \<le> MAX_PAYLOAD" by (simp add: MAX_CHUNK_def MAX_PAYLOAD_def)
  then show ?thesis using k s validate_window_ok [OF k(2) w] by (auto simp: validate_secs_ok)
qed

lemma parse_ports_ok:
  assumes "parse_ports ports = Inr out"
  obtains ps where "read_ports ports = Inr ps" "set out = set ps" "distinct out" "length out \<le> 256" "0 \<notin> set ps" "out \<noteq> []"
proof -
  from assms obtain ps where ps: "read_ports ports = Inr ps" "length ps \<le> MAX_PORTS" "0 \<notin> set ps"
    "out = retain_unseen [] ps" "out \<noteq> []"
    by (auto simp: parse_ports_def Let_def split: sum.splits if_splits)
  then show ?thesis
    using retain_unseen_set [of "[]" ps] retain_unseen_distinct [of "[]" ps] retain_unseen_length [of "[]" ps]
    by (intro that [of ps]) (simp_all add: MAX_PORTS_def)
qed

subsection \<open>The defaults\<close>

text \<open>A reassembler section with nothing in it.\<close>

definition example_cfg :: config where
  "example_cfg = \<lparr>cf_mode = lit ''reassembler'', cf_log = default_true, cf_splitter = None,
     cf_reassembler = Some (fill_reassembler \<lparr>rr_listen = None, rr_ports = None, rr_local_target = None,
       rr_chunk_size = None, rr_data_send_timeout_secs = None, rr_heartbeat_secs = None,
       rr_reorder_window_bytes = None\<rparr>)\<rparr>"

lemma default_ports: "parse_ports default_reassembler_ports = Inr (map word_of_nat [52311..<52320])"
proof -
  have "read_ports default_reassembler_ports = Inr (map word_of_nat [52311..<52320])"
    by (simp add: read_ports_def default_reassembler_ports_def split_once_def trim_def is_whitespace_def parse_u16_def
        word_less_nat_alt MAX_PORTS_def)
  then show ?thesis by (simp add: parse_ports_def MAX_PORTS_def Let_def)
qed

lemma example_starts: "\<exists>c. main_start example_cfg = Inr (RunReassembler c)"
  by (simp add: main_start_def example_cfg_def start_reassembler_def validate_reassembler_def fill_reassembler_def
      or_default_def validate_secs_def validate_reorder_window_def default_chunk_def default_data_send_timeout_def
      default_heartbeat_def default_reorder_window_def default_ports MIN_CHUNK_def MAX_CHUNK_def)

subsection \<open>Properties\<close>

text \<open>
  A port range means what it says: the text of two port numbers, with any white space around
  them, is read as the list of all ports from the first to the second, in order, whenever the
  range is in order, does not contain port 0 and has at most 256 ports.
\<close>

theorem parse_ports_range:
  assumes "0 < a" and "a \<le> b" and "b \<le> 65535" and "b - a < 256"
    and "list_all is_whitespace w1" and "list_all is_whitespace w2"
    and "list_all is_whitespace w3" and "list_all is_whitespace w4"
  shows "parse_ports (Range (w1 @ map unat (show_dec a) @ w2 @ 45 # w3 @ map unat (show_dec b) @ w4))
    = Inr (map word_of_nat [a..<Suc b])"
proof -
  let ?ps = "map (word_of_nat :: nat \<Rightarrow> u16) [a..<Suc b]"
  have u: "unat (word_of_nat n :: u16) = n" if "n \<le> 65535" for n using that by (simp add: unat_of_nat)
  have inj: "inj_on (word_of_nat :: nat \<Rightarrow> u16) {a..<Suc b}" by (rule inj_onI) (metis u assms(3) atLeastLessThan_iff le_trans less_Suc_eq_le)
  have le: "\<not> (word_of_nat b :: u16) < word_of_nat a" using assms(2,3) u by (simp add: word_less_nat_alt)
  have rd: "read_ports (Range (w1 @ map unat (show_dec a) @ w2 @ 45 # w3 @ map unat (show_dec b) @ w4)) = Inr ?ps"
    using split_once_at [OF no_minus [OF assms(5,6), of a], of "w3 @ map unat (show_dec b) @ w4"]
      parse_padded [OF _ assms(5,6), of a] parse_padded [OF assms(3,7,8)] assms(2-4) le u [of a] u [of b]
    by (simp add: read_ports_def Let_def MAX_PORTS_def)
  have "0 \<notin> set ?ps"
  proof
    assume "0 \<in> set ?ps"
    then obtain n where "a \<le> n" "n \<le> b" "(word_of_nat n :: u16) = 0" by auto
    then show False using u [of n] assms(1,3) by simp
  qed
  moreover have "distinct ?ps" using inj by (simp add: distinct_map del: upt_Suc)
  ultimately show ?thesis
    using rd assms(2,4) by (simp add: parse_ports_def Let_def MAX_PORTS_def retain_unseen_id del: upt_Suc)
qed

theorem parse_ports_range_witness:
  "parse_ports (Range (map unat (show_dec 80) @ [32] @ 45 # map unat (show_dec 82))) = Inr [80, 81, 82]"
  using parse_ports_range [of 80 82 "[]" "[32]" "[]" "[]"] by (simp add: is_whitespace_def upt_rec)

text \<open>
  C39. Whatever the configuration says, the ports that the reassembler listens on are distinct (no
  listener fails on a port that another has taken), none is 0, there are between 1 and 256, and an
  explicit list is kept as a set.
\<close>

theorem parse_ports_sound:
  assumes "parse_ports ports = Inr out"
  shows "distinct out \<and> 0 \<notin> set out \<and> 1 \<le> length out \<and> length out \<le> 256
    \<and> (\<forall>v. ports = PortList v \<longrightarrow> set out = set v)"
proof -
  obtain ps where ps: "read_ports ports = Inr ps" "set out = set ps" "distinct out" "length out \<le> 256"
    "0 \<notin> set ps" "out \<noteq> []" by (rule parse_ports_ok [OF assms])
  have "ps = v" if "ports = PortList v" for v using ps(1) that by (simp add: read_ports_def)
  with ps show ?thesis by (simp add: Suc_le_eq)
qed

theorem parse_ports_sound_witness: "distinct [52312, 52311, 52313 :: u16]"
proof -
  have "parse_ports (PortList [52312, 52311, 52312, 52311, 52313]) = Inr [52312, 52311, 52313]"
    by (simp add: parse_ports_def read_ports_def MAX_PORTS_def Let_def)
  then show ?thesis using parse_ports_sound by blast
qed



text \<open>The banner counts what the program then runs with.\<close>

lemma banner_counts:
  assumes "main_start cfg = Inr prog"
  shows "fst (snd (banner cfg))
      = (case prog of RunSplitter c \<Rightarrow> length (sr_tunnels c) | RunReassembler c \<Rightarrow> length (rn_listen_ports c))
    \<and> \<not> snd (snd (banner cfg))"
  using assms
  by (auto simp: main_start_def banner_def start_splitter_def start_reassembler_def
      split: if_splits option.splits sum.splits)

end
