(* ===== verification/Logging.thy ===== *)
theory Logging
  imports NetAddr "HOL-Library.Signed_Division" "HOL-Library.Product_Lexorder"
begin

text \<open>
  The daily log of \<open>src/src/logging.rs\<close>: the date of a day number, the purge of old files, and the
  writer that rotates at midnight UTC.  \<open>i64\<close> and \<open>u32\<close> values of the date computation are \<open>int\<close>:
  they stay far inside their types for any clock.  A directory is a table from file names to
  contents.  What the operating system decides (whether a file can be opened or removed, how much
  a write takes) is an argument.
\<close>

subsection \<open>Dates\<close>

definition civil_of_days :: "int \<Rightarrow> int \<times> int \<times> int" where
  "civil_of_days days =
     (let z = days + 719468;
          era = (if z \<ge> 0 then z else z - 146096) sdiv 146097;
          doe = (z - era * 146097) mod 2 ^ 32;
          yoe = (doe - doe div 1460 + doe div 36524 - doe div 146096) div 365;
          y = yoe + era * 400;
          doy = doe - (365 * yoe + yoe div 4 - yoe div 100);
          mp = (5 * doy + 2) div 153;
          d = doy - (153 * mp + 2) div 5 + 1;
          m = (if mp < 10 then mp + 3 else mp - 9);
          y = (if m \<le> 2 then y + 1 else y)
      in (y, m, d))"

text \<open>\<open>{:0w}\<close> of an integer.\<close>

definition zero_pad :: "nat \<Rightarrow> bytes \<Rightarrow> bytes" where
  "zero_pad w s = replicate (w - length s) 48 @ s"

definition format_int :: "nat \<Rightarrow> int \<Rightarrow> bytes" where
  "format_int w n = (if n < 0 then 45 # zero_pad (w - 1) (show_dec (nat (- n))) else zero_pad w (show_dec (nat n)))"

definition format_date :: "int \<times> int \<times> int \<Rightarrow> bytes" where
  "format_date ymd = (case ymd of (y, m, d) \<Rightarrow> format_int 4 y @ [45] @ format_int 2 m @ [45] @ format_int 2 d)"

definition days_to_civil :: "int \<Rightarrow> bytes" where
  "days_to_civil days = format_date (civil_of_days days)"

text \<open>The clock is in seconds from the epoch; a clock before it reads as 0.\<close>

definition today_utc :: "int \<Rightarrow> bytes" where
  "today_utc now = days_to_civil (max 0 now div 86400)"

subsection \<open>Files\<close>

type_synonym log_dir = "(bytes, bytes) table"

definition log_name :: "bytes \<Rightarrow> bytes \<Rightarrow> bytes" where
  "log_name prefix date = prefix @ [46] @ date @ ascii ''.log''"

text \<open>Opened with create and append; \<open>ok\<close> tells whether the system could open it.\<close>

definition open_log :: "bool \<Rightarrow> bytes \<Rightarrow> bytes \<Rightarrow> log_dir \<Rightarrow> (bytes \<times> log_dir) option" where
  "open_log ok prefix date dir =
     (if \<not> ok then None
      else let nm = log_name prefix date
           in Some (nm, if thas dir nm then dir else tins nm [] dir))"

definition strip_prefix :: "bytes \<Rightarrow> bytes \<Rightarrow> bytes option" where
  "strip_prefix p s = (if take (length p) s = p then Some (drop (length p) s) else None)"

definition strip_suffix :: "bytes \<Rightarrow> bytes \<Rightarrow> bytes option" where
  "strip_suffix p s =
     (if length p \<le> length s \<and> drop (length s - length p) s = p then Some (take (length s - length p) s) else None)"

text \<open>The order of strings in Rust: bytewise, lexicographic.\<close>

fun bytes_less :: "bytes \<Rightarrow> bytes \<Rightarrow> bool" where
  "bytes_less _ [] = False"
| "bytes_less [] (_ # _) = True"
| "bytes_less (x # xs) (y # ys) = (x < y \<or> x = y \<and> bytes_less xs ys)"

text \<open>Whether the purge tries to remove a file; a name that is not UTF-8 reads as empty.\<close>

definition stale_log :: "bytes \<Rightarrow> bytes \<Rightarrow> bytes \<Rightarrow> bool" where
  "stale_log prefix cutoff_date fname =
     (let name = (if utf8_valid fname then fname else []);
          date_part = (case strip_prefix prefix name of
                         None \<Rightarrow> []
                       | Some s \<Rightarrow> (case strip_suffix (ascii ''.log'') s of None \<Rightarrow> [] | Some t \<Rightarrow> t))
      in if length date_part \<noteq> 11 \<or> hd date_part \<noteq> 46 then False
         else bytes_less (tl date_part) cutoff_date)"

definition cutoff_days :: "int \<Rightarrow> nat \<Rightarrow> int" where
  "cutoff_days now keep_days = max 0 (now - int keep_days * 86400) div 86400"

definition purge_old_logs :: "int \<Rightarrow> bool \<Rightarrow> (bytes \<Rightarrow> bool) \<Rightarrow> bytes \<Rightarrow> nat \<Rightarrow> log_dir \<Rightarrow> log_dir" where
  "purge_old_logs now listable removable prefix keep_days dir =
     (if \<not> listable then dir
      else filter (\<lambda>e. \<not> (stale_log prefix (days_to_civil (cutoff_days now keep_days)) (fst e) \<and> removable (fst e))) dir)"

subsection \<open>The writer\<close>

record log_writer =
  lw_file :: bytes
  lw_date :: bytes
  lw_prefix :: bytes
  lw_keep_days :: nat

record log_os =
  os_now :: int
  os_open_ok :: bool
  os_listable :: bool
  os_removable :: "bytes \<Rightarrow> bool"

definition log_new :: "log_os \<Rightarrow> bytes \<Rightarrow> nat \<Rightarrow> log_dir \<Rightarrow> (log_writer \<times> log_dir) option" where
  "log_new os prefix keep_days dir =
     (let date = today_utc (os_now os)
      in case open_log (os_open_ok os) prefix date dir of
           None \<Rightarrow> None
         | Some (f, dir1) \<Rightarrow>
             Some (\<lparr>lw_file = f, lw_date = date, lw_prefix = prefix, lw_keep_days = keep_days\<rparr>,
                   purge_old_logs (os_now os) (os_listable os) (os_removable os) prefix keep_days dir1))"

text \<open>The results of the successive \<open>file.write\<close> calls; \<open>LwPending\<close>: the results run out while the loop goes on.\<close>

datatype file_write = FwOk nat | FwInterrupted | FwError

datatype log_outcome = LwWritten nat | LwWriteZero | LwError | LwPending

fun write_loop :: "bytes \<Rightarrow> nat \<Rightarrow> file_write list \<Rightarrow> log_outcome \<times> bytes" where
  "write_loop buf n rs =
     (if \<not> n < length buf then (LwWritten n, [])
      else case rs of
        [] \<Rightarrow> (LwPending, [])
      | FwOk k # rs' \<Rightarrow>
          if k = 0 then (LwWriteZero, [])
          else let (r, out) = write_loop buf (n + k) rs' in (r, take k (drop n buf) @ out)
      | FwInterrupted # rs' \<Rightarrow> write_loop buf n rs'
      | FwError # _ \<Rightarrow> (LwError, []))"

declare write_loop.simps [simp del]

definition append_file :: "bytes \<Rightarrow> bytes \<Rightarrow> log_dir \<Rightarrow> log_dir" where
  "append_file nm bs dir = map (\<lambda>e. if fst e = nm then (nm, snd e @ bs) else e) dir"

definition log_rotate :: "log_os \<Rightarrow> log_writer \<Rightarrow> log_dir \<Rightarrow> (log_writer \<times> log_dir) option" where
  "log_rotate os w dir =
     (let today = today_utc (os_now os)
      in if today = lw_date w then Some (w, dir)
         else case open_log (os_open_ok os) (lw_prefix w) today dir of
                None \<Rightarrow> None
              | Some (f, dir1) \<Rightarrow>
                  Some (w\<lparr>lw_file := f, lw_date := today\<rparr>,
                        purge_old_logs (os_now os) (os_listable os) (os_removable os)
                          (lw_prefix w) (lw_keep_days w) dir1))"

definition log_write :: "log_os \<Rightarrow> file_write list \<Rightarrow> bytes \<Rightarrow> log_writer \<Rightarrow> log_dir
    \<Rightarrow> log_outcome \<times> log_writer \<times> log_dir" where
  "log_write os rs buf w dir =
     (case log_rotate os w dir of
        None \<Rightarrow> (LwError, w, dir)
      | Some (w1, dir1) \<Rightarrow>
          let (r, out) = write_loop buf 0 rs in (r, w1, append_file (lw_file w1) out dir1))"

subsection \<open>The Gregorian calendar\<close>

definition leap :: "int \<Rightarrow> bool" where
  "leap y \<longleftrightarrow> y mod 4 = 0 \<and> (y mod 100 \<noteq> 0 \<or> y mod 400 = 0)"

definition month_len :: "int \<Rightarrow> int \<Rightarrow> int" where
  "month_len y m = (if m = 2 then (if leap y then 29 else 28) else if m \<in> {4, 6, 9, 11} then 30 else 31)"

definition next_day :: "int \<times> int \<times> int \<Rightarrow> int \<times> int \<times> int" where
  "next_day ymd = (case ymd of (y, m, d) \<Rightarrow>
     if d < month_len y m then (y, m, d + 1) else if m < 12 then (y, m + 1, 1) else (y + 1, 1, 1))"

text \<open>Days before year \<open>y\<close> of an era, counted in years that begin in March.\<close>

definition era_days :: "int \<Rightarrow> int" where
  "era_days y = 365 * y + y div 4 - y div 100 + y div 400"

definition year_num :: "int \<Rightarrow> int" where
  "year_num d = d - d div 1460 + d div 36524 - d div 146096"

lemma year_num_check: "list_all (\<lambda>y. 365 * y \<le> year_num (era_days y) \<and> year_num (era_days (y + 1) - 1) < 365 * (y + 1)) [0..399]"
  by code_simp

lemma year_len_check: "list_all (\<lambda>y. era_days (y + 1) = era_days y + (if leap (y + 1) then 366 else 365)) [0..399]"
  by code_simp

definition month_day :: "int \<Rightarrow> int \<times> int" where
  "month_day doy = (let mp = (5 * doy + 2) div 153
     in (if mp < 10 then mp + 3 else mp - 9, doy - (153 * mp + 2) div 5 + 1))"

definition month_ok :: "int \<Rightarrow> bool" where
  "month_ok doy = (case month_day doy of (m, d) \<Rightarrow>
     1 \<le> d \<and> 1 \<le> m \<and> m \<le> 12 \<and> (m = 2 \<longrightarrow> d = doy - 336) \<and> (m \<noteq> 2 \<longrightarrow> d \<le> month_len 1 m) \<and>
     month_day (doy + 1) = (if m = 2 \<or> d < month_len 1 m then (m, d + 1) else if m < 12 then (m + 1, 1) else (1, 1)))"

lemma month_day_check: "list_all month_ok [0..365]"
  by code_simp

lemma era_floor: "(if z \<ge> 0 then z else z - 146096) sdiv 146097 = z div 146097" for z :: int
proof (cases "z \<ge> 0")
  case False
  have "z = 146097 * (z div 146097) + z mod 146097" "0 \<le> z mod 146097" "z mod 146097 < 146097" by simp_all
  then have "(146096 - z) div 146097 = - (z div 146097)"
    by (intro int_div_pos_eq [where r = "146096 - z mod 146097"]) linarith+
  then show ?thesis using False by (simp add: signed_divide_int_def)
qed (auto simp: signed_divide_int_def sgn_if)

lemma year_num_mono:
  assumes "0 \<le> a" and "a \<le> b" and "b \<le> 146096"
  shows "year_num a \<le> year_num b"
  using assms(2,3)
proof (induction b rule: int_ge_induct)
  case (step d)
  then have d: "0 \<le> d" "d + 1 \<le> 146096" using assms(1) by simp_all
  have "year_num d \<le> year_num (d + 1)"
  proof (cases "d + 1 = 146096")
    case True
    then have "d = 146095" by simp
    then show ?thesis by (simp add: year_num_def)
  next
    case False
    have "(d + 1) div 1460 \<le> (d + 1460) div 1460" "d div 36524 \<le> (d + 1) div 36524" by (simp_all add: zdiv_mono1)
    then show ?thesis using d False by (simp add: year_num_def)
  qed
  then show ?case using step by simp
qed simp

lemma interval_exists:
  fixes f :: "int \<Rightarrow> int"
  assumes "f 0 \<le> x" and "0 \<le> n" and "x < f n"
  shows "\<exists>y. 0 \<le> y \<and> y < n \<and> f y \<le> x \<and> x < f (y + 1)"
  using assms(2,3)
proof (induction n rule: int_ge_induct)
  case (step n)
  then show ?case by (cases "x < f n") (force, intro exI [of _ n], simp)
qed (use assms(1) in simp)

lemma year_of_day:
  assumes "0 \<le> doe" and "doe < 146097"
  defines "y \<equiv> year_num doe div 365"
  shows "0 \<le> y \<and> y \<le> 399 \<and> era_days y \<le> doe \<and> doe < era_days (y + 1)"
proof -
  have "era_days 0 \<le> doe" "doe < era_days 400" using assms(1,2) by (simp_all add: era_days_def)
  then obtain Y where Y: "0 \<le> Y" "Y < 400" "era_days Y \<le> doe" "doe < era_days (Y + 1)"
    using interval_exists [of era_days doe 400] by auto
  then have c: "365 * Y \<le> year_num (era_days Y)" "year_num (era_days (Y + 1) - 1) < 365 * (Y + 1)"
    using year_num_check by (simp_all add: list_all_iff)
  have e: "0 \<le> era_days Y" "era_days (Y + 1) \<le> 146097" using Y(1,2) by (simp_all add: era_days_def)
  have "year_num (era_days Y) \<le> year_num doe" "year_num doe \<le> year_num (era_days (Y + 1) - 1)"
    using Y e assms(1) by (auto intro!: year_num_mono)
  with c have "365 * Y \<le> year_num doe" "year_num doe < 365 * Y + 365" by (simp_all add: distrib_left)
  then have "y = Y" unfolding y_def by (intro int_div_pos_eq [where r = "year_num doe - 365 * Y"]) linarith+
  with Y show ?thesis by simp
qed

text \<open>The computation in terms of the calendar: era, year of the era, day of the year.\<close>

lemma civil_of_days_parts:
  fixes days :: int
  defines "era \<equiv> (days + 719468) div 146097" and "doe \<equiv> (days + 719468) mod 146097"
  defines "yoe \<equiv> year_num doe div 365"
  shows "civil_of_days days = (let (m, d) = month_day (doe - era_days yoe)
    in (yoe + 400 * era + (if m \<le> 2 then 1 else 0), m, d))"
proof -
  have doe: "0 \<le> doe" "doe < 146097" by (simp_all add: doe_def)
  have "days + 719468 - era * 146097 = doe" by (simp add: doe_def era_def minus_div_mult_eq_mod)
  then have z: "(days + 719468 - era * 146097) mod 2 ^ 32 = doe" using doe by simp
  have "yoe div 400 = 0" using year_of_day [OF doe] by (simp add: yoe_def)
  then have e: "365 * yoe + yoe div 4 - yoe div 100 = era_days yoe" by (simp add: era_days_def)
  show ?thesis
    unfolding civil_of_days_def Let_def era_floor era_def [symmetric] z year_num_def [symmetric] yoe_def [symmetric] e
    by (simp add: month_day_def Let_def)
qed

lemma era_days_shift: "era_days (y + 400 * e) = era_days y + 146097 * e"
proof -
  have "(y + 400 * e) div 4 = y div 4 + 100 * e" "(y + 400 * e) div 100 = y div 100 + 4 * e"
    "(y + 400 * e) div 400 = y div 400 + e"
    using div_mult_self2 [of 4 y "100 * e"] div_mult_self2 [of 100 y "4 * e"] div_mult_self2 [of 400 y e] by simp_all
  then show ?thesis by (simp add: era_days_def)
qed

lemma leap_shift: "leap (y + 400 * e) = leap y"
proof -
  have "(y + 400 * e) mod 4 = y mod 4" "(y + 400 * e) mod 100 = y mod 100" "(y + 400 * e) mod 400 = y mod 400"
    using mod_mult_self2 [of y 4 "100 * e"] mod_mult_self2 [of y 100 "4 * e"] mod_mult_self2 [of y 400 e] by simp_all
  then show ?thesis by (simp add: leap_def)
qed

lemma year_len: "era_days (y + 1) = era_days y + (if leap (y + 1) then 366 else 365)"
proof -
  let ?r = "y mod 400" and ?e = "y div 400"
  have y: "y = ?r + 400 * ?e" by simp
  have "?r \<in> set [0..399]" by simp
  then have c: "era_days (?r + 1) = era_days ?r + (if leap (?r + 1) then 366 else 365)"
    using year_len_check unfolding list_all_iff by blast
  have "era_days (y + 1) = era_days (?r + 1) + 146097 * ?e" "era_days y = era_days ?r + 146097 * ?e"
    "leap (y + 1) = leap (?r + 1)"
    using era_days_shift [of "?r + 1" ?e] era_days_shift [of ?r ?e] leap_shift [of "?r + 1" ?e] y
    by (simp_all add: add.assoc add.commute)
  with c show ?thesis by simp
qed

lemma era_days_less: "a < b \<Longrightarrow> era_days (a + 1) \<le> era_days b"
proof -
  assume "a < b"
  then have "a + 1 \<le> b" by simp
  then show ?thesis
  proof (induction b rule: int_ge_induct)
    case (step i)
    then show ?case using year_len [of i] by (auto split: if_splits)
  qed simp
qed

text \<open>Every day is in one year, counted from March.\<close>

lemma year_contains:
  fixes z :: int
  defines "e \<equiv> z div 146097" and "y \<equiv> year_num (z mod 146097) div 365"
  shows "era_days (y + 400 * e) \<le> z" and "z < era_days (y + 400 * e + 1)"
    and "z mod 146097 - era_days y = z - era_days (y + 400 * e)"
proof -
  have y: "era_days y \<le> z mod 146097" "z mod 146097 < era_days (y + 1)"
    using year_of_day [of "z mod 146097"] by (simp_all add: y_def)
  have z: "z mod 146097 + 146097 * e = z" by (simp add: e_def)
  have "era_days (y + 400 * e + 1) = era_days (y + 1) + 146097 * e"
    using era_days_shift [of "y + 1" e] by (simp add: ac_simps)
  then show "era_days (y + 400 * e) \<le> z" "z < era_days (y + 400 * e + 1)"
    "z mod 146097 - era_days y = z - era_days (y + 400 * e)"
    using y z era_days_shift [of y e] by linarith+
qed

lemma year_unique:
  assumes "era_days a \<le> z" "z < era_days (a + 1)" "era_days b \<le> z" "z < era_days (b + 1)"
  shows "a = b"
  using era_days_less [of a b] era_days_less [of b a] assms by (cases a b rule: linorder_cases) auto

lemma civil_in_year:
  assumes "era_days A \<le> days + 719468" and "days + 719468 < era_days (A + 1)"
  shows "civil_of_days days = (let (m, d) = month_day (days + 719468 - era_days A)
    in (A + (if m \<le> 2 then 1 else 0), m, d))"
proof -
  let ?z = "days + 719468"
  let ?y = "year_num (?z mod 146097) div 365" and ?e = "?z div 146097"
  note c = year_contains [of ?z]
  have a: "?y + 400 * ?e = A" by (rule year_unique [OF c(1,2) assms])
  then have "?z mod 146097 - era_days ?y = ?z - era_days A" using c(3) by (simp only:)
  then show ?thesis using civil_of_days_parts [of days] by (simp only: a)
qed

lemma month_day_step:
  assumes "0 \<le> doy" and "doy \<le> 365" and "month_day doy = (m, d)"
  shows "1 \<le> d" and "1 \<le> m" and "m \<le> 12" and "m = 2 \<Longrightarrow> d = doy - 336" and "m \<noteq> 2 \<Longrightarrow> d \<le> month_len y m"
    and "month_day (doy + 1) = (if m = 2 \<or> d < month_len y m then (m, d + 1) else if m < 12 then (m + 1, 1) else (1, 1))"
proof -
  have "doy \<in> set [0..365]" using assms(1,2) by simp
  with month_day_check have c: "month_ok doy" by (simp only: list_all_iff)
  have "m \<noteq> 2 \<Longrightarrow> month_len 1 m = month_len y m" by (simp add: month_len_def)
  with c [unfolded month_ok_def] assms(3) show "1 \<le> d" "1 \<le> m" "m \<le> 12" "m = 2 \<Longrightarrow> d = doy - 336" "m \<noteq> 2 \<Longrightarrow> d \<le> month_len y m"
    "month_day (doy + 1) = (if m = 2 \<or> d < month_len y m then (m, d + 1) else if m < 12 then (m + 1, 1) else (1, 1))"
    by auto
qed

lemma civil_step: "civil_of_days (n + 1) = next_day (civil_of_days n)"
proof -
  obtain A where A: "era_days A \<le> n + 719468" "n + 719468 < era_days (A + 1)" using year_contains by blast
  let ?doy = "n + 719468 - era_days A"
  obtain m d where md: "month_day ?doy = (m, d)" by force
  have doy: "0 \<le> ?doy" "?doy \<le> 365" using A year_len [of A] by (auto split: if_splits)
  have civ: "civil_of_days n = (A + (if m \<le> 2 then 1 else 0), m, d)" using civil_in_year [OF A] md by simp
  note st = month_day_step [OF doy md]
  show ?thesis
  proof (cases "n + 1 + 719468 < era_days (A + 1)")
    case True
    have "civil_of_days (n + 1) = (let (m, d) = month_day (?doy + 1) in (A + (if m \<le> 2 then 1 else 0), m, d))"
      using civil_in_year [of A "n + 1"] A True by (simp add: algebra_simps)
    moreover have "d < month_len (A + 1) 2" if "m = 2"
      using st(4) [OF that] True year_len [of A] by (auto simp: month_len_def split: if_splits)
    ultimately show ?thesis using civ st(2,3) st(6) [of "A + (if m \<le> 2 then 1 else 0)"]
      by (auto simp: next_day_def)
  next
    case False
    then have z: "n + 1 + 719468 = era_days (A + 1)" using A by simp
    then have "civil_of_days (n + 1) = (A + 1, 3, 1)"
      using civil_in_year [of "A + 1" "n + 1"] year_len [of "A + 1"] by (simp add: month_day_def split: if_splits)
    moreover have "?doy = (if leap (A + 1) then 365 else 364)" using z year_len [of A] by (auto split: if_splits)
    ultimately show ?thesis using civ md by (auto simp: next_day_def month_day_def month_len_def split: if_splits)
  qed
qed

subsection \<open>Dates in order\<close>

fun date_ok :: "int \<times> int \<times> int \<Rightarrow> bool" where
  "date_ok (y, m, d) = (1 \<le> m \<and> m \<le> 12 \<and> 1 \<le> d \<and> d \<le> month_len y m)"

text \<open>Dates are ordered as the library orders tuples, lexicographically.\<close>

lemma month_len_bounds: "28 \<le> month_len y m" "month_len y m \<le> 31"
  by (simp_all add: month_len_def)

lemma next_day_ok: "date_ok x \<Longrightarrow> date_ok (next_day x) \<and> x < next_day x"
  using month_len_bounds by (cases x) (auto simp: next_day_def intro: order_trans [of 1 28])

lemma civil_ok: "date_ok (civil_of_days n)"
proof -
  obtain A where A: "era_days A \<le> n + 719468" "n + 719468 < era_days (A + 1)" using year_contains by blast
  let ?doy = "n + 719468 - era_days A"
  obtain m d where md: "month_day ?doy = (m, d)" by force
  have doy: "0 \<le> ?doy" "?doy \<le> 365" using A year_len [of A] by (auto split: if_splits)
  note st = month_day_step [OF doy md]
  have "d \<le> month_len (A + 1) 2" if "m = 2"
    using st(4) [OF that] A year_len [of A] by (auto simp: month_len_def split: if_splits)
  then show ?thesis using civil_in_year [OF A] md st(1,2,3) st(5) by auto
qed

lemma civil_mono: "a < b \<Longrightarrow> civil_of_days a < civil_of_days b"
proof -
  assume "a < b"
  then have "a + 1 \<le> b" by simp
  then show ?thesis
  proof (induction b rule: int_ge_induct)
    case base
    then show ?case using next_day_ok [OF civil_ok] by (simp add: civil_step)
  next
    case (step i)
    then show ?case using next_day_ok [OF civil_ok, of i] by (metis civil_step less_trans)
  qed
qed

lemma civil_less_iff: "civil_of_days a < civil_of_days b \<longleftrightarrow> a < b"
  using civil_mono [of a b] civil_mono [of b a] by (metis less_asym linorder_less_linear)

subsection \<open>Strings in order\<close>

fun fixed_digits :: "nat \<Rightarrow> nat \<Rightarrow> bytes" where
  "fixed_digits 0 n = []"
| "fixed_digits (Suc w) n = fixed_digits w (n div 10) @ [digit_char (n mod 10)]"

lemma length_fixed_digits [simp]: "length (fixed_digits w n) = w"
  by (induction w arbitrary: n) simp_all

lemma fixed_digits_zero: "fixed_digits w 0 = replicate w 48"
  by (induction w) (simp_all add: digit_char_def replicate_append_same)

lemma zero_pad_digits: "n < 10 ^ w \<Longrightarrow> 0 < w \<Longrightarrow> zero_pad w (show_dec n) = fixed_digits w n"
proof (induction w arbitrary: n)
  case (Suc w)
  show ?case
  proof (cases "n < 10")
    case True
    then show ?thesis by (simp add: show_dec_def show_radix.simps zero_pad_def fixed_digits_zero)
  next
    case False
    then have "0 < w" using Suc.prems(1) by (cases w) simp_all
    moreover have "n div 10 < 10 ^ w" using Suc.prems(1) by (simp add: div_less_iff_less_mult mult.commute)
    ultimately have "zero_pad w (show_dec (n div 10)) = fixed_digits w (n div 10)" using Suc.IH by simp
    then show ?thesis using False by (simp add: show_dec_def show_radix.simps [of 10 n] zero_pad_def)
  qed
qed simp

lemma bytes_less_append:
  "length p = length q \<Longrightarrow> bytes_less (p @ x) (q @ y) \<longleftrightarrow> bytes_less p q \<or> p = q \<and> bytes_less x y"
  by (induction p q rule: list_induct2) auto

lemma digit_char_mono: "a < 10 \<Longrightarrow> b < 10 \<Longrightarrow> (digit_char a < digit_char b \<longleftrightarrow> a < b) \<and> (digit_char a = digit_char b \<longleftrightarrow> a = b)"
  by (simp add: word_less_nat_alt word_unat_eq_iff digit_char_dec)

lemma fixed_digits_order:
  "a < 10 ^ w \<Longrightarrow> b < 10 ^ w \<Longrightarrow>
     (bytes_less (fixed_digits w a) (fixed_digits w b) \<longleftrightarrow> a < b) \<and> (fixed_digits w a = fixed_digits w b \<longleftrightarrow> a = b)"
proof (induction w arbitrary: a b)
  case (Suc w)
  have "a div 10 < 10 ^ w" "b div 10 < 10 ^ w" using Suc.prems by (simp_all add: div_less_iff_less_mult mult.commute)
  then have "bytes_less (fixed_digits w (a div 10)) (fixed_digits w (b div 10)) \<longleftrightarrow> a div 10 < b div 10"
    "fixed_digits w (a div 10) = fixed_digits w (b div 10) \<longleftrightarrow> a div 10 = b div 10" using Suc.IH by blast+
  moreover have "a < b \<longleftrightarrow> a div 10 < b div 10 \<or> a div 10 = b div 10 \<and> a mod 10 < b mod 10"
    using mult_div_mod_eq [of 10 a] mult_div_mod_eq [of 10 b] mod_less_divisor [of 10 a] mod_less_divisor [of 10 b]
    by linarith
  moreover have "a = b \<longleftrightarrow> a div 10 = b div 10 \<and> a mod 10 = b mod 10" by (metis mult_div_mod_eq)
  ultimately show ?case using digit_char_mono [of "a mod 10" "b mod 10"] by (auto simp: bytes_less_append)
qed simp

lemma format_date_digits:
  assumes "0 \<le> y" "y \<le> 9999" "date_ok (y, m, d)"
  shows "format_date (y, m, d) = fixed_digits 4 (nat y) @ [45] @ fixed_digits 2 (nat m) @ [45] @ fixed_digits 2 (nat d)"
proof -
  have pad: "zero_pad 2 (show_dec (nat n)) = fixed_digits 2 (nat n)" if "n \<le> 31" for n
    by (rule zero_pad_digits) (use that in \<open>simp_all add: nat_less_iff\<close>)
  have md: "m \<le> 31" "d \<le> 31" using assms(3) month_len_bounds(2) [of y m] by simp_all
  show ?thesis using assms pad [OF md(1)] pad [OF md(2)] by (simp add: format_date_def format_int_def zero_pad_digits)
qed

lemma format_date_order:
  assumes "0 \<le> fst a" "fst a \<le> 9999" "date_ok a" "0 \<le> fst b" "fst b \<le> 9999" "date_ok b"
  shows "bytes_less (format_date a) (format_date b) \<longleftrightarrow> a < b"
proof -
  obtain y m d y' m' d' where ab: "a = (y, m, d)" "b = (y', m', d')" by (cases a; cases b)
  have o4: "(bytes_less (fixed_digits 4 (nat y)) (fixed_digits 4 (nat y')) \<longleftrightarrow> y < y') \<and> (fixed_digits 4 (nat y) = fixed_digits 4 (nat y') \<longleftrightarrow> y = y')"
    using fixed_digits_order [of "nat y" 4 "nat y'"] assms ab by (auto simp: eq_nat_nat_iff)
  have o2: "(bytes_less (fixed_digits 2 (nat u)) (fixed_digits 2 (nat v)) \<longleftrightarrow> u < v) \<and> (fixed_digits 2 (nat u) = fixed_digits 2 (nat v) \<longleftrightarrow> u = v)"
    if "1 \<le> u" "u \<le> 31" "1 \<le> v" "v \<le> 31" for u v
    using fixed_digits_order [of "nat u" 2 "nat v"] that by (auto simp: eq_nat_nat_iff)
  have "d \<le> 31" "d' \<le> 31" using assms(3,6) ab month_len_bounds(2) [of y m] month_len_bounds(2) [of y' m'] by simp_all
  then show ?thesis
    using assms ab o4 o2 [of m m'] o2 [of d d'] by (auto simp: format_date_digits bytes_less_append)
qed

definition last_day :: int where "last_day = 2932896"

lemma civil_range:
  assumes "0 \<le> k" "k \<le> last_day"
  shows "0 \<le> fst (civil_of_days k)" "fst (civil_of_days k) \<le> 9999"
proof -
  obtain y m d where c: "civil_of_days k = (y, m, d)" by (cases "civil_of_days k")
  have e: "civil_of_days 0 = (1970, 1, 1)" "civil_of_days last_day = (9999, 12, 31)" by code_simp+
  have "\<not> civil_of_days k < civil_of_days 0" "\<not> civil_of_days last_day < civil_of_days k"
    using assms by (simp_all add: civil_less_iff)
  then show "0 \<le> fst (civil_of_days k)" "fst (civil_of_days k) \<le> 9999" using c e by auto
qed

lemma date_string_order:
  assumes "0 \<le> a" "a \<le> last_day" "0 \<le> b" "b \<le> last_day"
  shows "bytes_less (days_to_civil a) (days_to_civil b) \<longleftrightarrow> a < b"
  using format_date_order [OF civil_range [OF assms(1,2)] civil_ok civil_range [OF assms(3,4)] civil_ok]
  by (simp add: days_to_civil_def civil_less_iff)

lemma days_to_civil_length: "0 \<le> k \<Longrightarrow> k \<le> last_day \<Longrightarrow> length (days_to_civil k) = 10"
  using civil_range [of k] civil_ok [of k]
  by (cases "civil_of_days k") (simp add: days_to_civil_def format_date_digits)

lemma fixed_digits_ascii: "\<forall>b \<in> set (fixed_digits w n). b < 0x80"
  by (induction w arbitrary: n) (auto simp: word_less_nat_alt digit_char_dec)

lemma days_to_civil_ascii:
  assumes "0 \<le> k" "k \<le> last_day"
  shows "\<forall>b \<in> set (days_to_civil k). b < 0x80"
proof -
  obtain y m d where c: "civil_of_days k = (y, m, d)" by (cases "civil_of_days k")
  have "(45 :: u8) < 0x80" by (simp add: word_less_nat_alt)
  then show ?thesis
    using fixed_digits_ascii civil_range [OF assms] civil_ok [of k] c
    by (auto simp: days_to_civil_def format_date_digits)
qed

subsection \<open>Lemmas: files\<close>

lemma stale_log_date:
  assumes "length date = 10"
  shows "stale_log prefix cutoff (log_name prefix date) \<longleftrightarrow> utf8_valid (log_name prefix date) \<and> bytes_less date cutoff"
proof -
  have l: "length (ascii ''.log'') = 4" by (simp add: ascii_def)
  have "strip_prefix prefix (log_name prefix date) = Some ([46] @ date @ ascii ''.log'')"
    by (simp add: strip_prefix_def log_name_def)
  moreover have "strip_suffix (ascii ''.log'') ([46] @ date @ ascii ''.log'') = Some ([46] @ date)"
    using assms l by (simp add: strip_suffix_def)
  moreover have "strip_suffix (ascii ''.log'') [] = None" using l by (simp add: strip_suffix_def)
  moreover have "strip_prefix prefix [] = None \<or> strip_prefix prefix [] = Some []" by (simp add: strip_prefix_def)
  ultimately show ?thesis using assms by (auto simp: stale_log_def Let_def)
qed

lemma tget_purge:
  "tget (purge_old_logs now listable removable prefix keep dir) nm =
     (if listable \<and> removable nm \<and> stale_log prefix (days_to_civil (cutoff_days now keep)) nm then None else tget dir nm)"
proof -
  let ?P = "\<lambda>nm. \<not> (stale_log prefix (days_to_civil (cutoff_days now keep)) nm \<and> removable nm)"
  have "tget (filter (\<lambda>e. ?P (fst e)) t) nm = (if ?P nm then tget t nm else None)" for t :: log_dir
    by (induction t) auto
  then show ?thesis by (auto simp: purge_old_logs_def)
qed

lemma tget_append_file: "tget (append_file nm bs dir) x = (if x = nm then map_option (\<lambda>c. c @ bs) (tget dir nm) else tget dir x)"
  by (induction dir) (auto simp: append_file_def)

lemma cutoff_days_le: "0 \<le> cutoff_days now keep" "cutoff_days now keep \<le> max 0 now div 86400"
  by (auto simp: cutoff_days_def intro!: zdiv_mono1)

lemma cutoff_days_exact: "int keep * 86400 \<le> now \<Longrightarrow> cutoff_days now keep = now div 86400 - int keep"
  using div_mult_self1 [of 86400 now "- int keep"] by (simp add: cutoff_days_def)

text \<open>The writer's file is the file of its date and is in the directory.\<close>

definition log_ok :: "log_writer \<Rightarrow> log_dir \<Rightarrow> bool" where
  "log_ok w dir \<longleftrightarrow> lw_file w = log_name (lw_prefix w) (lw_date w) \<and> thas dir (lw_file w)"

definition clock_ok :: "int \<Rightarrow> bool" where
  "clock_ok now \<longleftrightarrow> max 0 now div 86400 \<le> last_day"

lemma purge_keeps_today:
  assumes "clock_ok now"
  shows "tget (purge_old_logs now l r prefix keep dir) (log_name prefix (today_utc now)) = tget dir (log_name prefix (today_utc now))"
proof -
  let ?t = "max 0 now div 86400"
  have t: "0 \<le> ?t" "?t \<le> last_day" using assms by (simp_all add: clock_ok_def pos_imp_zdiv_nonneg_iff)
  have "\<not> bytes_less (days_to_civil ?t) (days_to_civil (cutoff_days now keep))"
    using t cutoff_days_le [of now keep] by (simp add: date_string_order)
  then show ?thesis using days_to_civil_length [OF t] by (simp add: tget_purge stale_log_date today_utc_def)
qed

lemma open_log_spec:
  assumes "open_log ok prefix date dir = Some (f, dir')"
  shows "f = log_name prefix date" and "tget dir' f = Some (case tget dir f of Some c \<Rightarrow> c | None \<Rightarrow> [])"
  using assms by (auto simp: open_log_def Let_def thas_def tget_tins split: if_splits)

lemma log_new_ok:
  assumes "log_new os prefix keep dir = Some (w, dir')" and "clock_ok (os_now os)"
  shows "log_ok w dir'"
proof -
  from assms(1) obtain f dir1 where f: "open_log (os_open_ok os) prefix (today_utc (os_now os)) dir = Some (f, dir1)"
    and w: "w = \<lparr>lw_file = f, lw_date = today_utc (os_now os), lw_prefix = prefix, lw_keep_days = keep\<rparr>"
    "dir' = purge_old_logs (os_now os) (os_listable os) (os_removable os) prefix keep dir1"
    by (auto simp: log_new_def Let_def split: option.splits)
  then show ?thesis
    using open_log_spec [OF f] purge_keeps_today [OF assms(2)] by (simp add: log_ok_def thas_def)
qed

lemma log_rotate_ok:
  assumes "log_ok w dir" and "clock_ok (os_now os)" and "log_rotate os w dir = Some (w1, dir1)"
  shows "log_ok w1 dir1" and "lw_date w1 = today_utc (os_now os)"
    and "tget dir1 (lw_file w1) = Some (case tget dir (lw_file w1) of Some c \<Rightarrow> c | None \<Rightarrow> [])"
proof -
  let ?t = "today_utc (os_now os)"
  have "log_ok w1 dir1 \<and> lw_date w1 = ?t \<and> tget dir1 (lw_file w1) = Some (case tget dir (lw_file w1) of Some c \<Rightarrow> c | None \<Rightarrow> [])"
  proof (cases "?t = lw_date w")
    case True
    then show ?thesis using assms by (auto simp: log_rotate_def log_ok_def thas_def)
  next
    case False
    then obtain f dir2 where f: "open_log (os_open_ok os) (lw_prefix w) ?t dir = Some (f, dir2)"
      and w: "w1 = w\<lparr>lw_file := f, lw_date := ?t\<rparr>"
      "dir1 = purge_old_logs (os_now os) (os_listable os) (os_removable os) (lw_prefix w) (lw_keep_days w) dir2"
      using assms(3) by (auto simp: log_rotate_def Let_def split: option.splits)
    then show ?thesis
      using open_log_spec [OF f] purge_keeps_today [OF assms(2)] by (simp add: log_ok_def thas_def)
  qed
  then show "log_ok w1 dir1" "lw_date w1 = ?t"
    "tget dir1 (lw_file w1) = Some (case tget dir (lw_file w1) of Some c \<Rightarrow> c | None \<Rightarrow> [])" by blast+
qed

lemma log_rotate_opens: "os_open_ok os \<Longrightarrow> log_rotate os w dir \<noteq> None"
  by (simp add: log_rotate_def open_log_def Let_def)

lemma write_loop_simps [simp]:
  "\<not> n < length buf \<Longrightarrow> write_loop buf n rs = (LwWritten n, [])"
  "n < length buf \<Longrightarrow> write_loop buf n [] = (LwPending, [])"
  "n < length buf \<Longrightarrow> write_loop buf n (FwInterrupted # rs) = write_loop buf n rs"
  "n < length buf \<Longrightarrow> write_loop buf n (FwError # rs) = (LwError, [])"
  "n < length buf \<Longrightarrow> write_loop buf n (FwOk k # rs) =
     (if k = 0 then (LwWriteZero, [])
      else let (r, out) = write_loop buf (n + k) rs in (r, take k (drop n buf) @ out))"
  by (subst write_loop.simps; simp)+

lemma write_loop_out:
  "write_loop buf n rs = (r, out) \<Longrightarrow>
     (\<exists>rest. drop n buf = out @ rest) \<and> (\<forall>k. r = LwWritten k \<longrightarrow> out = drop n buf \<and> length buf \<le> k)"
proof (induction rs arbitrary: n r out)
  case (Cons e rs)
  show ?case
  proof (cases "n < length buf \<and> (\<exists>k>0. e = FwOk k)")
    case True
    then obtain k where k: "n < length buf" "0 < k" "e = FwOk k" by blast
    obtain r1 out1 where w: "write_loop buf (n + k) rs = (r1, out1)" by force
    have o: "out = take k (drop n buf) @ out1" "r = r1" using Cons.prems k w by simp_all
    from Cons.IH [OF w] obtain rest where "drop (n + k) buf = out1 @ rest" and
      l: "\<forall>j. r1 = LwWritten j \<longrightarrow> out1 = drop (n + k) buf \<and> length buf \<le> j" by blast
    then have d: "drop n buf = out @ rest" using o by (metis append.assoc append_take_drop_id drop_drop add.commute)
    have "out = drop n buf" if "r = LwWritten j" for j
      using l o that by (metis append_take_drop_id drop_drop add.commute)
    with d l o(2) show ?thesis by blast
  next
    case False
    then show ?thesis using Cons by (cases e; cases "n < length buf") auto
  qed
next
  case Nil
  then show ?case by (cases "n < length buf") auto
qed

text \<open>The loop ends: every result but an interruption takes at least one byte.\<close>

definition takes_bytes :: "file_write \<Rightarrow> bool" where
  "takes_bytes r = (case r of FwOk k \<Rightarrow> 0 < k | _ \<Rightarrow> False)"

lemma write_loop_ends:
  "list_all (\<lambda>r. takes_bytes r \<or> r = FwInterrupted) rs \<Longrightarrow> length buf \<le> n + length (filter takes_bytes rs) \<Longrightarrow>
     \<exists>k. fst (write_loop buf n rs) = LwWritten k"
proof (induction rs arbitrary: n)
  case (Cons e rs)
  show ?case
  proof (cases "n < length buf")
    case True
    show ?thesis
    proof (cases e)
      case (FwOk k)
      then have "\<exists>j. fst (write_loop buf (n + k) rs) = LwWritten j"
        using Cons.prems by (intro Cons.IH) (auto simp: takes_bytes_def)
      then show ?thesis using FwOk True Cons.prems by (auto simp: takes_bytes_def split: prod.splits)
    qed (use Cons True in \<open>auto simp: takes_bytes_def\<close>)
  qed simp
qed simp

text \<open>The match of names is not strict: ten bytes between the dots are taken for a date.\<close>

lemma purge_matches_non_dates:
  "stale_log (ascii ''round_robin'') (days_to_civil 20000) (ascii ''round_robin.1234567890.log'')"
  by code_simp

subsection \<open>Properties\<close>

text \<open>
  C40. The date of a log file is right: the closed formula of \<open>days_to_civil\<close> agrees with the
  Gregorian calendar, counted day by day from 1970-01-01.
\<close>

theorem civil_is_calendar: "civil_of_days (int n) = (next_day ^^ n) (1970, 1, 1)"
proof (induction n)
  case 0
  show ?case by code_simp
next
  case (Suc n)
  then show ?case using civil_step [of "int n"] by (simp add: add.commute)
qed

text \<open>
  The purge removes exactly the logs that are older than the retention: of the files it may
  remove, the log of day \<open>k\<close> goes if and only if \<open>k\<close> is more than \<open>keep\<close> days before today, and a
  file whose name does not start with the prefix stays.  (Up to the year 9999, where the order of
  the strings is the order of the days.)
\<close>

theorem purge_exact:
  assumes "\<forall>b \<in> set prefix. b < 0x80" and "0 \<le> k" and "k \<le> last_day" and "int keep * 86400 \<le> now"
    and "clock_ok now" and "removable (log_name prefix (days_to_civil k))"
  shows "tget (purge_old_logs now True removable prefix keep dir) (log_name prefix (days_to_civil k))
      = (if k < now div 86400 - int keep then None else tget dir (log_name prefix (days_to_civil k)))
    \<and> (strip_prefix prefix other = None \<longrightarrow> tget (purge_old_logs now True removable prefix keep dir) other = tget dir other)"
proof -
  let ?c = "days_to_civil (cutoff_days now keep)"
  have l: "\<forall>b \<in> set (ascii ''.log''). b < 0x80" by code_simp
  have d: "\<forall>b \<in> set (days_to_civil k). b < 0x80" by (rule days_to_civil_ascii [OF assms(2,3)])
  have "utf8_valid (log_name prefix (days_to_civil k))"
    by (rule utf8_valid_ascii) (use assms(1) l d in \<open>auto simp: log_name_def\<close>)
  moreover have "bytes_less (days_to_civil k) ?c \<longleftrightarrow> k < now div 86400 - int keep"
    using date_string_order [OF assms(2,3) cutoff_days_le(1) [of now keep]] cutoff_days_le(2) [of now keep] assms(5)
    by (simp add: clock_ok_def cutoff_days_exact [OF assms(4)])
  moreover have "\<not> stale_log prefix ?c other" if "strip_prefix prefix other = None"
    using that by (auto simp: stale_log_def Let_def strip_prefix_def)
  ultimately show ?thesis
    using assms(6) days_to_civil_length [OF assms(2,3)] by (simp add: tget_purge stale_log_date)
qed

theorem purge_exact_witness:
  "tget (purge_old_logs (86400 * 20000) True (\<lambda>_. True) (ascii ''round_robin'') 7 [(log_name (ascii ''round_robin'') (days_to_civil 19000), [])])
     (log_name (ascii ''round_robin'') (days_to_civil 19000)) = None"
proof -
  have "\<forall>b \<in> set (ascii ''round_robin''). b < 0x80" by code_simp
  then show ?thesis
    using purge_exact [of "ascii ''round_robin''" 19000 7 "86400 * 20000" "\<lambda>_. True"] by (simp add: clock_ok_def last_day_def)
qed

text \<open>
  A log record is written whole and to the right day's file.  When \<open>write\<close> reports success,
  exactly the record has been appended to the file of today's date, which is created at the first
  write of the day; on any error what was appended is a prefix of the record; the writer keeps
  pointing at an existing file of its date, which the purge never removes; and the loop over partial
  writes ends once the system has taken enough.
\<close>

theorem log_write_appends:
  assumes "log_ok w dir" and "clock_ok (os_now os)" and "log_write os rs buf w dir = (r, w', dir')"
  shows "log_ok w' dir'
    \<and> (\<forall>n. r = LwWritten n \<longrightarrow> lw_date w' = today_utc (os_now os)
         \<and> tget dir' (lw_file w') = Some ((case tget dir (lw_file w') of Some c \<Rightarrow> c | None \<Rightarrow> []) @ buf))
    \<and> (\<exists>out rest. buf = out @ rest
         \<and> tget dir' (lw_file w') = Some ((case tget dir (lw_file w') of Some c \<Rightarrow> c | None \<Rightarrow> []) @ out))
    \<and> (os_open_ok os \<and> list_all (\<lambda>x. takes_bytes x \<or> x = FwInterrupted) rs \<and> length buf \<le> length (filter takes_bytes rs)
         \<longrightarrow> (\<exists>n. r = LwWritten n))"
proof (cases "log_rotate os w dir")
  case None
  then have e: "r = LwError" "w' = w" "dir' = dir" "\<not> os_open_ok os"
    using assms(3) log_rotate_opens [of os w dir] by (auto simp: log_write_def)
  from assms(1) obtain c where c: "tget dir (lw_file w) = Some c" by (auto simp: log_ok_def thas_def)
  have "\<exists>out rest. buf = out @ rest \<and> tget dir (lw_file w) = Some (c @ out)"
    by (rule exI [of _ "[]"]) (simp add: c)
  then show ?thesis using e c assms(1) by simp
next
  case (Some p)
  then obtain w1 dir1 where rot: "log_rotate os w dir = Some (w1, dir1)" by (cases p) auto
  obtain out where wl: "write_loop buf 0 rs = (r, out)" and e: "w' = w1" "dir' = append_file (lw_file w1) out dir1"
    using assms(3) rot by (auto simp: log_write_def split: prod.splits)
  note ok = log_rotate_ok [OF assms(1,2) rot]
  note out = write_loop_out [OF wl]
  have "log_ok w' dir'" using ok(1) e by (auto simp: log_ok_def thas_def tget_append_file)
  moreover have "tget dir' (lw_file w') = Some ((case tget dir (lw_file w') of Some c \<Rightarrow> c | None \<Rightarrow> []) @ out)"
    using ok(3) e by (simp add: tget_append_file)
  moreover have "list_all (\<lambda>x. takes_bytes x \<or> x = FwInterrupted) rs \<Longrightarrow> length buf \<le> length (filter takes_bytes rs) \<Longrightarrow> \<exists>n. r = LwWritten n"
    using write_loop_ends [of rs buf 0] wl by simp
  ultimately show ?thesis using out ok(2) e(1) by auto
qed

definition demo_os :: log_os where
  "demo_os = \<lparr>os_now = 5, os_open_ok = True, os_listable = True, os_removable = (\<lambda>_. True)\<rparr>"

definition demo_writer :: log_writer where
  "demo_writer = \<lparr>lw_file = log_name [] (today_utc 0), lw_date = today_utc 0, lw_prefix = [], lw_keep_days = 7\<rparr>"

theorem log_write_appends_witness:
  "tget (snd (snd (log_write demo_os [FwOk 1, FwInterrupted, FwOk 1] [104, 105] demo_writer [(lw_file demo_writer, [1])])))
     (lw_file demo_writer) = Some [1, 104, 105]"
proof -
  let ?d = "[(lw_file demo_writer, [1])] :: log_dir"
  obtain r w' d' where x: "log_write demo_os [FwOk 1, FwInterrupted, FwOk 1] [104, 105] demo_writer ?d = (r, w', d')"
    by (metis prod_cases3)
  have "log_ok demo_writer ?d" "clock_ok (os_now demo_os)"
    by (simp_all add: log_ok_def demo_writer_def thas_def clock_ok_def demo_os_def last_day_def)
  note t = log_write_appends [OF this x]
  have "today_utc (os_now demo_os) = lw_date demo_writer" by (simp add: today_utc_def demo_os_def demo_writer_def)
  then have "w' = demo_writer" using x by (simp add: log_write_def log_rotate_def)
  with t x show ?thesis by (auto simp: takes_bytes_def demo_os_def)
qed

end
