(* ===== verification/HalfClose.thy ===== *)
theory HalfClose
  imports Egress "HOL-Library.Multiset"
begin

text \<open>
  The half-close of \<open>src/src/reassembler.rs\<close> between threads.  \<open>Egress\<close> runs \<open>start_half_close\<close> and
  \<open>close_write_half\<close> in one step; here every access to a shared variable is a step of its own, and
  any number of FIN handlers, DATA handlers and force-close timers of one connection interleave.

  \<open>hshared\<close> holds the atomics, the reorder buffer behind its lock and the notification permit;
  \<open>pc\<close> is where a thread stands, with its local variables.  Steps follow one another as if the
  memory were sequentially consistent.  Ghost fields, read by no step: \<open>hs_forced\<close> (a timer closed the
  write half), \<open>hs_stored\<close> (the FIN number has been stored) and \<open>hs_early\<close> (a closer read the FIN
  number before that).
\<close>

subsection \<open>Threads\<close>

record hshared =
  hs_state :: u8
  hs_fin_received :: bool
  hs_fin_seq :: u64
  hs_reorder :: reorder_buf
  hs_half_close :: notify
  hs_forced :: bool
  hs_stored :: bool
  hs_early :: bool

datatype pc =
    FinSwap u64 | FinStore u64 | FinSpawn
  | DataPush u64 bytes | DataCheck
  | CloseCas | CloseLoad | CloseTest u64 | CloseBack | CloseStore | CloseNotify
  | ForceSwap | ForceNotify

text \<open>One step of a thread: the shared state, where the thread goes on (\<open>None\<close>: it is done), threads it starts.\<close>

definition act :: "pc \<Rightarrow> hshared \<Rightarrow> hshared \<times> pc option \<times> pc list" where
  "act p s =
     (case p of
        FinSwap q \<Rightarrow>
          if hs_fin_received s then (s, None, []) else (s\<lparr>hs_fin_received := True\<rparr>, Some (FinStore q), [])
      | FinStore q \<Rightarrow> (s\<lparr>hs_fin_seq := q, hs_stored := True\<rparr>, Some FinSpawn, [])
      | FinSpawn \<Rightarrow> (s, Some CloseCas, [ForceSwap])
      | DataPush q pl \<Rightarrow>
          let (b, r) = push (hs_reorder s) q pl
          in (s\<lparr>hs_reorder := b\<rparr>, if accepted r then Some DataCheck else None, [])
      | DataCheck \<Rightarrow> (s, if hs_fin_received s then Some CloseCas else None, [])
      | CloseCas \<Rightarrow>
          if hs_state s = 0 then (s\<lparr>hs_state := 1\<rparr>, Some CloseLoad, []) else (s, None, [])
      | CloseLoad \<Rightarrow> (s\<lparr>hs_early := hs_early s \<or> \<not> hs_stored s\<rparr>, Some (CloseTest (hs_fin_seq s)), [])
      | CloseTest q \<Rightarrow>
          (s, Some (if is_complete_through (hs_reorder s) q then CloseStore else CloseBack), [])
      | CloseBack \<Rightarrow> (if hs_state s = 1 then s\<lparr>hs_state := 0\<rparr> else s, None, [])
      | CloseStore \<Rightarrow> (s\<lparr>hs_state := 2\<rparr>, Some CloseNotify, [])
      | CloseNotify \<Rightarrow> (s\<lparr>hs_half_close := notify_one (hs_half_close s)\<rparr>, None, [])
      | ForceSwap \<Rightarrow>
          if hs_state s = 2 then (s, None, [])
          else (s\<lparr>hs_state := 2, hs_forced := True\<rparr>, Some ForceNotify, [])
      | ForceNotify \<Rightarrow> (s\<lparr>hs_half_close := notify_one (hs_half_close s)\<rparr>, None, []))"

definition hinit :: "nat \<Rightarrow> hshared" where
  "hinit window = \<lparr>hs_state = 0, hs_fin_received = False, hs_fin_seq = 0, hs_reorder = with_limit window,
     hs_half_close = False, hs_forced = False, hs_stored = False, hs_early = False\<rparr>"

text \<open>
  The threads form a multiset.  A handler may start at any time (the FIN carries \<open>fin\<close>, DATA frames
  carry smaller numbers); in a step one thread acts.
\<close>

inductive hreach :: "nat \<Rightarrow> u64 \<Rightarrow> hshared \<Rightarrow> pc multiset \<Rightarrow> bool" for window fin where
  hstart: "1 \<le> fin \<Longrightarrow> hreach window fin (hinit window) {#}"
| hfin: "hreach window fin s M \<Longrightarrow> hreach window fin s (add_mset (FinSwap fin) M)"
| hdata: "hreach window fin s M \<Longrightarrow> q < fin \<Longrightarrow> hreach window fin s (add_mset (DataPush q pl) M)"
| hrun: "hreach window fin s (add_mset p M) \<Longrightarrow> act p s = (s', next, new) \<Longrightarrow>
     hreach window fin s' (M + mset (case next of Some p' \<Rightarrow> [p'] | None \<Rightarrow> []) + mset new)"

subsection \<open>Lemmas: the buffer\<close>

definition below :: "u64 \<Rightarrow> reorder_buf \<Rightarrow> bool" where
  "below fin b \<longleftrightarrow> rb_expected b \<le> fin \<and> (\<forall>k. thas (rb_pending b) k \<longrightarrow> k < fin)"

lemma less_imp_succ_le: "k < fin \<Longrightarrow> k + 1 \<le> fin \<and> k < k + 1" for k fin :: u64
proof -
  assume "k < fin"
  then have "unat k + 1 \<le> unat fin" by (simp add: word_less_nat_alt)
  moreover from this have "unat (k + 1) = unat k + 1"
    using unat_less_pow [of fin] by (simp add: unat_word_ariths)
  ultimately show ?thesis by (simp add: word_less_nat_alt word_le_nat_alt)
qed

lemma drain_pending_below:
  "drain_pending b out = (b', out') \<Longrightarrow> below fin b \<Longrightarrow> below fin b' \<and> rb_expected b \<le> rb_expected b'"
proof (induction b out rule: drain_pending.induct)
  case (1 b out)
  show ?case
  proof (cases "tget (rb_pending b) (rb_expected b)")
    case None
    then show ?thesis using "1.prems" by (simp add: drain_pending.simps [of b])
  next
    case (Some c)
    let ?b = "b\<lparr>rb_pending := tdel (rb_expected b) (rb_pending b),
      rb_pending_bytes := rb_pending_bytes b - length c, rb_expected := rb_expected b + 1\<rparr>"
    have k: "rb_expected b < fin" using Some "1.prems"(2) by (simp add: below_def thas_def)
    have "below fin ?b"
      using "1.prems"(2) less_imp_succ_le [OF k] by (simp add: below_def table_simps)
    moreover have "drain_pending ?b (out @ [c]) = (b', out')" using "1.prems"(1) Some by (simp add: drain_pending.simps [of b])
    ultimately show ?thesis using "1.IH" [OF Some] less_imp_succ_le [OF k] by auto
  qed
qed

lemma push_below:
  assumes "push b q pl = (b', r)" and "below fin b" and "q < fin"
  shows "below fin b' \<and> rb_expected b \<le> rb_expected b'"
proof (cases "q = rb_expected b")
  case True
  let ?b = "b\<lparr>rb_expected := rb_expected b + 1\<rparr>"
  obtain b1 out where d: "drain_pending ?b [pl] = (b1, out)" by force
  have "below fin ?b" using assms(2,3) less_imp_succ_le [of q fin] True by (simp add: below_def)
  with drain_pending_below [OF d] have "below fin b1" "rb_expected b + 1 \<le> rb_expected b1" by auto
  then show ?thesis using assms(1) d True less_imp_succ_le [OF assms(3)] by (auto simp: push_def)
qed (use assms in \<open>auto simp: push_def below_def table_simps Let_def split: if_splits option.splits\<close>)

lemma complete_mono: "rb_expected b \<le> rb_expected b' \<Longrightarrow> is_complete_through b q \<Longrightarrow> is_complete_through b' q"
  by (auto simp: is_complete_through_def)

subsection \<open>The invariant\<close>

fun closing :: "pc \<Rightarrow> bool" where
  "closing CloseLoad = True" | "closing (CloseTest q) = True" | "closing CloseBack = True"
| "closing CloseStore = True" | "closing _ = False"

definition closers :: "pc multiset \<Rightarrow> nat" where
  "closers M = size (filter_mset closing M)"

lemma closers_simps [simp]:
  "closers {#} = 0" "closers (add_mset p M) = of_bool (closing p) + closers M"
  by (simp_all add: closers_def)

definition thread_ok :: "u64 \<Rightarrow> hshared \<Rightarrow> pc \<Rightarrow> bool" where
  "thread_ok fin s p =
     (case p of
        FinSwap q \<Rightarrow> q = fin
      | FinStore q \<Rightarrow> q = fin \<and> hs_fin_received s
      | FinSpawn \<Rightarrow> hs_stored s
      | DataPush q pl \<Rightarrow> q < fin
      | CloseTest q \<Rightarrow> hs_early s \<or> q = fin \<and> hs_stored s
      | CloseStore \<Rightarrow> hs_early s \<or> hs_stored s \<and> is_complete_through (hs_reorder s) fin
      | CloseNotify \<Rightarrow> hs_state s = 2
      | ForceNotify \<Rightarrow> hs_state s = 2
      | _ \<Rightarrow> True)"

definition one_closer :: "hshared \<Rightarrow> pc multiset \<Rightarrow> bool" where
  "one_closer s M \<longleftrightarrow> (hs_state s = 0 \<or> hs_state s = 1 \<or> hs_state s = 2)
     \<and> closers M \<le> (if hs_state s = 0 then 0 else 1)"

definition fin_once :: "u64 \<Rightarrow> hshared \<Rightarrow> pc multiset \<Rightarrow> bool" where
  "fin_once fin s M \<longleftrightarrow> count M (FinStore fin) = of_bool (hs_fin_received s \<and> \<not> hs_stored s)
     \<and> (hs_stored s \<longrightarrow> hs_fin_received s \<and> hs_fin_seq s = fin)"

definition timer_set :: "hshared \<Rightarrow> pc multiset \<Rightarrow> bool" where
  "timer_set s M \<longleftrightarrow> (hs_stored s \<longrightarrow> FinSpawn \<in># M \<or> ForceSwap \<in># M \<or> hs_state s = 2)"

definition notified :: "hshared \<Rightarrow> pc multiset \<Rightarrow> bool" where
  "notified s M \<longleftrightarrow> (hs_state s = 2 \<longrightarrow> hs_half_close s \<or> CloseNotify \<in># M \<or> ForceNotify \<in># M)"

definition closed_ok :: "u64 \<Rightarrow> hshared \<Rightarrow> bool" where
  "closed_ok fin s \<longleftrightarrow> (hs_forced s \<longrightarrow> hs_state s = 2)
     \<and> (hs_state s = 2 \<longrightarrow> hs_forced s \<or> hs_early s \<or> hs_stored s \<and> is_complete_through (hs_reorder s) fin)"

definition hinv :: "u64 \<Rightarrow> hshared \<Rightarrow> pc multiset \<Rightarrow> bool" where
  "hinv fin s M \<longleftrightarrow> below fin (hs_reorder s) \<and> one_closer s M \<and> fin_once fin s M \<and> timer_set s M \<and> notified s M
     \<and> closed_ok fin s \<and> (\<forall>p \<in># M. thread_ok fin s p)"

text \<open>What no step takes back.\<close>

definition fwd :: "hshared \<Rightarrow> hshared \<Rightarrow> bool" where
  "fwd s s' \<longleftrightarrow> (hs_fin_received s \<longrightarrow> hs_fin_received s') \<and> (hs_stored s \<longrightarrow> hs_stored s') \<and> (hs_early s \<longrightarrow> hs_early s')
     \<and> (hs_state s = 2 \<longrightarrow> hs_state s' = 2) \<and> rb_expected (hs_reorder s) \<le> rb_expected (hs_reorder s')"

lemma thread_ok_fwd: "fwd s s' \<Longrightarrow> thread_ok fin s p \<Longrightarrow> thread_ok fin s' p"
  by (cases p) (auto simp: thread_ok_def fwd_def intro: complete_mono)

lemma act_fwd:
  assumes "act p s = (s', next, new)" and "below fin (hs_reorder s)" and "thread_ok fin s p"
    and "closing p \<Longrightarrow> hs_state s \<noteq> 0"
  shows "fwd s s'"
proof (cases p)
  case (DataPush q pl)
  obtain b r where b: "push (hs_reorder s) q pl = (b, r)" by force
  then show ?thesis
    using assms(1-3) push_below [OF b, of fin] DataPush by (auto simp: act_def fwd_def thread_ok_def)
qed (use assms(1) in \<open>auto simp: act_def fwd_def split: if_splits\<close>)

lemma act_thread_ok:
  assumes "act p s = (s', next, new)" and "thread_ok fin s p" and "hs_stored s \<Longrightarrow> hs_fin_seq s = fin"
  shows "(\<forall>p'. next = Some p' \<longrightarrow> thread_ok fin s' p') \<and> (\<forall>p' \<in> set new. thread_ok fin s' p')"
  using assms by (cases p) (auto simp: act_def thread_ok_def Let_def split: if_splits prod.splits)


abbreviation after :: "pc multiset \<Rightarrow> pc option \<Rightarrow> pc list \<Rightarrow> pc multiset" where
  "after M next new \<equiv> M + mset (case next of Some p' \<Rightarrow> [p'] | None \<Rightarrow> []) + mset new"

lemmas act_simps = act_def thread_ok_def notify_one_def Let_def

lemma act_one_closer: "act p s = (s', next, new) \<Longrightarrow> one_closer s (add_mset p M) \<Longrightarrow> one_closer s' (after M next new)"
  by (cases p) (auto simp: act_simps one_closer_def split: if_splits prod.splits)

lemma Suc_eq_of_bool [simp]: "Suc n = of_bool P \<longleftrightarrow> P \<and> n = 0"
  by (cases P) auto

lemma act_fin_once:
  "act p s = (s', next, new) \<Longrightarrow> fin_once fin s (add_mset p M) \<Longrightarrow> thread_ok fin s p \<Longrightarrow> fin_once fin s' (after M next new)"
  by (cases p) (auto simp: act_simps fin_once_def split: if_splits prod.splits)

lemma act_timer_set: "act p s = (s', next, new) \<Longrightarrow> timer_set s (add_mset p M) \<Longrightarrow> one_closer s (add_mset p M) \<Longrightarrow> timer_set s' (after M next new)"
  by (cases p) (auto simp: act_simps timer_set_def split: if_splits prod.splits)

lemma act_notified: "act p s = (s', next, new) \<Longrightarrow> notified s (add_mset p M) \<Longrightarrow> notified s' (after M next new)"
  by (cases p) (auto simp: act_simps notified_def split: if_splits prod.splits)

lemma act_below: "act p s = (s', next, new) \<Longrightarrow> below fin (hs_reorder s) \<Longrightarrow> thread_ok fin s p \<Longrightarrow> below fin (hs_reorder s')"
  by (cases p) (auto simp: act_simps split: if_splits prod.splits dest: push_below)

lemma act_closed_ok:
  assumes "act p s = (s', next, new)" and "closed_ok fin s" and "thread_ok fin s p" and "fwd s s'"
  shows "closed_ok fin s'"
  using assms
  by (cases p) (auto simp: act_simps closed_ok_def fwd_def split: if_splits prod.splits intro: complete_mono)

lemma act_hinv:
  assumes "act p s = (s', next, new)" and "hinv fin s (add_mset p M)"
  shows "fwd s s' \<and> hinv fin s' (after M next new)"
proof -
  have p: "below fin (hs_reorder s)" "one_closer s (add_mset p M)" "fin_once fin s (add_mset p M)" "thread_ok fin s p"
    "timer_set s (add_mset p M)" "notified s (add_mset p M)" "closed_ok fin s" "\<forall>p' \<in># M. thread_ok fin s p'"
    using assms(2) by (simp_all add: hinv_def)
  have f: "fwd s s'"
    using act_fwd [OF assms(1) p(1,4)] p(2) by (auto simp: one_closer_def split: if_splits)
  have "\<forall>p' \<in># M. thread_ok fin s' p'" using p(8) thread_ok_fwd [OF f] by blast
  moreover have "hs_stored s \<Longrightarrow> hs_fin_seq s = fin" using p(3) by (simp add: fin_once_def)
  ultimately have "\<forall>p' \<in># after M next new. thread_ok fin s' p'"
    using act_thread_ok [OF assms(1) p(4)] by (cases "next") auto
  then show ?thesis
    using f act_below [OF assms(1) p(1,4)] act_one_closer [OF assms(1) p(2)] act_fin_once [OF assms(1) p(3,4)]
      act_timer_set [OF assms(1) p(5,2)] act_notified [OF assms(1) p(6)] act_closed_ok [OF assms(1) p(7,4) f]
    by (simp add: hinv_def)
qed

lemmas hinv_simps = hinv_def one_closer_def fin_once_def timer_set_def notified_def closed_ok_def

lemma hreach_hinv: "hreach window fin s M \<Longrightarrow> hinv fin s M"
proof (induction rule: hreach.induct)
  case hstart
  then show ?case
    by (simp add: hinv_simps hinit_def below_def with_limit_def table_simps)
next
  case (hfin s M)
  then show ?case by (simp add: hinv_simps thread_ok_def)
next
  case (hdata s M q pl)
  then show ?case by (simp add: hinv_simps thread_ok_def)
next
  case (hrun s p M s' "next" new)
  then show ?case using act_hinv by blast
qed

subsection \<open>Runs without new handlers\<close>

inductive hexec :: "hshared \<Rightarrow> pc multiset \<Rightarrow> nat \<Rightarrow> hshared \<Rightarrow> pc multiset \<Rightarrow> bool" for s M where
  hexec_0: "hexec s M 0 s M"
| hexec_Suc: "hexec s M n s' (add_mset p M') \<Longrightarrow> act p s' = (s'', next, new) \<Longrightarrow>
    hexec s M (Suc n) s'' (after M' next new)"

text \<open>How many steps a thread still takes, those of the threads it starts included.\<close>

fun rank :: "pc \<Rightarrow> nat" where
  "rank (FinSwap q) = 10" | "rank (FinStore q) = 9" | "rank FinSpawn = 8"
| "rank (DataPush q pl) = 7" | "rank DataCheck = 6"
| "rank CloseCas = 5" | "rank CloseLoad = 4" | "rank (CloseTest q) = 3" | "rank CloseBack = 1"
| "rank CloseStore = 2" | "rank CloseNotify = 1" | "rank ForceSwap = 2" | "rank ForceNotify = 1"

definition work :: "pc multiset \<Rightarrow> nat" where
  "work M = (\<Sum>p \<in># M. rank p)"

lemma act_work: "act p s = (s', next, new) \<Longrightarrow> work (after M next new) < work (add_mset p M)"
  by (cases p) (auto simp: act_def work_def Let_def split: if_splits prod.splits)

lemma act_rank: "act p s = (s', Some p', new) \<Longrightarrow> rank p' < rank p"
  using act_work [of p s s' "Some p'" new "{#}"] by (simp add: work_def)

lemma hexec_work: "hexec s M n s' M' \<Longrightarrow> n + work M' \<le> work M"
proof (induction rule: hexec.induct)
  case (hexec_Suc n s' p M' s'' "next" new)
  then show ?case using act_work [OF hexec_Suc.hyps(2), of M'] by simp
qed simp

lemma hexec_hreach: "hexec s M n s' M' \<Longrightarrow> hreach window fin s M \<Longrightarrow> hreach window fin s' M'"
  by (induction rule: hexec.induct) (auto intro: hrun)

lemma hexec_fwd: "hexec s M n s' M' \<Longrightarrow> hinv fin s M \<Longrightarrow> hinv fin s' M' \<and> fwd s s'"
proof (induction rule: hexec.induct)
  case (hexec_Suc n s' p M' s'' "next" new)
  then have "hinv fin s' (add_mset p M')" "fwd s s'" by auto
  with act_hinv [OF hexec_Suc.hyps(2)] have "hinv fin s'' (after M' next new)" "fwd s' s''" by blast+
  with \<open>fwd s s'\<close> show ?case by (auto simp: fwd_def)
qed (simp add: fwd_def)

lemma hexec_not_stuck:
  assumes "hexec s M n s' M'" and "M' \<noteq> {#}"
  shows "\<exists>s'' M''. hexec s M (Suc n) s'' M''"
proof -
  obtain p M1 where M': "M' = add_mset p M1" using assms(2) multi_nonempty_split by blast
  obtain s'' "next" new where "act p s' = (s'', next, new)" by (cases "act p s'") auto
  then show ?thesis using hexec_Suc assms(1) M' by blast
qed

subsection \<open>Concrete schedules\<close>

text \<open>A schedule starts handlers and lets the thread at a position act; a thread that goes on keeps its place.\<close>

datatype move = Start pc | Run nat

fun play :: "hshared \<times> pc list \<Rightarrow> move list \<Rightarrow> hshared \<times> pc list" where
  "play sp [] = sp"
| "play (s, ps) (Start p # ms) = play (s, ps @ [p]) ms"
| "play (s, ps) (Run i # ms) =
     (if i < length ps
      then let (s', nxt, new) = act (ps ! i) s
           in play (s', take i ps @ (case nxt of Some p \<Rightarrow> [p] | None \<Rightarrow> []) @ drop (Suc i) ps @ new) ms
      else play (s, ps) ms)"

fun may_start :: "u64 \<Rightarrow> move \<Rightarrow> bool" where
  "may_start fin (Start (FinSwap q)) = (q = fin)"
| "may_start fin (Start (DataPush q pl)) = (q < fin)"
| "may_start fin (Start p) = False"
| "may_start fin (Run i) = True"

lemma play_hreach:
  assumes "hreach window fin s (mset ps)" and "list_all (may_start fin) ms" and "play (s, ps) ms = (s', ps')"
  shows "hreach window fin s' (mset ps')"
  using assms
proof (induction "(s, ps)" ms arbitrary: s ps rule: play.induct)
  case (2 s ps p ms)
  then have "hreach window fin s (mset (ps @ [p]))" by (cases p) (auto intro: hfin hdata)
  then show ?case using 2 by simp
next
  case (3 s ps i ms)
  show ?case
  proof (cases "i < length ps")
    case True
    obtain s1 nxt new where a: "act (ps ! i) s = (s1, nxt, new)" by (cases "act (ps ! i) s") auto
    have "mset ps = add_mset (ps ! i) (mset (take i ps) + mset (drop (Suc i) ps))"
      using arg_cong [OF id_take_nth_drop [OF True], of mset] by simp
    with "3.prems"(1) have "hreach window fin s (add_mset (ps ! i) (mset (take i ps) + mset (drop (Suc i) ps)))"
      by (simp only:)
    from hrun [OF this a] have "hreach window fin s1 (mset (take i ps @ (case nxt of Some p \<Rightarrow> [p] | None \<Rightarrow> []) @ drop (Suc i) ps @ new))"
      by (simp add: ac_simps)
    then show ?thesis using 3 True a by simp
  next
    case False
    then show ?thesis using 3 by simp
  qed
qed simp

text \<open>A DATA handler between the two stores of the FIN handler.\<close>

definition early_close_run :: "move list" where
  "early_close_run = [Start (FinSwap 3), Start (DataPush 1 [7]), Run 0, Run 1, Run 1, Run 1, Run 1, Run 1, Run 1]"

text \<open>A DATA handler that fills the gap between the closer's test and its rollback.\<close>

definition lost_close_run :: "move list" where
  "lost_close_run = [Start (FinSwap 2), Start (DataPush 1 [7]), Run 0, Run 0, Run 0, Run 0, Run 0, Run 0,
     Run 1, Run 1, Run 1, Run 0]"

definition lone_close_run :: "move list" where
  "lone_close_run = [Start (FinSwap 1), Run 0, Run 0, Run 0, Run 0, Run 0, Run 0, Run 0]"

lemma two_not_le_one [simp]: "\<not> (2 :: u64) \<le> 1"
  by (simp add: word_le_nat_alt)

lemmas race_simps = lone_close_run_def act_def hinit_def with_limit_def push_def is_complete_through_def table_simps
  drain_pending.simps notify_one_def early_close_run_def lost_close_run_def

subsection \<open>A thread that runs alone\<close>

function solo :: "pc \<Rightarrow> hshared \<Rightarrow> hshared \<times> pc list" where
  "solo p s =
     (case act p s of
        (s', None, new) \<Rightarrow> (s', new)
      | (s', Some p', new) \<Rightarrow> let (s'', new') = solo p' s' in (s'', new @ new'))"
  by auto

termination
  by (relation "measure (rank \<circ> fst)") (auto dest: act_rank [OF sym])

declare solo.simps [simp del]

text \<open>What the two models share.\<close>

definition hview :: "hshared \<Rightarrow> u8 \<times> bool \<times> u64 \<times> reorder_buf \<times> notify \<times> bool" where
  "hview s = (hs_state s, hs_fin_received s, hs_fin_seq s, hs_reorder s, hs_half_close s, hs_forced s)"

definition vview :: "vconn \<Rightarrow> u8 \<times> bool \<times> u64 \<times> reorder_buf \<times> notify \<times> bool" where
  "vview vc = (vc_half_close_state vc, vc_fin_received vc, vc_fin_seq vc, vc_reorder vc, vc_half_close vc, vc_forced vc)"

lemmas solo_simps = solo.simps act_def hview_def vview_def Let_def

lemma solo_close: "hview s = vview vc \<Longrightarrow> hview (fst (solo CloseCas s)) = vview (close_write_half False vc) \<and> snd (solo CloseCas s) = []"
  by (simp add: solo_simps close_write_half_def)

lemma solo_force: "hview s = vview vc \<Longrightarrow> hview (fst (solo ForceSwap s)) = vview (close_write_half True vc) \<and> snd (solo ForceSwap s) = []"
  by (simp add: solo_simps close_write_half_def)

lemma solo_fin:
  "hview s = vview vc \<Longrightarrow> hview (fst (solo (FinSwap q) s)) = vview (snd (start_half_close q vc))
     \<and> snd (solo (FinSwap q) s) = (if fst (start_half_close q vc) then [ForceSwap] else [])"
  by (simp add: solo_simps start_half_close_def close_write_half_def)

subsection \<open>Properties\<close>

text \<open>
  C31.  In every interleaving of FIN handlers, DATA handlers and force-close timers: at most one thread is
  between the two compare-and-swaps, and only when the state is not open; a closed write half stays
  closed; and a write half that no timer forced and for which no closer read the FIN number before it
  was stored is closed with every chunk below the FIN handed over.
\<close>

theorem half_close_interleavings:
  assumes "hreach window fin s M"
  shows "closers M \<le> (if hs_state s = 0 then 0 else 1)
    \<and> (\<forall>p s' nxt new. p \<in># M \<and> act p s = (s', nxt, new) \<and> hs_state s = 2 \<longrightarrow> hs_state s' = 2)
    \<and> (hs_state s = 2 \<and> \<not> hs_forced s \<and> \<not> hs_early s
        \<longrightarrow> hs_fin_seq s = fin \<and> is_complete_through (hs_reorder s) fin)"
proof -
  have inv: "hinv fin s M" by (rule hreach_hinv [OF assms])
  have "hs_state s' = 2" if m: "p \<in># M" and a: "act p s = (s', nxt, new)" and c: "hs_state s = 2" for p s' nxt new
  proof -
    from m obtain M1 where "M = add_mset p M1" by (blast dest: multi_member_split)
    with inv have "fwd s s'" using act_hinv [OF a] by blast
    then show ?thesis using c by (simp add: fwd_def)
  qed
  moreover have "hs_fin_seq s = fin \<and> is_complete_through (hs_reorder s) fin"
    if "hs_state s = 2" "\<not> hs_forced s" "\<not> hs_early s"
    using that inv by (auto simp: hinv_def closed_ok_def fin_once_def)
  moreover have "closers M \<le> (if hs_state s = 0 then 0 else 1)" using inv by (simp add: hinv_def one_closer_def)
  ultimately show ?thesis by blast
qed

theorem half_close_interleavings_witness:
  "hs_state (fst (play (hinit 8, []) lone_close_run)) = 2
    \<and> hs_fin_seq (fst (play (hinit 8, []) lone_close_run)) = 1"
proof -
  have r: "hreach 8 1 (hinit 8) (mset [])" using hstart by simp
  obtain s' ps' where p: "play (hinit 8, []) lone_close_run = (s', ps')" by force
  have "hreach 8 1 s' (mset ps')" by (rule play_hreach [OF r _ p]) (simp add: lone_close_run_def)
  moreover have "hs_state s' = 2" "\<not> hs_forced s'" "\<not> hs_early s'"
    using p by (auto simp: race_simps)
  ultimately have "hs_fin_seq s' = 1" using half_close_interleavings by blast
  with p \<open>hs_state s' = 2\<close> show ?thesis by simp
qed

text \<open>
  C32.  Once a FIN has been received the write half gets closed: whatever the order in which the
  threads act, they stop after at most \<open>work\<close> steps, a run can always go on while a thread is left, and
  when none is left the state is closed and the writer has been notified.
\<close>

theorem half_close_happens:
  assumes "hreach window fin s M" and "hs_fin_received s" and "hexec s M n s' M'"
  shows "n \<le> work M \<and> (M' \<noteq> {#} \<longrightarrow> (\<exists>s'' M''. hexec s M (Suc n) s'' M''))
    \<and> (M' = {#} \<longrightarrow> hs_state s' = 2 \<and> hs_half_close s')"
proof -
  have "hinv fin s' M'" "fwd s s'" using hexec_fwd [OF assms(3) hreach_hinv [OF assms(1)]] by auto
  then have "hs_state s' = 2 \<and> hs_half_close s'" if "M' = {#}"
    using that assms(2) by (auto simp: hinv_simps fwd_def split: if_splits)
  then show ?thesis using hexec_work [OF assms(3)] hexec_not_stuck [OF assms(3)] by auto
qed

theorem half_close_happens_witness:
  "\<exists>s'. hexec (fst (play (hinit 8, []) lost_close_run)) {#ForceSwap#} 2 s' {#} \<and> hs_state s' = 2 \<and> hs_half_close s'"
proof -
  have r: "hreach 8 2 (hinit 8) (mset [])" using hstart by simp
  obtain s ps where p: "play (hinit 8, []) lost_close_run = (s, ps)" by force
  have ps: "ps = [ForceSwap]" "hs_fin_received s" "hs_state s = 0" using p by (auto simp: race_simps)
  have "hreach 8 2 s (mset ps)" by (rule play_hreach [OF r _ p]) (simp add: lost_close_run_def)
  then have h: "hreach 8 2 s {#ForceSwap#}" using ps by simp
  let ?s = "s\<lparr>hs_state := 2, hs_forced := True\<rparr>"
  have "hexec s {#ForceSwap#} (Suc 0) ?s (after {#} (Some ForceNotify) [])"
    by (rule hexec_Suc [OF hexec_0]) (simp add: act_def ps)
  then have "hexec s {#ForceSwap#} (Suc (Suc 0)) (?s\<lparr>hs_half_close := True\<rparr>) (after {#} None [])"
    by (intro hexec_Suc [where p = ForceNotify]) (simp_all add: act_def notify_one_def)
  then have e: "hexec s {#ForceSwap#} 2 (?s\<lparr>hs_half_close := True\<rparr>) {#}"
    by (simp add: numeral_2_eq_2)
  show ?thesis using half_close_happens [OF h ps(2) e] e p by auto
qed

text \<open>
  C33.  Two interleavings that the code does not mean to have.  A DATA handler that runs between the swap
  of \<open>fin_received\<close> and the store of \<open>fin_seq\<close> closes the write half, unforced, before the stream is complete.
  And a DATA handler that completes the stream while a closer is about to roll back gives up, so that
  the complete stream stays open with only the force-close timer left.
\<close>

theorem half_close_races:
  "(\<exists>s M. hreach 8 3 s M \<and> hs_state s = 2 \<and> \<not> hs_forced s \<and> \<not> is_complete_through (hs_reorder s) 3)
    \<and> (\<exists>s. hreach 8 2 s {#ForceSwap#} \<and> hs_fin_received s \<and> hs_fin_seq s = 2
         \<and> is_complete_through (hs_reorder s) 2 \<and> hs_state s = 0)"
proof
  obtain s ps where p: "play (hinit 8, []) early_close_run = (s, ps)" by force
  have "hreach 8 3 s (mset ps)" by (rule play_hreach [OF _ _ p]) (simp_all add: early_close_run_def hstart)
  moreover have "hs_state s = 2 \<and> \<not> hs_forced s \<and> \<not> is_complete_through (hs_reorder s) 3"
    using p by (auto simp: race_simps)
  ultimately show "\<exists>s M. hreach 8 3 s M \<and> hs_state s = 2 \<and> \<not> hs_forced s \<and> \<not> is_complete_through (hs_reorder s) 3"
    by blast
next
  obtain s ps where p: "play (hinit 8, []) lost_close_run = (s, ps)" by force
  have "hreach 8 2 s (mset ps)" by (rule play_hreach [OF _ _ p]) (simp_all add: lost_close_run_def hstart)
  moreover have "ps = [ForceSwap] \<and> hs_fin_received s \<and> hs_fin_seq s = 2 \<and> is_complete_through (hs_reorder s) 2 \<and> hs_state s = 0"
    using p by (auto simp: race_simps)
  ultimately show "\<exists>s. hreach 8 2 s {#ForceSwap#} \<and> hs_fin_received s \<and> hs_fin_seq s = 2
         \<and> is_complete_through (hs_reorder s) 2 \<and> hs_state s = 0" by auto
qed

end
