(* ===== verification/WireTests.thy ===== *)
theory WireTests
  imports Config Reorder Socks5
begin

text \<open>
  The unit tests of \<open>frame.rs\<close>, \<open>reorder.rs\<close>, \<open>config.rs\<close> and \<open>socks5.rs\<close> run on the model: each test
  function of the source is a definition \<open>test_..\<close> that says what the test asserts, and a lemma proves
  it.  They check the definitions of the model against what the authors of the program expect of
  the code.  A reader over a byte vector is a list of read results; a section of a TOML text is the
  record of its keys.
\<close>

section \<open>Wire format (\<open>frame.rs\<close>)\<close>

definition test_decoder_single_frame :: bool where
  "test_decoder_single_frame \<longleftrightarrow>
     (case encode (frame_data 1 42 (ascii ''payload'')) of
        Inr encoded \<Rightarrow>
          (case try_next [] [RdBytes encoded] of
             (DFrame got, _) \<Rightarrow> conn_id got = 1 \<and> seq got = 42 \<and> flags got = FLAG_DATA \<and> payload got = ascii ''payload''
           | _ \<Rightarrow> False)
      | Inl _ \<Rightarrow> False)"

definition test_decoder_multiple_frames :: bool where
  "test_decoder_multiple_frames \<longleftrightarrow>
     (case (encode (frame_data 1 1 (ascii ''aaa'')), encode (frame_data 1 2 (ascii ''bb''))) of
        (Inr e1, Inr e2) \<Rightarrow>
          (case try_next [] [RdBytes (e1 @ e2)] of
             (DFrame g1, buf, rd) \<Rightarrow>
               (case try_next buf rd of
                  (DFrame g2, _) \<Rightarrow> payload g1 = ascii ''aaa'' \<and> payload g2 = ascii ''bb''
                | _ \<Rightarrow> False)
           | _ \<Rightarrow> False)
      | _ \<Rightarrow> False)"

text \<open>One byte per reader, then an empty read: every call but the last one fails and keeps its bytes.\<close>

fun tiny_reads :: "bytes \<Rightarrow> bytes \<Rightarrow> frame option" where
  "tiny_reads buf [] = None"
| "tiny_reads buf (x # xs) =
     (case try_next buf [RdBytes [x], RdBytes []] of
        (DFrame f, _) \<Rightarrow> Some f
      | (_, buf', _) \<Rightarrow> tiny_reads buf' xs)"

definition test_decoder_tiny_reads :: bool where
  "test_decoder_tiny_reads \<longleftrightarrow>
     (case syn_encode \<lparr>proto = PROTO_TCP, address = ascii ''example.com'', port = 443\<rparr> of
        Inr p \<Rightarrow>
          (case encode (frame_syn 7 p) of
             Inr encoded \<Rightarrow>
               (case tiny_reads [] encoded of
                  Some f \<Rightarrow> conn_id f = 7 \<and> flags f = FLAG_SYN
                    \<and> (case syn_decode (payload f) of Inr t \<Rightarrow> address t = ascii ''example.com'' | Inl _ \<Rightarrow> False)
                | None \<Rightarrow> False)
           | Inl _ \<Rightarrow> False)
      | Inl _ \<Rightarrow> False)"

definition test_frame_roundtrip :: bool where
  "test_frame_roundtrip \<longleftrightarrow>
     (case encode (frame_data 42 7 (ascii ''hello'')) of
        Inr e \<Rightarrow> length e = HEADER_LEN + 5
          \<and> (from_be_bytes [e ! 0, e ! 1, e ! 2, e ! 3] :: u32) = 42
          \<and> (from_be_bytes (take 8 (drop 4 e)) :: u64) = 7
          \<and> e ! 12 = FLAG_DATA \<and> unat (from_be_bytes [e ! 13, e ! 14] :: u16) = 5
          \<and> drop 15 e = ascii ''hello''
      | Inl _ \<Rightarrow> False)"

definition test_encode_rejects_oversized_payload :: bool where
  "test_encode_rejects_oversized_payload \<longleftrightarrow>
     isl (encode (frame_data 1 1 (replicate (MAX_PAYLOAD + 1) 0)))
     \<and> \<not> isl (encode (frame_data 1 1 (replicate MAX_PAYLOAD 0)))"

definition test_syn_target_roundtrip :: bool where
  "test_syn_target_roundtrip \<longleftrightarrow>
     (case syn_encode \<lparr>proto = PROTO_TCP, address = ascii ''example.com'', port = 443\<rparr> of
        Inr encoded \<Rightarrow>
          (case syn_decode encoded of
             Inr t \<Rightarrow> proto t = PROTO_TCP \<and> address t = ascii ''example.com'' \<and> port t = 443
           | Inl _ \<Rightarrow> False)
      | Inl _ \<Rightarrow> False)"


lemma decodes_first: "encode f = Inr w \<Longrightarrow> try_next [] [RdBytes (w @ rest)] = (DFrame f, rest, [])"
proof -
  assume e: "encode f = Inr w"
  then have "w \<noteq> []" using encode_length [OF e] by (auto simp: frame_consts)
  moreover have "parse_buffered [] = Inr None" by (simp add: parse_buffered_def frame_consts)
  ultimately have "try_next [] [RdBytes (w @ rest)] = try_next (w @ rest) []"
    by (subst try_next_reads) (simp_all add: frame_consts)
  then show ?thesis using try_next_parsed [OF parse_encoded [OF e]] by simp
qed

lemma encode_small: "length (payload f) \<le> MAX_PAYLOAD \<Longrightarrow> \<exists>w. encode f = Inr w"
  by (simp add: encode_Inr_iff)

lemma tiny_reads_frame:
  assumes "encode f = Inr w"
  shows "buf @ xs = w \<Longrightarrow> xs \<noteq> [] \<Longrightarrow> tiny_reads buf xs = Some f"
proof (induction xs arbitrary: buf)
  case (Cons x xs)
  have len: "length buf < MAX_DECODER_BUF" "length (buf @ [x]) < MAX_DECODER_BUF"
    using arg_cong [OF Cons.prems(1), of length] encode_length [OF assms] assms
    by (simp_all add: frame_consts encode_Inr_iff [of f w])
  have none: "parse_buffered buf = Inr None"
    by (rule parse_incomplete [OF assms Cons.prems(1)]) simp
  have step: "try_next buf [RdBytes [x], RdBytes []] = try_next (buf @ [x]) [RdBytes []]"
    by (rule try_next_reads [OF none len(1)]) simp
  show ?case
  proof (cases "xs = []")
    case True
    then have "parse_buffered (buf @ [x]) = Inr (Some (f, []))"
      using parse_encoded [OF assms, of "[]"] Cons.prems(1) by simp
    then show ?thesis by (simp add: step try_next_parsed)
  next
    case False
    then have "parse_buffered (buf @ [x]) = Inr None"
      using Cons.prems(1) by (intro parse_incomplete [OF assms, of _ xs]) simp_all
    then have "try_next (buf @ [x]) [RdBytes []] = (DErr (EofMidFrame (length (buf @ [x]))), buf @ [x], [])"
      using len(2) by (subst try_next.simps) simp
    then show ?thesis using Cons.IH [of "buf @ [x]"] Cons.prems(1) False by (simp add: step)
  qed
qed simp

lemma decoder_single_frame: "test_decoder_single_frame"
proof -
  obtain w where w: "encode (frame_data 1 42 (ascii ''payload'')) = Inr w"
    using encode_small [of "frame_data 1 42 (ascii ''payload'')"] by (auto simp: frame_consts ascii_def)
  with decodes_first [OF w, of "[]"] show ?thesis by (simp add: test_decoder_single_frame_def frame_data_def)
qed

lemma decoder_multiple_frames: "test_decoder_multiple_frames"
proof -
  obtain w v where w: "encode (frame_data 1 1 (ascii ''aaa'')) = Inr w" and v: "encode (frame_data 1 2 (ascii ''bb'')) = Inr v"
    using encode_small [of "frame_data 1 1 (ascii ''aaa'')"] encode_small [of "frame_data 1 2 (ascii ''bb'')"]
    by (auto simp: frame_consts ascii_def)
  with decodes_first [OF w, of v] try_next_parsed [OF parse_encoded [OF v, of "[]"]] show ?thesis
    by (simp add: test_decoder_multiple_frames_def)
qed

lemma example_com: "utf8_valid (ascii ''example.com'')" "length (ascii ''example.com'') = 11"
  by (rule utf8_valid_ascii, simp add: ascii_def, simp add: ascii_def)

lemma decoder_tiny_reads: "test_decoder_tiny_reads"
proof -
  let ?t = "\<lparr>proto = PROTO_TCP, address = ascii ''example.com'', port = 443\<rparr>"
  obtain p where p: "syn_encode ?t = Inr p" "length p = 16"
    by (simp add: syn_encode_Inr_iff example_com)
  obtain w where w: "encode (frame_syn 7 p) = Inr w"
    using encode_small [of "frame_syn 7 p"] p(2) by (auto simp: frame_consts)
  then have "w \<noteq> []" using encode_length [OF w] by (auto simp: frame_consts)
  then have "tiny_reads [] w = Some (frame_syn 7 p)" by (intro tiny_reads_frame [OF w]) simp_all
  with p w syn_decode_encoded [OF p(1), of "[]"] show ?thesis
    by (simp add: test_decoder_tiny_reads_def example_com frame_syn_def)
qed

lemma frame_roundtrip: "test_frame_roundtrip"
proof -
  obtain w where w: "encode (frame_data 42 7 (ascii ''hello'')) = Inr w"
    using encode_small [of "frame_data 42 7 (ascii ''hello'')"] by (auto simp: frame_consts ascii_def)
  have "w = [0, 0, 0, 42, 0, 0, 0, 0, 0, 0, 0, 7, FLAG_DATA, 0, 5] @ ascii ''hello''"
    using w by (simp add: encode_Inr_iff put_u32_def put_u64_def put_u16_def to_be_numeral frame_data_def ascii_def)
  then show ?thesis
    unfolding test_frame_roundtrip_def w sum.case
    by (simp add: frame_consts ascii_def from_be_def from_be_bytes_def take_Cons')
qed

lemma encode_rejects_oversized_payload: "test_encode_rejects_oversized_payload"
  by (simp add: test_encode_rejects_oversized_payload_def encode_def encode_into_def)

lemma syn_target_roundtrip: "test_syn_target_roundtrip"
proof -
  let ?t = "\<lparr>proto = PROTO_TCP, address = ascii ''example.com'', port = 443\<rparr>"
  obtain p where p: "syn_encode ?t = Inr p" by (simp add: syn_encode_Inr_iff example_com)
  with syn_decode_encoded [OF p, of "[]"] show ?thesis by (simp add: test_syn_target_roundtrip_def example_com)
qed

section \<open>Reorder buffer (\<open>reorder.rs\<close>)\<close>

text \<open>\<open>for s in 2.. { buf.push(s, chunk) }\<close>, for \<open>n\<close> frames.\<close>

definition push_ahead_of_gap :: "nat \<Rightarrow> bytes \<Rightarrow> reorder_buf \<Rightarrow> reorder_buf" where
  "push_ahead_of_gap n chunk b = fold (\<lambda>i b. fst (push b (word_of_nat (i + 2)) chunk)) [0..<n] b"

text \<open>The same, stopping at the first frame that is not accepted; counts the accepted ones.\<close>

fun push_while_accepted :: "nat list \<Rightarrow> bytes \<Rightarrow> nat \<Rightarrow> reorder_buf \<Rightarrow> nat \<times> reorder_buf" where
  "push_while_accepted [] chunk k b = (k, b)"
| "push_while_accepted (i # is) chunk k b =
     (let (b', r) = push b (word_of_nat (i + 2)) chunk
      in if accepted r then push_while_accepted is chunk (k + 1) b' else (k, b'))"

definition test_overflow_and_completion :: bool where
  "test_overflow_and_completion \<longleftrightarrow>
     (let b = push_ahead_of_gap (MAX_REORDER_WINDOW + 1) (ascii ''x'') (with_limit (8 * 1024 * 1024));
          (b1, overflowed) = push b 1000000 (ascii ''y'');
          (b2, rd) = push b1 1 (ascii ''z'');
          (b3, dup) = push b2 1 (ascii ''z'')
      in overflow overflowed \<and> \<not> accepted overflowed \<and> \<not> is_complete_through b1 2
         \<and> accepted rd \<and> \<not> overflow rd \<and> length (ready rd) = MAX_REORDER_WINDOW + 1
         \<and> is_complete_through b2 (word_of_nat (MAX_REORDER_WINDOW + 2))
         \<and> \<not> is_complete_through b2 (word_of_nat (MAX_REORDER_WINDOW + 3))
         \<and> \<not> accepted dup \<and> \<not> overflow dup)"

definition test_byte_budget_bounds_window :: bool where
  "test_byte_budget_bounds_window \<longleftrightarrow>
     (let chunk = replicate (64 * 1024) 0;
          (n, b) = push_while_accepted [0..<MAX_REORDER_WINDOW] chunk 0 (with_limit (8 * 1024 * 1024));
          (b1, ovf) = push b 1000000 chunk;
          (b2, rd) = push b1 1 (ascii ''z'')
      in n = (8 * 1024 * 1024) div (64 * 1024) \<and> rb_pending_bytes b = 8 * 1024 * 1024
         \<and> overflow ovf \<and> \<not> accepted ovf \<and> accepted rd \<and> length (ready rd) = n + 1 \<and> rb_pending_bytes b2 = 0)"

definition test_default_window_tolerates_four_tunnel_skew :: bool where
  "test_default_window_tolerates_four_tunnel_skew \<longleftrightarrow>
     (let chunk = replicate (64 * 1024) 0;
          (n, b) = push_while_accepted [0..<MAX_REORDER_WINDOW] chunk 0 reorder_new;
          (b1, rd) = push b 1 (ascii ''z'')
      in n = MAX_REORDER_WINDOW \<and> length (ready rd) = MAX_REORDER_WINDOW + 1 \<and> rb_pending_bytes b1 = 0)"

definition test_duplicate_of_pending_frame :: bool where
  "test_duplicate_of_pending_frame \<longleftrightarrow>
     (let (b1, r1) = push reorder_new 2 (replicate 10 0);
          (b2, dup) = push b1 2 (replicate 1000 0);
          (b3, rd) = push b2 1 (ascii ''z'')
      in accepted r1 \<and> rb_pending_bytes b1 = 10 \<and> \<not> accepted dup \<and> \<not> overflow dup \<and> rb_pending_bytes b2 = 10
         \<and> length (ready rd) = 2 \<and> length (ready rd ! 1) = 10 \<and> rb_pending_bytes b3 = 0)"

text \<open>A buffer that waits for number \<open>k + 1\<close> and holds \<open>chunk\<close> at the numbers \<open>k + 2\<close> to \<open>n + 1\<close>.\<close>

definition gap_buf :: "u64 \<Rightarrow> nat \<Rightarrow> nat \<Rightarrow> nat \<Rightarrow> bytes \<Rightarrow> reorder_buf" where
  "gap_buf e k n m chunk =
     \<lparr>rb_expected = e, rb_pending = map (\<lambda>i. (word_of_nat (i + 2), chunk)) [k..<n],
      rb_pending_bytes = (n - k) * length chunk, rb_max_bytes = m, rb_max_entries = max (m div MAX_PAYLOAD) MAX_REORDER_WINDOW\<rparr>"

lemma gap_buf_fields [simp]:
  "rb_expected (gap_buf e k n m c) = e" "rb_pending_bytes (gap_buf e k n m c) = (n - k) * length c"
  by (simp_all add: gap_buf_def)

lemma with_limit_gap_buf: "with_limit m = gap_buf 1 0 0 m chunk"
  by (simp add: with_limit_def gap_buf_def)

lemma gap_number: "i + 2 < 2 ^ 64 \<Longrightarrow> j + 2 < 2 ^ 64 \<Longrightarrow> (word_of_nat (i + 2) :: u64) = word_of_nat (j + 2) \<longleftrightarrow> i = j"
  by (auto simp: word_of_nat_eq_iff take_bit_nat_eq_self simp del: of_nat_add)

lemma tget_gap:
  assumes "n + 2 < 2 ^ 64" and "j + 2 < 2 ^ 64"
  shows "tget (map (\<lambda>i. (word_of_nat (i + 2) :: u64, c)) [k..<n]) (word_of_nat (j + 2)) = (if k \<le> j \<and> j < n then Some c else None)"
  using assms(1)
proof (induction n)
  case (Suc n)
  then show ?case using gap_number [OF _ assms(2), of n] by (auto simp: map_add_def le_Suc_eq simp del: of_nat_add)
qed simp

lemma number_above: "2 \<le> x \<Longrightarrow> x < 2 ^ 64 \<Longrightarrow> (1 :: u64) < word_of_nat x"
  by (simp add: word_less_nat_alt unat_of_nat)

lemma tins_fresh: "tget t k = None \<Longrightarrow> tins k v t = t @ [(k, v)]"
  by (induction t) (auto split: if_splits)

lemma push_gap:
  assumes "n < max (m div MAX_PAYLOAD) MAX_REORDER_WINDOW" and "Suc n * length c \<le> m" and "n + 3 < 2 ^ 64"
  shows "push (gap_buf 1 0 n m c) (word_of_nat (n + 2)) c
    = (gap_buf 1 0 (Suc n) m c, \<lparr>ready = [], accepted = True, overflow = False\<rparr>)"
proof -
  have new: "tget (rb_pending (gap_buf 1 0 n m c)) (word_of_nat (n + 2)) = None"
    using tget_gap [of n n c 0] assms(3) by (simp add: gap_buf_def del: of_nat_add)
  then have ins: "tins (word_of_nat (n + 2)) c (rb_pending (gap_buf 1 0 n m c)) = rb_pending (gap_buf 1 0 (Suc n) m c)"
    by (simp add: gap_buf_def tins_fresh del: of_nat_add)
  have "(1 :: u64) < word_of_nat (n + 2)" using assms(3) by (intro number_above) simp_all
  then have "\<not> word_of_nat (n + 2) < rb_expected (gap_buf 1 0 n m c)" "word_of_nat (n + 2) \<noteq> rb_expected (gap_buf 1 0 n m c)"
    unfolding gap_buf_fields by (rule less_not_sym, rule less_imp_neq [symmetric])
  then show ?thesis using assms(1,2) unfolding push_def new ins
    by (simp add: gap_buf_def del: of_nat_add)
qed

lemma push_gap_full:
  assumes "2 \<le> x" and "x < 2 ^ 64" and "n + 2 \<le> x" and "max (m div MAX_PAYLOAD) MAX_REORDER_WINDOW \<le> n \<or> m < n * length c + length d"
  shows "push (gap_buf 1 0 n m c) (word_of_nat x) d = (gap_buf 1 0 n m c, \<lparr>ready = [], accepted = False, overflow = True\<rparr>)"
proof -
  have "tget (rb_pending (gap_buf 1 0 n m c)) (word_of_nat x) = None"
    using tget_gap [of n "x - 2" c 0] assms by (simp add: gap_buf_def del: of_nat_add)
  then show ?thesis using assms number_above [OF assms(1,2)]
    by (auto simp: push_def gap_buf_def Let_def simp del: of_nat_add)
qed

lemma drain_gap:
  "k \<le> n \<Longrightarrow> n + 3 < 2 ^ 64 \<Longrightarrow> drain_pending (gap_buf (word_of_nat (k + 2)) k n m c) out = (gap_buf (word_of_nat (n + 2)) n n m c, out @ replicate (n - k) c)"
proof (induction "n - k" arbitrary: k out)
  case 0
  then show ?case by (subst drain_pending_None) (simp_all add: gap_buf_def)
next
  case (Suc d)
  then have k: "k < n" by simp
  have "tget (rb_pending (gap_buf (word_of_nat (k + 2)) k n m c)) (rb_expected (gap_buf (word_of_nat (k + 2)) k n m c)) = Some c"
    using tget_gap [of n k c k] Suc.prems k by (simp add: gap_buf_def del: of_nat_add)
  moreover have "drain_one (gap_buf (word_of_nat (k + 2)) k n m c) c = gap_buf (word_of_nat (Suc k + 2)) (Suc k) n m c"
  proof -
    have "tget (map (\<lambda>i. (word_of_nat (i + 2) :: u64, c)) [Suc k..<n]) (word_of_nat (k + 2)) = None"
      using tget_gap [of n k c "Suc k"] Suc.prems k by simp
    then have "tdel (word_of_nat (k + 2)) (map (\<lambda>i. (word_of_nat (i + 2) :: u64, c)) [k..<n])
       = map (\<lambda>i. (word_of_nat (i + 2), c)) [Suc k..<n]"
      using upt_conv_Cons [OF k] by (simp del: of_nat_add upt_Suc)
    moreover have "(n - k) * length c - length c = (n - Suc k) * length c" using k by (simp add: algebra_simps)
    ultimately show ?thesis by (simp add: drain_one_def gap_buf_def algebra_simps)
  qed
  ultimately have "drain_pending (gap_buf (word_of_nat (k + 2)) k n m c) out = drain_pending (gap_buf (word_of_nat (Suc k + 2)) (Suc k) n m c) (out @ [c])"
    by (simp only: drain_pending_Some)
  also have "\<dots> = (gap_buf (word_of_nat (n + 2)) n n m c, (out @ [c]) @ replicate (n - Suc k) c)"
    using Suc by (intro Suc.hyps(1)) simp_all
  finally show ?case using Suc_diff_Suc [OF k] by (simp flip: replicate_Suc)
qed

lemma push_late: "sq < rb_expected b \<Longrightarrow> push b sq pl = (b, \<lparr>ready = [], accepted = False, overflow = False\<rparr>)"
  by (simp add: push_def)

lemma close_gap:
  "n + 3 < 2 ^ 64 \<Longrightarrow> push (gap_buf 1 0 n m c) 1 d
     = (gap_buf (word_of_nat (n + 2)) n n m c, \<lparr>ready = d # replicate n c, accepted = True, overflow = False\<rparr>)"
  using drain_gap [of 0 n m c "[d]"] push_next [of "gap_buf 1 0 n m c" d] by (simp add: gap_buf_def)

lemma fill_gap:
  assumes "k \<le> max (m div MAX_PAYLOAD) MAX_REORDER_WINDOW" and "k * length c \<le> m" and "k + 3 < 2 ^ 64"
  shows "push_ahead_of_gap k c (with_limit m) = gap_buf 1 0 k m c"
    and "push_while_accepted ([0..<k] @ is) c 0 (with_limit m) = push_while_accepted is c k (gap_buf 1 0 k m c)"
proof -
  have "n \<le> k \<Longrightarrow> push_ahead_of_gap n c (with_limit m) = gap_buf 1 0 n m c
    \<and> push_while_accepted ([0..<n] @ js) c 0 (with_limit m) = push_while_accepted js c n (gap_buf 1 0 n m c)" for n js
  proof (induction n arbitrary: js)
    case 0
    then show ?case by (simp add: push_ahead_of_gap_def with_limit_gap_buf [of m c])
  next
    case (Suc n)
    have "Suc n * length c \<le> k * length c" using Suc.prems by (rule mult_le_mono1)
    then have p: "push (gap_buf 1 0 n m c) (word_of_nat (n + 2)) c
        = (gap_buf 1 0 (Suc n) m c, \<lparr>ready = [], accepted = True, overflow = False\<rparr>)"
      using assms Suc.prems by (intro push_gap) linarith+
    from Suc.IH [of "n # js"] Suc.IH [of js] Suc.prems p show ?case
      by (simp add: push_ahead_of_gap_def del: of_nat_add)
  qed
  then show "push_ahead_of_gap k c (with_limit m) = gap_buf 1 0 k m c"
    and "push_while_accepted ([0..<k] @ is) c 0 (with_limit m) = push_while_accepted is c k (gap_buf 1 0 k m c)"
    by simp_all
qed

lemma overflow_and_completion: "test_overflow_and_completion"
proof -
  let ?m = "8 * 1024 * 1024 :: nat" and ?x = "ascii ''x''"
  have "push_ahead_of_gap (MAX_REORDER_WINDOW + 1) ?x (with_limit ?m) = fst (push (gap_buf 1 0 512 ?m ?x) (word_of_nat 514) ?x)"
    using fill_gap(1) [of 512 ?m ?x] upt_Suc [of 0 512] by (simp add: push_ahead_of_gap_def frame_consts ascii_def)
  also have "\<dots> = gap_buf 1 0 512 ?m ?x" by (subst push_gap_full) (simp_all add: frame_consts)
  finally show ?thesis
    using push_gap_full [of 1000000 512 ?m ?x "ascii ''y''"] close_gap [of 512 ?m ?x "ascii ''z''"]
      push_late [of 1 "gap_buf 514 512 512 ?m ?x" "ascii ''z''"]
    by (simp add: test_overflow_and_completion_def Let_def frame_consts is_complete_through_def word_le_nat_alt)
qed

lemma byte_budget_bounds_window: "test_byte_budget_bounds_window"
proof -
  let ?m = "8 * 1024 * 1024 :: nat"
  have *: "length c = 64 * 1024 \<Longrightarrow> push_while_accepted [0..<MAX_REORDER_WINDOW] c 0 (with_limit ?m) = (128, gap_buf 1 0 128 ?m c)
     \<and> push (gap_buf 1 0 128 ?m c) 1000000 c = (gap_buf 1 0 128 ?m c, \<lparr>ready = [], accepted = False, overflow = True\<rparr>)
     \<and> push (gap_buf 1 0 128 ?m c) 1 (ascii ''z'')
         = (gap_buf (word_of_nat (128 + 2)) 128 128 ?m c, \<lparr>ready = ascii ''z'' # replicate 128 c, accepted = True, overflow = False\<rparr>)" for c
  proof -
    assume c: "length c = 64 * 1024"
    have u: "[0..<MAX_REORDER_WINDOW] = [0..<128] @ 128 # [129..<512]"
      using upt_add_eq_append [of 0 128 384] upt_conv_Cons [of 128 512] by (simp add: frame_consts)
    show ?thesis unfolding u
      using fill_gap(2) [of 128 ?m c "128 # [129..<512]"] push_gap_full [of 130 128 ?m c c] 
        push_gap_full [of 1000000 128 ?m c c] close_gap [of 128 ?m c "ascii ''z''"] c
      by (simp add: frame_consts)
  qed
  show ?thesis unfolding test_byte_budget_bounds_window_def Let_def
    using * [of "replicate (64 * 1024) 0"] by (simp add: gap_buf_def)
qed

lemma default_window_tolerates_four_tunnel_skew: "test_default_window_tolerates_four_tunnel_skew"
proof -
  have "length c = 64 * 1024 \<Longrightarrow> push_while_accepted [0..<MAX_REORDER_WINDOW] c 0 reorder_new = (512, gap_buf 1 0 512 MAX_REORDER_BYTES c)" for c
    using fill_gap(2) [of 512 MAX_REORDER_BYTES c "[]"] by (simp add: reorder_new_def frame_consts)
  from this [of "replicate (64 * 1024) 0"]
    close_gap [of 512 MAX_REORDER_BYTES "replicate (64 * 1024) 0" "ascii ''z''"] show ?thesis
    unfolding test_default_window_tolerates_four_tunnel_skew_def Let_def
    by simp (simp add: frame_consts)
qed

lemma duplicate_of_pending_frame: "test_duplicate_of_pending_frame"
proof -
  let ?b = "gap_buf 1 0 1 MAX_REORDER_BYTES (replicate 10 0)"
  have "push reorder_new 2 (replicate 10 0) = (?b, \<lparr>ready = [], accepted = True, overflow = False\<rparr>)"
    using push_gap [of 0 MAX_REORDER_BYTES "replicate 10 0"] with_limit_gap_buf [of MAX_REORDER_BYTES "replicate 10 0"]
    by (simp add: reorder_new_def frame_consts)
  moreover have "push ?b 2 d = (?b, \<lparr>ready = [], accepted = False, overflow = False\<rparr>)" for d
    by (simp add: push_def gap_buf_def)
  moreover have "push ?b 1 (ascii ''z'') = (gap_buf 3 1 1 MAX_REORDER_BYTES (replicate 10 0),
      \<lparr>ready = [ascii ''z'', replicate 10 0], accepted = True, overflow = False\<rparr>)"
    using close_gap [of 1 MAX_REORDER_BYTES "replicate 10 0" "ascii ''z''"] by simp
  ultimately show ?thesis
    unfolding test_duplicate_of_pending_frame_def Let_def by simp
qed

section \<open>Configuration (\<open>config.rs\<close>)\<close>

definition test_parse_ports_range :: bool where
  "test_parse_ports_range \<longleftrightarrow> parse_ports (Range (lit ''52311-52313'')) = Inr [52311, 52312, 52313]"

definition test_parse_ports_list :: bool where
  "test_parse_ports_list \<longleftrightarrow> parse_ports (PortList [52311, 52312]) = Inr [52311, 52312]"

definition test_parse_ports_single :: bool where
  "test_parse_ports_single \<longleftrightarrow> parse_ports (Range (lit ''52311'')) = Inr [52311]"

definition test_parse_ports_invalid_range :: bool where
  "test_parse_ports_invalid_range \<longleftrightarrow> isl (parse_ports (Range (lit ''52313-52311'')))"

definition test_parse_ports_dedups_keeping_order :: bool where
  "test_parse_ports_dedups_keeping_order \<longleftrightarrow>
     parse_ports (PortList [52312, 52311, 52312, 52311, 52313]) = Inr [52312, 52311, 52313]"

definition test_parse_ports_rejects_huge_range :: bool where
  "test_parse_ports_rejects_huge_range \<longleftrightarrow> isl (parse_ports (Range (lit ''1-65535'')))"

definition test_parse_ports_rejects_huge_list :: bool where
  "test_parse_ports_rejects_huge_list \<longleftrightarrow> isl (parse_ports (PortList (map word_of_nat [1..<258])))"

definition test_parse_ports_rejects_zero :: bool where
  "test_parse_ports_rejects_zero \<longleftrightarrow>
     isl (parse_ports (PortList [0])) \<and> isl (parse_ports (Range (lit ''0-10'')))
     \<and> \<not> isl (parse_ports (Range (lit ''52310'')))"

text \<open>The sections of the TOML texts: a key that is missing there is \<open>None\<close> here.\<close>

definition bare_splitter :: raw_splitter where
  "bare_splitter = \<lparr>rw_listen = None, rw_chunk_size = None, rw_tunnel = [], rw_data_send_timeout_secs = None,
     rw_heartbeat_secs = None, rw_reorder_window_bytes = None\<rparr>"

definition bare_reassembler :: raw_reassembler where
  "bare_reassembler = \<lparr>rr_listen = None, rr_ports = None, rr_local_target = None, rr_chunk_size = None,
     rr_data_send_timeout_secs = None, rr_heartbeat_secs = None, rr_reorder_window_bytes = None\<rparr>"

definition test_validate_rejects_zero_timeouts :: bool where
  "test_validate_rejects_zero_timeouts \<longleftrightarrow>
     isl (validate_splitter (fill_splitter (bare_splitter\<lparr>rw_heartbeat_secs := Some 0\<rparr>)))
     \<and> isl (validate_reassembler (fill_reassembler (bare_reassembler\<lparr>rr_data_send_timeout_secs := Some 0\<rparr>)))
     \<and> \<not> isl (validate_splitter (fill_splitter bare_splitter))"

definition test_validate_rejects_tunnel_port_zero :: bool where
  "test_validate_rejects_tunnel_port_zero \<longleftrightarrow>
     isl (validate_splitter (fill_splitter (bare_splitter\<lparr>rw_tunnel :=
       [\<lparr>tn_proxy = \<lparr>sa_ip = V4 [127, 0, 0, 1], sa_port = 1080\<rparr>, tn_target = lit ''127.0.0.1'', tn_port = 0\<rparr>]\<rparr>)))"

definition test_reorder_window_defaults_and_validation :: bool where
  "test_reorder_window_defaults_and_validation \<longleftrightarrow>
     sl_reorder_window_bytes (fill_splitter bare_splitter) = 64 * 1024 * 1024
     \<and> \<not> isl (validate_splitter (fill_splitter bare_splitter))
     \<and> isl (validate_splitter (fill_splitter (bare_splitter\<lparr>rw_reorder_window_bytes := Some 65534\<rparr>)))
     \<and> isl (validate_splitter (fill_splitter (bare_splitter\<lparr>rw_reorder_window_bytes := Some 2147483648\<rparr>)))"

definition test_timeout_fields_default_and_parse :: bool where
  "test_timeout_fields_default_and_parse \<longleftrightarrow>
     (let sc = fill_splitter (bare_splitter\<lparr>rw_tunnel :=
            [\<lparr>tn_proxy = \<lparr>sa_ip = V4 [127, 0, 0, 1], sa_port = 1080\<rparr>, tn_target = lit ''127.0.0.1'', tn_port = 1\<rparr>]\<rparr>);
          rc = fill_reassembler bare_reassembler;
          sc' = fill_splitter (bare_splitter\<lparr>rw_data_send_timeout_secs := Some 5, rw_heartbeat_secs := Some 2\<rparr>);
          rc' = fill_reassembler (bare_reassembler\<lparr>rr_data_send_timeout_secs := Some 7, rr_heartbeat_secs := Some 3\<rparr>)
      in sl_data_send_timeout_secs sc = 30 \<and> sl_heartbeat_secs sc = 60
         \<and> ra_data_send_timeout_secs rc = 30 \<and> ra_heartbeat_secs rc = 60
         \<and> sl_data_send_timeout_secs sc' = 5 \<and> ra_heartbeat_secs rc' = 3)"

lemmas ports_eval = parse_ports_def read_ports_def split_once_def trim_def is_whitespace_def parse_u16_def
  MAX_PORTS_def Let_def upt_conv_Cons

lemma parse_ports_tests:
  "test_parse_ports_range" "test_parse_ports_list" "test_parse_ports_single" "test_parse_ports_invalid_range"
  "test_parse_ports_dedups_keeping_order" "test_parse_ports_rejects_huge_range" "test_parse_ports_rejects_zero"
  by (simp_all add: test_parse_ports_range_def test_parse_ports_list_def test_parse_ports_single_def
      test_parse_ports_invalid_range_def test_parse_ports_dedups_keeping_order_def
      test_parse_ports_rejects_huge_range_def test_parse_ports_rejects_zero_def ports_eval)

lemma parse_ports_huge_list: "test_parse_ports_rejects_huge_list"
  by (simp add: test_parse_ports_rejects_huge_list_def parse_ports_def read_ports_def MAX_PORTS_def)

lemmas config_eval = validate_splitter_def validate_reassembler_def fill_splitter_def fill_reassembler_def
  bare_splitter_def bare_reassembler_def or_default_def validate_secs_def validate_reorder_window_def
  default_chunk_def default_data_send_timeout_def default_heartbeat_def default_reorder_window_def frame_consts

lemma validate_tests:
  "test_validate_rejects_zero_timeouts" "test_validate_rejects_tunnel_port_zero"
  "test_reorder_window_defaults_and_validation" "test_timeout_fields_default_and_parse"
  by (simp_all add: test_validate_rejects_zero_timeouts_def test_validate_rejects_tunnel_port_zero_def
      test_reorder_window_defaults_and_validation_def test_timeout_fields_default_and_parse_def config_eval)

section \<open>SOCKS5 (\<open>socks5.rs\<close>)\<close>

definition test_udp_datagram_ipv4_roundtrip :: bool where
  "test_udp_datagram_ipv4_roundtrip \<longleftrightarrow>
     (case encode_udp_datagram \<lparr>ta_address = ascii ''1.2.3.4'', ta_port = 53\<rparr> (ascii ''hello udp'') of
        Inr encoded \<Rightarrow> decode_udp_datagram encoded = Inr (\<lparr>ta_address = ascii ''1.2.3.4'', ta_port = 53\<rparr>, ascii ''hello udp'')
      | Inl _ \<Rightarrow> False)"

definition test_udp_datagram_domain_roundtrip :: bool where
  "test_udp_datagram_domain_roundtrip \<longleftrightarrow>
     (case encode_udp_datagram \<lparr>ta_address = ascii ''dns.google'', ta_port = 53\<rparr> (replicate 32 0) of
        Inr encoded \<Rightarrow>
          (case decode_udp_datagram encoded of
             Inr (t, d) \<Rightarrow> ta_address t = ascii ''dns.google'' \<and> ta_port t = 53 \<and> length d = 32
           | Inl _ \<Rightarrow> False)
      | Inl _ \<Rightarrow> False)"

definition test_udp_associate_client_addr :: bool where
  "test_udp_associate_client_addr \<longleftrightarrow>
     udp_associate_client_addr \<lparr>ta_address = ascii ''192.0.2.1'', ta_port = 40000\<rparr> = Some \<lparr>sa_ip = V4 [192, 0, 2, 1], sa_port = 40000\<rparr>
     \<and> udp_associate_client_addr \<lparr>ta_address = ascii ''0.0.0.0'', ta_port = 0\<rparr> = None
     \<and> udp_associate_client_addr \<lparr>ta_address = ascii ''::'', ta_port = 0\<rparr> = None
     \<and> udp_associate_client_addr \<lparr>ta_address = ascii ''dns.google'', ta_port = 53\<rparr> = None"

lemma shown: "ascii ''1.2.3.4'' = show_ipv4 [1, 2, 3, 4]" "ascii ''192.0.2.1'' = show_ipv4 [192, 0, 2, 1]"
proof -
  have d: "show_dec 0 = [48]" "show_dec (Suc 0) = [49]" "show_dec 2 = [50]" "show_dec 3 = [51]" "show_dec 4 = [52]" "show_dec 192 = [49, 57, 50]"
    by (simp_all add: show_dec_def show_radix.simps digit_char_def)
  show "ascii ''1.2.3.4'' = show_ipv4 [1, 2, 3, 4]" "ascii ''192.0.2.1'' = show_ipv4 [192, 0, 2, 1]"
    by (simp_all add: show_ipv4_def ascii_def d)
qed

lemma dns_google: "parse_ipv4 (ascii ''dns.google'') = None" "parse_ipv6 (ascii ''dns.google'') = None" "parse_ip (ascii ''dns.google'') = None"
proof -
  obtain cs where cs: "ascii ''dns.google'' = 100 # 110 # cs" by (simp add: ascii_def)
  have d: "to_digit 10 100 = None" "to_digit 16 100 = Some 13" "to_digit 16 110 = None"
    by (simp_all add: to_digit_def digit_value_def)
  have v4: "read_ipv4_addr (100 # 110 # cs) = None"
    using d read_octets.simps(2) [of 0 3 "100 # 110 # cs"]
    by (simp add: read_ipv4_addr_def read_octet_def read_separator_def read_number_def)
  have "read_groups (Suc 0) 7 (110 # cs) = ([], False, 110 # cs)"
    using read_groups.simps(2) [of "Suc 0" 6 "110 # cs"] by (simp add: read_group_def read_separator_def read_given_char_def)
  then have "read_groups 0 8 (100 # 110 # cs) = ([13], False, 110 # cs)"
    using d v4 read_groups.simps(2) [of 0 7 "100 # 110 # cs"]
    by (simp add: read_group_def read_separator_def read_number_def)
  then have "read_ipv6_addr (100 # 110 # cs) = None"
    by (simp add: read_ipv6_addr_def read_given_char_def)
  with v4 show "parse_ipv4 (ascii ''dns.google'') = None" "parse_ipv6 (ascii ''dns.google'') = None" "parse_ip (ascii ''dns.google'') = None"
    by (simp_all add: cs parse_ipv4_def parse_ipv6_def parse_ip_def parse_with_def)
qed

lemma udp_datagram_ipv4_roundtrip: "test_udp_datagram_ipv4_roundtrip"
proof -
  let ?t = "\<lparr>ta_address = ascii ''1.2.3.4'', ta_port = 53\<rparr>"
  have p: "parse_ipv4 (ascii ''1.2.3.4'') = Some [1, 2, 3, 4]" unfolding shown by (rule parse_show_ipv4) simp
  then obtain w where w: "encode_udp_datagram ?t (ascii ''hello udp'') = Inr w"
    by (simp add: encode_udp_datagram_def encode_address_def)
  from decode_encoded_udp [OF w] p show ?thesis
    by (simp add: test_udp_datagram_ipv4_roundtrip_def w canon_target_def canon_host_def flip: shown)
qed

lemma udp_datagram_domain_roundtrip: "test_udp_datagram_domain_roundtrip"
proof -
  let ?t = "\<lparr>ta_address = ascii ''dns.google'', ta_port = 53\<rparr>"
  have n: "utf8_valid (ascii ''dns.google'')" "length (ascii ''dns.google'') = 10"
    by (rule utf8_valid_ascii, simp_all add: ascii_def)
  then obtain w where w: "encode_udp_datagram ?t (replicate 32 0) = Inr w"
    by (simp add: encode_udp_datagram_def encode_address_def dns_google)
  moreover have "ascii ''dns.google'' \<noteq> []" using n(2) by auto
  ultimately show ?thesis using decode_encoded_udp [OF w] n(1)
    by (auto simp: test_udp_datagram_domain_roundtrip_def w canon_target_def canon_host_def dns_google)
qed

lemma udp_associate_client_addr_pins: "test_udp_associate_client_addr"
  unfolding test_udp_associate_client_addr_def shown
  by (simp add: udp_associate_client_addr_def parse_ip_show_ipv4 dns_google is_unspecified_def)

end
