(* ===== verification/PoolTests.thy ===== *)
theory PoolTests
  imports Tunnel
begin

text \<open>
  The unit tests of \<open>tunnel.rs\<close> run on the model: pool, \<open>send_async\<close>, drain task and weighted scheduler.
  A poll of \<open>send_async\<close> is one burst; what happens while it waits is done to the pool between two
  bursts.  Tests that pick among several links use exact arithmetic for the weights.
\<close>

section \<open>The pool\<close>

text \<open>\<open>mk_link\<close>: a live link with a channel of the given capacity and a rate; \<open>i\<close> is its identity.\<close>

definition mk_link :: "nat \<Rightarrow> nat \<Rightarrow> real \<Rightarrow> u64 \<Rightarrow> link" where
  "mk_link i cap rate now_ms =
     \<lparr>lk_id = i, lk_chan = new_chan cap, lk_alive = True, lk_bytes_sent = 0, lk_bytes_recv = 0,
      lk_frames_sent = 0, lk_frames_recv = 0, lk_stop = False, lk_writer_died = False,
      lk_last_active = now_ms, lk_lost = [], lk_rate = rate\<rparr>"

text \<open>\<open>tx.try_send\<close>, dropping the receiver and \<open>rx.try_recv\<close> on the channel of a link.\<close>

definition fill :: "frame list \<Rightarrow> link \<Rightarrow> link" where
  "fill fs l = l\<lparr>lk_chan := fold (\<lambda>f c. snd (try_send c f)) fs (lk_chan l)\<rparr>"

definition drop_rx :: "link \<Rightarrow> link" where
  "drop_rx l = l\<lparr>lk_chan := (lk_chan l)\<lparr>ch_open := False\<rparr>\<rparr>"

definition take_one :: "link \<Rightarrow> link" where
  "take_one l = l\<lparr>lk_chan := snd (try_recv (lk_chan l))\<rparr>"

definition pool_of :: "link list \<Rightarrow> pool" where
  "pool_of ls = foldl pool_add pool_new ls"

definition queues :: "pool \<Rightarrow> u32 list list" where
  "queues p = map (\<lambda>l. map conn_id (ch_queue (lk_chan l))) (pl_links p)"

definition test_queue_depth_ignores_dead_links :: bool where
  "test_queue_depth_ignores_dead_links \<longleftrightarrow>
     (let live = fill [frame_rst 1] (mk_link 0 TUNNEL_CHANNEL_CAP 0 0);
          dead = drop_rx ((mk_link 1 TUNNEL_CHANNEL_CAP 0 0)\<lparr>lk_alive := False\<rparr>)
      in queue_depth (pool_of [live, dead]) = 1)"

definition test_alive_count_ignores_dead_links :: bool where
  "test_alive_count_ignores_dead_links \<longleftrightarrow>
     (let p = pool_of [drop_rx (mk_link 0 4 0 0), drop_rx ((mk_link 1 4 0 0)\<lparr>lk_alive := False\<rparr>)]
      in link_count p = 2 \<and> alive_count p = 1)"

text \<open>
  \<open>send_async\<close> is polled: a poll ends with the frame sent, or asleep for a millisecond, or waiting for a
  link to be added.  \<open>rnd\<close> is the rounding of \<open>f64\<close>.
\<close>

definition test_send_async_without_links_fails :: "(real \<Rightarrow> real) \<Rightarrow> bool" where
  "test_send_async_without_links_fails rnd \<longleftrightarrow> fst (send_async_burst rnd (frame_rst 1) [] pool_new) = AwaitAdded []"

definition test_send_async_fails_over_closed_channel :: "(real \<Rightarrow> real) \<Rightarrow> bool" where
  "test_send_async_fails_over_closed_channel rnd \<longleftrightarrow>
     fst (send_async_burst rnd (frame_rst 1) [] (pool_of [drop_rx (mk_link 0 4 0 0)])) = AwaitAdded []"

definition test_send_async_waits_for_new_link :: "(real \<Rightarrow> real) \<Rightarrow> bool" where
  "test_send_async_waits_for_new_link rnd \<longleftrightarrow>
     (let (r, p) = send_async_burst rnd (frame_rst 7) [] pool_new;
          (r', p') = send_async_burst rnd (frame_rst 7) [] (pool_add p (mk_link 0 4 0 0))
      in r = AwaitAdded [] \<and> r' = Sent \<and> queues p' = [[7]])"

text \<open>The link is added before the first poll, or after it.\<close>

definition test_send_async_sees_link_added :: "(real \<Rightarrow> real) \<Rightarrow> bool" where
  "test_send_async_sees_link_added rnd \<longleftrightarrow>
     (let l = mk_link 0 4 0 0;
          (r, p) = send_async_burst rnd (frame_rst 7) [] (pool_add pool_new l);
          (r', p') = send_async_burst rnd (frame_rst 7) [] (pool_add (snd (send_async_burst rnd (frame_rst 7) [] pool_new)) l)
      in r = Sent \<and> queues p = [[7]] \<and> r' = Sent \<and> queues p' = [[7]])"

definition test_send_async_delivers_to_live_link :: "(real \<Rightarrow> real) \<Rightarrow> bool" where
  "test_send_async_delivers_to_live_link rnd \<longleftrightarrow>
     (let (r, p) = send_async_burst rnd (frame_rst 1) [] (pool_of [mk_link 0 4 0 0])
      in r = Sent \<and> map (\<lambda>l. map (\<lambda>f. (conn_id f, flags f)) (ch_queue (lk_chan l))) (pl_links p) = [[(1, FLAG_RST)]])"

definition test_send_async_retries_recovered_link :: bool where
  "test_send_async_retries_recovered_link \<longleftrightarrow>
     (let a = fill [frame_rst 1] (mk_link 0 1 0 0); b = fill [frame_rst 2] (mk_link 1 1 0 0);
          (r, p) = send_async_burst id (frame_rst 7) [] (pool_of [a, b]);
          (r', p') = send_async_burst id (frame_rst 7) [] (upd_link 1 take_one p)
      in r = SleepRetry \<and> r' = Sent \<and> queues p' = [[1], [7]])"

definition test_send_async_skips_full_link :: bool where
  "test_send_async_skips_full_link \<longleftrightarrow>
     (let a = fill [frame_rst 9, frame_rst 10] (mk_link 0 2 100 0);
          (r, p) = send_async_burst id (frame_rst 7) [] (pool_of [a, mk_link 1 2 50 0])
      in r = Sent \<and> queues p = [[9, 10], [7]])"

definition test_send_async_blocks_when_all_full :: bool where
  "test_send_async_blocks_when_all_full \<longleftrightarrow>
     (let a = fill [frame_rst 9, frame_rst 10] (mk_link 0 2 100 0); b = fill [frame_rst 11, frame_rst 12] (mk_link 1 2 50 0);
          (r, p) = send_async_burst id (frame_rst 7) [] (pool_of [a, b]);
          (r', p') = send_async_burst id (frame_rst 7) [] (upd_link 0 take_one p)
      in r = SleepRetry \<and> r' = Sent \<and> queues p' = [[10, 7], [11, 12]])"

definition test_sweep_idle_recycles_silent_links :: bool where
  "test_sweep_idle_recycles_silent_links \<longleftrightarrow>
     (let now = 1000000; p = pool_of [mk_link 0 TUNNEL_CHANNEL_CAP 0 now, mk_link 1 TUNNEL_CHANNEL_CAP 0 (now - 601000)];
          (swept, p') = sweep_idle now LINK_IDLE_TIMEOUT p
      in swept = 1 \<and> map lk_alive (pl_links p') = [True, False] \<and> map lk_stop (pl_links p') = [False, True]
         \<and> fst (sweep_idle now LINK_IDLE_TIMEOUT p') = 0)"

lemmas pool_eval = mk_link_def fill_def drop_rx_def take_one_def pool_of_def pool_new_def pool_add_def queues_def
  new_chan_def try_send_def try_recv_def upd_link_def notify_one_def

lemmas burst_eval = send_async_burst.simps send_async_iter_def weighted_pick_def pick_weights_def f64_sum_def
  FLOOR_SHARE_def WEIGHT_GRID_def Let_def

lemma pool_counts: "test_queue_depth_ignores_dead_links" "test_alive_count_ignores_dead_links"
  by (simp_all add: test_queue_depth_ignores_dead_links_def test_alive_count_ignores_dead_links_def queue_depth_def
      ch_room_def link_count_def alive_count_def TUNNEL_CHANNEL_CAP_def pool_eval)

lemma send_async_one_link:
  "test_send_async_without_links_fails rnd" "test_send_async_fails_over_closed_channel rnd"
  "test_send_async_waits_for_new_link rnd" "test_send_async_delivers_to_live_link rnd"
  "test_send_async_sees_link_added rnd"
  by (simp_all add: test_send_async_without_links_fails_def test_send_async_fails_over_closed_channel_def
      test_send_async_waits_for_new_link_def test_send_async_delivers_to_live_link_def
      test_send_async_sees_link_added_def pool_eval burst_eval frame_rst_def)

lemma send_async_full_links:
  "test_send_async_retries_recovered_link" "test_send_async_skips_full_link" "test_send_async_blocks_when_all_full"
  by (simp_all add: test_send_async_retries_recovered_link_def test_send_async_skips_full_link_def
      test_send_async_blocks_when_all_full_def pool_eval burst_eval frame_rst_def)

lemma sweep_idle_recycles_silent_links: "test_sweep_idle_recycles_silent_links"
  by (simp add: test_sweep_idle_recycles_silent_links_def sweep_idle_def is_idle_def saturating_sub_def
      LINK_IDLE_TIMEOUT_def pool_eval)

section \<open>The drain task\<close>

text \<open>The first \<open>stop\<close> arrives while a frame that is larger than the buffer of the socket is being written.\<close>

definition test_stop_exits_and_reports_lost_frames :: bool where
  "test_stop_exits_and_reports_lost_frames \<longleftrightarrow>
     (let f = frame_data 7 3 (replicate 8192 0);
          d = foldl drain_step (drain_init (mk_link 0 TUNNEL_CHANNEL_CAP 0 0) 0) [EvSend f, EvStop, DrFrame (WrStop 1024)];
          lost = lk_lost (dr_link (drain_finish d))
      in dr_dead d \<and> length lost = 1 \<and> conn_id (lost ! 0) = 7 \<and> seq (lost ! 0) = 3)"

definition test_stop_exits_with_empty_queue :: bool where
  "test_stop_exits_with_empty_queue \<longleftrightarrow>
     (let d = foldl drain_step (drain_init (mk_link 0 TUNNEL_CHANNEL_CAP 0 0) 0) [EvStop, DrStop]
      in dr_dead d \<and> lk_lost (dr_link (drain_finish d)) = [])"

definition test_drain_writes_stamp_link_activity :: bool where
  "test_drain_writes_stamp_link_activity \<longleftrightarrow>
     (let now = 1000000;
          d = foldl drain_step (drain_init (mk_link 0 TUNNEL_CHANNEL_CAP 0 (now - 601000)) 0)
                [EvSend (frame_data 1 1 (ascii ''x'')), DrFrame (WrOk now 1)]
      in lk_frames_sent (dr_link d) = 1 \<and> saturating_sub now (lk_last_active (dr_link d)) < 5000
         \<and> fst (sweep_idle now LINK_IDLE_TIMEOUT (pool_of [dr_link d])) = 0)"

definition test_ewma_decays_and_converges :: bool where
  "test_ewma_decays_and_converges \<longleftrightarrow>
     \<bar>ewma_rate 100 100 2.5 - 100\<bar> < 1 / 10 ^ 9 \<and> \<bar>ewma_rate 100 20 2.5 - 49.4304\<bar> < 1 / 10 ^ 3
     \<and> ewma_rate 100 20 0 = 100"

lemmas drain_eval = drain_init_def drain_step_def drain_frame_def lose_frame_def wrote_frame_def drain_finish_def
  encode_into_def frame_consts TUNNEL_CHANNEL_CAP_def Let_def

lemma stop_exits: "test_stop_exits_and_reports_lost_frames" "test_stop_exits_with_empty_queue"
  by (simp_all add: test_stop_exits_and_reports_lost_frames_def test_stop_exits_with_empty_queue_def drain_eval pool_eval)

lemma drain_writes_stamp_link_activity: "test_drain_writes_stamp_link_activity"
  by (simp add: test_drain_writes_stamp_link_activity_def drain_eval pool_eval ascii_def saturating_sub_def
      sweep_idle_def is_idle_def LINK_IDLE_TIMEOUT_def)

lemma exp_minus_one: "\<bar>exp (- 1) - 14833 / 40320\<bar> \<le> (3 :: real) / 362880"
proof -
  obtain t :: real where t: "\<bar>t\<bar> \<le> \<bar>- 1\<bar>" and e: "exp (- 1) = (\<Sum>m<9. (- 1) ^ m / fact m) + exp t / fact 9 * (- 1) ^ 9"
    using Maclaurin_exp_le [of "- 1 :: real" 9] by blast
  have "exp t \<le> exp 1" using t by simp
  then have "exp t \<le> 3" using exp_le by linarith
  then have "\<bar>exp t / fact 9 * (- 1) ^ 9\<bar> \<le> (3 :: real) / 362880" by (simp add: fact_numeral)
  moreover have "(\<Sum>m<9. (- 1) ^ m / fact m) = (14833 / 40320 :: real)"
    by (simp add: lessThan_nat_numeral fact_numeral lessThan_Suc)
  ultimately show ?thesis using e by linarith
qed

lemma ewma_decays_and_converges: "test_ewma_decays_and_converges"
proof -
  have "14833 / 40320 - 3 / 362880 \<le> (exp (- 1) :: real)" "(exp (- 1) :: real) \<le> 14833 / 40320 + 3 / 362880"
    using exp_minus_one by linarith+
  then have "80 * exp (- 1) - 18394 / 625 < 1 / (1000 :: real)" "- (80 * exp (- 1) - 18394 / 625) < 1 / (1000 :: real)"
    by linarith+
  then have "\<bar>80 * exp (- 1) - 18394 / 625\<bar> < 1 / (1000 :: real)" by (simp only: abs_less_iff)
  then show ?thesis
    by (simp add: test_ewma_decays_and_converges_def ewma_rate_def RATE_EWMA_TAU_SECS_def)
qed

section \<open>The weighted scheduler\<close>

text \<open>How often each of three links is picked in a full turn of the cursor, with exact arithmetic.\<close>

definition pick_counts :: "real \<Rightarrow> real \<Rightarrow> real \<Rightarrow> nat list" where
  "pick_counts ra rb rc =
     (let rs = picks id WEIGHT_GRID (pool_of [mk_link 0 4 ra 0, mk_link 1 4 rb 0, mk_link 2 4 rc 0])
      in map (\<lambda>i. length (filter (\<lambda>r. map_option lk_id r = Some i) rs)) [0, 1, 2])"

definition test_weighted_pick_distributes_by_rate :: bool where
  "test_weighted_pick_distributes_by_rate \<longleftrightarrow> pick_counts 100 50 25 = [586, 292, 146]"

definition test_weighted_pick_floor_guarantees_share :: bool where
  "test_weighted_pick_floor_guarantees_share \<longleftrightarrow> pick_counts 100 1 1 = [930, 47, 47]"

definition test_weighted_pick_optimistic_for_unmeasured :: bool where
  "test_weighted_pick_optimistic_for_unmeasured \<longleftrightarrow> pick_counts 100 0 0 = [615, 205, 204]"

definition test_weighted_pick_cold_start_uniform :: bool where
  "test_weighted_pick_cold_start_uniform \<longleftrightarrow> pick_counts 0 0 0 = [342, 341, 341]"

lemma count_below: "length (filter (\<lambda>k. lo \<le> k \<and> k < hi) [0..<n]) = min hi n - lo"
proof -
  have "filter (\<lambda>k. lo \<le> k \<and> k < hi) [0..<n] = [lo..<min hi n]" by (induction n) auto
  then show ?thesis by simp
qed

lemma pick_counts_bands:
  assumes ws: "pick_weights id [max ra 0, max rb 0, max rc 0] = [wa, wb, wc]"
    and a: "\<And>k. real k / 1024 * (wa + wb + wc) < wa \<longleftrightarrow> k < m"
    and b: "\<And>k. real k / 1024 * (wa + wb + wc) < wa + wb \<longleftrightarrow> k < n"
    and mn: "m \<le> n" "n \<le> 1024"
  shows "pick_counts ra rb rc = [m, n - m, 1024 - n]"
proof -
  let ?p = "pool_of [mk_link 0 4 ra 0, mk_link 1 4 rb 0, mk_link 2 4 rc 0]"
  have pick: "map_option lk_id (fst (weighted_pick id [] (?p\<lparr>pl_rr := pl_rr ?p + word_of_nat k\<rparr>)))
      = Some (if k < m then 0 else if k < n then 1 else 2)" if "k < 1024" for k
  proof -
    have "unat (word_of_nat k :: u64) mod 1024 = k" using that by (simp add: unat_of_nat)
    then show ?thesis using ws a [of k] b [of k]
      by (simp add: weighted_pick_def pool_of_def pool_new_def pool_add_def mk_link_def f64_sum_def WEIGHT_GRID_def Let_def)
  qed
  have ne: "filter lk_alive (pl_links ?p) \<noteq> []" by (simp add: pool_of_def pool_new_def pool_add_def mk_link_def)
  have "length (filter (\<lambda>r. map_option lk_id r = Some i) (picks id 1024 ?p))
      = length (filter (\<lambda>k. (if k < m then 0 else if k < n then 1 else 2) = i) [0..<1024])" for i
    unfolding picks_map [OF ne] filter_map length_map comp_def
    by (rule arg_cong [of _ _ length], rule filter_cong [OF refl])
       (simp only: set_upt atLeastLessThan_iff pick option.inject)
  moreover have "filter (\<lambda>k. (if k < m then 0 else if k < n then 1 else 2) = (0 :: nat)) [0..<1024] = filter (\<lambda>k. 0 \<le> k \<and> k < m) [0..<1024]"
    "filter (\<lambda>k. (if k < m then 0 else if k < n then 1 else 2) = (1 :: nat)) [0..<1024] = filter (\<lambda>k. m \<le> k \<and> k < n) [0..<1024]"
    "filter (\<lambda>k. (if k < m then 0 else if k < n then 1 else 2) = (2 :: nat)) [0..<1024] = filter (\<lambda>k. n \<le> k \<and> k < 1024) [0..<1024]"
    using mn by (auto intro!: filter_cong)
  ultimately show ?thesis using mn unfolding pick_counts_def Let_def WEIGHT_GRID_def list.map
    by (simp only: count_below) simp
qed

lemma weighted_pick_tests:
  "test_weighted_pick_distributes_by_rate" "test_weighted_pick_floor_guarantees_share"
  "test_weighted_pick_optimistic_for_unmeasured" "test_weighted_pick_cold_start_uniform"
proof -
  note weights = pick_weights_def f64_sum_def FLOOR_SHARE_def Let_def
  have "pick_counts 100 50 25 = [586, 878 - 586, 1024 - 878]"
    by (rule pick_counts_bands [of _ _ _ 100 50 25]) (simp add: weights, auto)
  moreover have "pick_counts 100 1 1 = [930, 977 - 930, 1024 - 977]"
    by (rule pick_counts_bands [of _ _ _ 100 "51 / 10" "51 / 10"]) (simp add: weights, auto)
  moreover have "pick_counts 100 0 0 = [615, 820 - 615, 1024 - 820]"
    by (rule pick_counts_bands [of _ _ _ 100 "100 / 3" "100 / 3"]) (simp add: weights, auto)
  moreover have "pick_counts 0 0 0 = [342, 683 - 342, 1024 - 683]"
    by (rule pick_counts_bands [of _ _ _ 1 1 1]) (simp add: weights numeral_3_eq_3, auto)
  ultimately show "test_weighted_pick_distributes_by_rate" "test_weighted_pick_floor_guarantees_share"
    "test_weighted_pick_optimistic_for_unmeasured" "test_weighted_pick_cold_start_uniform"
    by (simp_all add: test_weighted_pick_distributes_by_rate_def test_weighted_pick_floor_guarantees_share_def
        test_weighted_pick_optimistic_for_unmeasured_def test_weighted_pick_cold_start_uniform_def)
qed

end
