(* ===== verification/ServerTests.thy ===== *)
theory ServerTests
  imports Reassembler Splitter WireTests PoolTests
begin

text \<open>
  The unit tests of \<open>reassembler.rs\<close> and \<open>splitter.rs\<close> run on the model, where they test the logic of a
  handler: pending frames, handshakes, resets, teardown, UDP, the sweep decision.  The state a test
  builds is a record here; what the operating system does in a test (a connect that fails, a bind, a
  write that is taken) is an argument of the step.  The tests that only watch a task of tokio return in
  time (\<open>write_to_egress_aborts_on_cancel\<close>, \<open>write_to_egress_cancel_during_half_close_drain\<close>,
  \<open>tunnel_read_loop_exits_when_writer_dies\<close>) are left out.
\<close>

section \<open>The reassembler (\<open>reassembler.rs\<close>)\<close>

text \<open>\<open>make_ctx\<close>: a reassembler with one live link; \<open>got\<close> is what its pool was given to send.\<close>

definition make_ctx :: rs where
  "make_ctx = (rs_init MAX_REORDER_BYTES 4096)\<lparr>rs_pool := pool_of [mk_link 0 TUNNEL_CHANNEL_CAP 0 0]\<rparr>"

definition got :: "rs \<Rightarrow> frame list" where
  "got s = ch_queue (lk_chan (pl_links (rs_pool s) ! 0))"

definition make_vconn :: "u32 \<Rightarrow> vconn" where
  "make_vconn cid = new_tcp_vconn cid MAX_REORDER_BYTES 0"

definition test_pending_data_overflow_fails_fast :: bool where
  "test_pending_data_overflow_fails_fast \<longleftrightarrow>
     (let entry = (new_pending 0)\<lparr>pe_frames := replicate MAX_PENDING_FRAMES_PER_CID (frame_data 42 0 [])\<rparr>;
          s = handle_frame 0 False (frame_data 42 1 (ascii ''x'')) (make_ctx\<lparr>rs_pending := [(42, entry)]\<rparr>)
      in got s = [frame_rst 42] \<and> thas (rs_closed s) 42 \<and> map_option pe_cancelled (tget (rs_pending s) 42) = Some True)"

definition test_pending_fin_drop_fails_fast :: bool where
  "test_pending_fin_drop_fails_fast \<longleftrightarrow>
     (let s = handle_frame 0 False (frame_fin 777 7)
                (make_ctx\<lparr>rs_pending := map (\<lambda>i. (word_of_nat i, new_pending 0)) [1..<MAX_PENDING_CIDS + 1]\<rparr>)
      in got s = [frame_rst 777] \<and> thas (rs_closed s) 777)"

definition test_unknown_syn_proto_resets :: bool where
  "test_unknown_syn_proto_resets \<longleftrightarrow>
     (case syn_encode \<lparr>proto = 0x99, address = ascii ''example.com'', port = 80\<rparr> of
        Inr p \<Rightarrow>
          (let s = handle_frame 0 False (frame_syn 5 p) make_ctx
           in got s = [frame_rst 5] \<and> thas (rs_closed s) 5 \<and> \<not> thas (rs_handshaking s) 5)
      | Inl _ \<Rightarrow> False)"

definition test_pending_eviction_resets_evicted_cid :: bool where
  "test_pending_eviction_resets_evicted_cid \<longleftrightarrow>
     (let (ok, s) = try_reserve_pending 0 None 1
            (make_ctx\<lparr>rs_pending := [(42, (new_pending 0)\<lparr>pe_bytes := MAX_PENDING_BYTES\<rparr>)],
                       rs_pending_bytes := MAX_PENDING_BYTES\<rparr>)
      in ok \<and> got s = [frame_rst 42] \<and> thas (rs_closed s) 42 \<and> \<not> thas (rs_pending s) 42)"

definition test_pending_sweep_resets_swept_cid :: bool where
  "test_pending_sweep_resets_swept_cid \<longleftrightarrow>
     (let s = sweep_stale_pending 0 0
            (make_ctx\<lparr>rs_pending := [(55, (new_pending 0)\<lparr>pe_bytes := 1234\<rparr>)], rs_pending_bytes := 1234\<rparr>)
      in got s = [frame_rst 55] \<and> thas (rs_closed s) 55 \<and> \<not> thas (rs_pending s) 55 \<and> rs_pending_bytes s = 0)"

definition test_rst_for_unknown_cid_tombstones :: bool where
  "test_rst_for_unknown_cid_tombstones \<longleftrightarrow> thas (rs_closed (handle_frame 0 False (frame_rst 99) make_ctx)) 99"

text \<open>The egress connect fails.\<close>

definition test_syn_connect_failure_tombstones_cid :: bool where
  "test_syn_connect_failure_tombstones_cid \<longleftrightarrow>
     (case syn_encode \<lparr>proto = PROTO_TCP, address = ascii ''127.0.0.1'', port = 9\<rparr> of
        Inr p \<Rightarrow>
          (let s = rs_exec (EvConnect 0 0 ConnErr) (handle_frame 0 False (frame_syn 1234 p) make_ctx)
           in got s = [frame_rst 1234] \<and> thas (rs_closed s) 1234 \<and> \<not> thas (rs_handshaking s) 1234 \<and> \<not> thas (rs_pending s) 1234)
      | Inl _ \<Rightarrow> False)"

text \<open>The receiver of the only link is gone, so the wait to send times out.\<close>

definition test_egress_send_failure_resets_conn :: "(real \<Rightarrow> real) \<Rightarrow> bool" where
  "test_egress_send_failure_resets_conn rnd \<longleftrightarrow>
     (let s = insert_conn 4242 (make_vconn 4242) (make_ctx\<lparr>rs_pool := pool_of [drop_rx (mk_link 0 TUNNEL_CHANNEL_CAP 0 0)]\<rparr>);
          s' = reader_step rnd 0 0 (RData (ascii ''response-bytes'') False) s
      in fst (send_async_burst rnd (frame_data 4242 1 (ascii ''response-bytes'')) [] (rs_pool s)) = AwaitAdded []
         \<and> vc_rd_done (rs_vcs s' ! 0) \<and> thas (rs_closed s') 4242 \<and> \<not> thas (rs_conns s') 4242)"

definition test_write_to_egress_stops_when_pre_cancelled :: bool where
  "test_write_to_egress_stops_when_pre_cancelled \<longleftrightarrow>
     (let vc = (make_vconn 1)\<lparr>vc_egress := Some (snd (try_send (new_chan EGRESS_CHANNEL_CAP) (replicate 64 0))),
                               vc_cancel_writer := notify_one False\<rparr>
      in writer_step False (WChunk WrWritten) vc = vc
         \<and> (let vc' = writer_step False WCancel vc in vc_wr_done vc' \<and> vc_sock vc' = []))"

definition test_teardown_wakes_both_egress_tasks :: "(real \<Rightarrow> real) \<Rightarrow> bool" where
  "test_teardown_wakes_both_egress_tasks rnd \<longleftrightarrow>
     (let s = upd_vc 0 signal_teardown (insert_conn 77 (make_vconn 77) make_ctx);
          s' = reader_step rnd 0 0 RCancel (upd_vc 0 (writer_step False WCancel) s)
      in vc_wr_done (rs_vcs s' ! 0) \<and> vc_rd_done (rs_vcs s' ! 0))"

definition test_udp_pair_send_to_ip_literal :: "(bytes \<Rightarrow> u16 \<Rightarrow> lookup_result) \<Rightarrow> u16 \<Rightarrow> bool" where
  "test_udp_pair_send_to_ip_literal lookup pt \<longleftrightarrow>
     (case bind_udp_pair True True of
        Some v6 \<Rightarrow> udp_send_to lookup v6 (ascii ''127.0.0.1'') pt = Some (SockV4, \<lparr>sa_ip = V4 [127, 0, 0, 1], sa_port = pt\<rparr>)
      | None \<Rightarrow> False)"

definition test_udp_syn_creates_no_egress_channel :: bool where
  "test_udp_syn_creates_no_egress_channel \<longleftrightarrow>
     (case syn_encode \<lparr>proto = PROTO_UDP, address = ascii ''127.0.0.1'', port = 53\<rparr> of
        Inr p \<Rightarrow>
          (let s = rs_exec (EvBound 0 0 (bind_udp_pair True True)) (handle_frame 0 False (frame_syn 77 p) make_ctx);
               s' = handle_frame 0 False (frame_rst 77) s
           in (case tget (rs_conns s) 77 of
                 Some a \<Rightarrow> vc_is_udp (rs_vcs s ! a) \<and> vc_egress (rs_vcs s ! a) = None
               | None \<Rightarrow> False) \<and> \<not> thas (rs_conns s') 77)
      | Inl _ \<Rightarrow> False)"

definition test_syn_connect_stall_does_not_block_other_cids :: "u16 \<Rightarrow> bool" where
  "test_syn_connect_stall_does_not_block_other_cids pt \<longleftrightarrow>
     (case syn_encode \<lparr>proto = PROTO_TCP, address = ascii ''127.0.0.1'', port = pt\<rparr> of
        Inr p \<Rightarrow>
          (let s1 = dispatch_frame 0 (frame_syn 1001 p) make_ctx;
               s2 = dispatch_frame 0 (frame_data 2002 1 (ascii ''x'')) s1;
               s3 = rs_exec (EvConnect 0 0 ConnOk) s2
           in thas (rs_pending s2) 2002 \<and> \<not> thas (rs_conns s2) 1001 \<and> thas (rs_conns s3) 1001)
      | Inl _ \<Rightarrow> False)"

section \<open>The splitter (\<open>splitter.rs\<close>)\<close>

definition test_fin_sweep_keeps_active_upload_alive :: bool where
  "test_fin_sweep_keeps_active_upload_alive \<longleftrightarrow>
     \<not> fin_sweep_decision True 0 True \<and> \<not> fin_sweep_decision True 30 True \<and> \<not> fin_sweep_decision False 0 True"

definition test_fin_sweep_reclaims_idle_and_incomplete :: bool where
  "test_fin_sweep_reclaims_idle_and_incomplete \<longleftrightarrow>
     fin_sweep_decision True 31 True \<and> fin_sweep_decision False 301 True \<and> fin_sweep_decision False 31 False
     \<and> \<not> fin_sweep_decision True 10 False"

section \<open>The tests hold\<close>

lemma fin_sweep_tests: "test_fin_sweep_keeps_active_upload_alive" "test_fin_sweep_reclaims_idle_and_incomplete"
  by (simp_all add: test_fin_sweep_keeps_active_upload_alive_def test_fin_sweep_reclaims_idle_and_incomplete_def
      fin_sweep_decision_def SP_TCP_IDLE_TIMEOUT_def FIN_COMPLETE_IDLE_SECS_def)

lemmas ctx_eval = make_ctx_def rs_init_def got_def thas_def TUNNEL_CHANNEL_CAP_def send_ctl_def pool_send_def send_from.simps
  tombstone_def notify_task_def Let_def

lemmas handler_eval = handle_frame_def handle_data_def data_unknown_def handle_fin_def handle_rst_def
  fail_pending_conn_def cancel_pending_def new_pending_def

lemma reserve_now: "rs_pending_bytes s + need \<le> MAX_PENDING_BYTES \<Longrightarrow>
    try_reserve_pending now ex need s = (True, s\<lparr>rs_pending_bytes := rs_pending_bytes s + need\<rparr>)"
  by (subst try_reserve_pending.simps) simp

lemma pending_data_overflow_fails_fast: "test_pending_data_overflow_fails_fast"
  by (simp add: test_pending_data_overflow_fails_fast_def handler_eval ctx_eval pool_eval reserve_now frame_consts
      MAX_PENDING_FRAMES_PER_CID_def ascii_def)

lemma pending_fin_drop_fails_fast: "test_pending_fin_drop_fails_fast"
proof -
  have "tget (map (\<lambda>i. (word_of_nat i :: u32, new_pending 0)) [1..<257]) 777 = None"
  proof -
    have "(word_of_nat i :: u32) \<noteq> 777" if "i < 257" for i
    proof
      assume eq: "(word_of_nat i :: u32) = 777"
      have "i = unat (word_of_nat i :: u32)" using that by (simp add: unat_of_nat)
      with eq that show False by simp
    qed
    then show ?thesis by (auto simp: map_of_eq_None_iff)
  qed
  then show ?thesis
    by (simp add: test_pending_fin_drop_fails_fast_def handle_frame_def handle_fin_def fail_pending_conn_def cancel_pending_def
        ctx_eval pool_eval frame_consts)
qed

lemma pending_eviction_resets_evicted_cid: "test_pending_eviction_resets_evicted_cid"
proof -
  define e where "e = (new_pending 0)\<lparr>pe_bytes := MAX_PENDING_BYTES\<rparr>"
  define s where "s = make_ctx\<lparr>rs_pending := [(42, e)], rs_pending_bytes := MAX_PENDING_BYTES\<rparr>"
  define s' where "s' = drop_pending 0 (42, e) (s\<lparr>rs_pending := [], rs_pending_bytes := 0\<rparr>)"
  have "try_reserve_pending 0 None 1 s = try_reserve_pending 0 None 1 s'"
    by (subst try_reserve_pending.simps) (simp add: s_def s'_def e_def)
  also have "\<dots> = (True, s'\<lparr>rs_pending_bytes := 1\<rparr>)"
    by (subst reserve_now) (simp_all add: s'_def frame_consts)
  finally have "try_reserve_pending 0 None 1 s = (True, s'\<lparr>rs_pending_bytes := 1\<rparr>)" .
  moreover have "got (s'\<lparr>rs_pending_bytes := 1\<rparr>) = [frame_rst 42]" "thas (rs_closed s') 42" "\<not> thas (rs_pending s') 42"
    by (simp_all add: s'_def s_def e_def drop_pending_def new_pending_def ctx_eval pool_eval)
  ultimately show ?thesis by (simp add: test_pending_eviction_resets_evicted_cid_def s_def e_def)
qed

lemma pending_sweep_resets_swept_cid: "test_pending_sweep_resets_swept_cid"
proof -
  define e where "e = (new_pending 0)\<lparr>pe_bytes := 1234\<rparr>"
  define s where "s = make_ctx\<lparr>rs_pending := [(55, e)], rs_pending_bytes := 1234\<rparr>"
  define s' where "s' = drop_pending 0 (55, e) (s\<lparr>rs_pending := [], rs_pending_bytes := 0\<rparr>)"
  have "sweep_stale_pending 0 0 s = s'"
    by (simp add: sweep_stale_pending_def Let_def s_def s'_def e_def)
  moreover have "got s' = [frame_rst 55]" "thas (rs_closed s') 55" "\<not> thas (rs_pending s') 55" "rs_pending_bytes s' = 0"
    by (simp_all add: s'_def s_def e_def drop_pending_def new_pending_def ctx_eval pool_eval)
  ultimately show ?thesis by (simp add: test_pending_sweep_resets_swept_cid_def s_def e_def)
qed

lemma rst_for_unknown_cid_tombstones: "test_rst_for_unknown_cid_tombstones"
  by (simp add: test_rst_for_unknown_cid_tombstones_def handler_eval ctx_eval)

lemma local_target: "utf8_valid (ascii ''127.0.0.1'')" "length (ascii ''127.0.0.1'') = 9"
  by (rule utf8_valid_ascii, simp_all add: ascii_def)

lemmas syn_eval = handle_frame_def dispatch_frame_def syn_begin_def syn_fail_def rs_exec_def end_handshaking_def remove_pending_def
  end_task_def syn_connected_def syn_udp_bound_def insert_conn_def syn_drain_def upd_vc_def new_pending_def handle_data_def data_unknown_def

lemma unknown_syn_proto_resets: "test_unknown_syn_proto_resets"
proof -
  let ?t = "\<lparr>proto = 0x99, address = ascii ''example.com'', port = 80\<rparr>"
  obtain p where p: "syn_encode ?t = Inr p" by (simp add: syn_encode_Inr_iff example_com)
  from syn_decode_encoded [OF p, of "[]"] show ?thesis
    by (simp add: test_unknown_syn_proto_resets_def p example_com syn_eval ctx_eval pool_eval PROTO_TCP_def PROTO_UDP_def)
qed

lemma syn_connect_failure_tombstones_cid: "test_syn_connect_failure_tombstones_cid"
proof -
  let ?t = "\<lparr>proto = PROTO_TCP, address = ascii ''127.0.0.1'', port = 9\<rparr>"
  obtain p where p: "syn_encode ?t = Inr p" by (simp add: syn_encode_Inr_iff local_target)
  from syn_decode_encoded [OF p, of "[]"] show ?thesis
    by (simp add: test_syn_connect_failure_tombstones_cid_def p local_target syn_eval ctx_eval pool_eval)
qed

lemma udp_syn_creates_no_egress_channel: "test_udp_syn_creates_no_egress_channel"
proof -
  let ?t = "\<lparr>proto = PROTO_UDP, address = ascii ''127.0.0.1'', port = 53\<rparr>"
  obtain p where p: "syn_encode ?t = Inr p" by (simp add: syn_encode_Inr_iff local_target)
  from syn_decode_encoded [OF p, of "[]"] show ?thesis
    by (simp add: test_udp_syn_creates_no_egress_channel_def p local_target syn_eval ctx_eval pool_eval bind_udp_pair_def
        new_udp_vconn_def new_vconn_def handle_rst_def remove_conn_def count_reset_def)
qed

lemma syn_connect_stall_does_not_block_other_cids: "test_syn_connect_stall_does_not_block_other_cids pt"
proof -
  let ?t = "\<lparr>proto = PROTO_TCP, address = ascii ''127.0.0.1'', port = pt\<rparr>"
  obtain p where p: "syn_encode ?t = Inr p" by (simp add: syn_encode_Inr_iff local_target)
  have x: "length (ascii ''x'') = 1" by (simp add: ascii_def)
  from syn_decode_encoded [OF p, of "[]"] show ?thesis
    by (simp add: test_syn_connect_stall_does_not_block_other_cids_def p local_target x syn_eval ctx_eval pool_eval
        MAX_CONCURRENT_SYN_HANDSHAKES_def reserve_now MAX_PENDING_BYTES_def MAX_PENDING_CIDS_def)
qed

lemma egress_send_failure_resets_conn: "test_egress_send_failure_resets_conn rnd"
  by (simp add: test_egress_send_failure_resets_conn_def reader_step_def make_vconn_def new_tcp_vconn_def new_vconn_def
      insert_conn_def remove_conn_def upd_vc_def ctx_eval pool_eval burst_eval ascii_def)

lemma writer_teardown: "test_write_to_egress_stops_when_pre_cancelled" "test_teardown_wakes_both_egress_tasks rnd"
  by (simp_all add: test_write_to_egress_stops_when_pre_cancelled_def test_teardown_wakes_both_egress_tasks_def
      writer_step_def end_writer_def reader_step_def signal_teardown_def make_vconn_def new_tcp_vconn_def new_vconn_def
      insert_conn_def upd_vc_def ctx_eval pool_eval EGRESS_CHANNEL_CAP_def)

lemma udp_pair_send_to_ip_literal: "test_udp_pair_send_to_ip_literal lookup pt"
proof -
  have d: "show_dec 0 = [48]" "show_dec (Suc 0) = [49]" "show_dec 127 = [49, 50, 55]"
    by (simp_all add: show_dec_def show_radix.simps digit_char_def)
  have "ascii ''127.0.0.1'' = show_ipv4 [127, 0, 0, 1]" by (simp add: show_ipv4_def ascii_def d)
  then show ?thesis
    by (simp add: test_udp_pair_send_to_ip_literal_def bind_udp_pair_def udp_send_to_def parse_ip_show_ipv4)
qed

end
