(* ===== verification/Spec2Isabelle.thy ===== *)
theory Spec2Isabelle
  imports Network Relay Supervisor Config Logging HalfClose ServerTests
begin

text \<open>
  \<^bold>\<open>round_robin\<close>: one TCP connection over several tunnels.  The splitter accepts SOCKS5 clients, cuts
  what a client sends into numbered DATA frames and spreads them over its tunnels; the reassembler
  puts the frames of a connection in order and writes them to the connection's target; the answers
  take the same way back.

  \<^bold>\<open>Parts and theories.\<close>
  \<^item> \<open>Prelude\<close>: machine integers, big-endian bytes, UTF-8, tables for the maps of the source.
  \<^item> \<open>Frame\<close> (\<open>src/src/frame.rs\<close>): frames, SYN payloads, the streaming decoder.  Lemmas: round trips,
    decoding under any cut of the stream into reads, termination of the decoder.
  \<^item> \<open>Reorder\<close> (\<open>src/src/reorder.rs\<close>): the reorder buffer.  The locale \<open>sequencer\<close> is the contract of
    one \<open>push\<close>; inside it, that what is delivered is a prefix of what was sent, and all of it once
    everything arrived; \<open>legit\<close> says what a receiver may assume of a frame.
  \<^item> \<open>Channel\<close>: the channels and notifications of tokio that the tasks use, by their documented
    behaviour; the locale \<open>bounded_fifo\<close> is what the sending loops rely on.
  \<^item> \<open>Tunnel\<close> (\<open>src/src/tunnel.rs\<close>): the pool of links, round-robin and weighted scheduling, the idle
    sweep, the drain task of a link.  \<open>Link\<close>: from the queue of a link to the decoder at its other end.
  \<^item> \<open>NetAddr\<close>, \<open>Socks5\<close> (\<open>src/src/socks5.rs\<close>): addresses as the standard library reads and prints
    them (printed addresses are read back, also compressed IPv6); the SOCKS5 server and client, the UDP
    header.
  \<^item> \<open>Egress\<close>, \<open>Reassembler\<close> (\<open>src/src/reassembler.rs\<close>): a virtual connection with its half-close
    and its writer; the tables, the frame handlers, handshakes, readers, heartbeat and links.
    \<open>ReassemblerInv\<close> has the invariants of the receiving half and of the pending table,
    \<open>ReassemblerProps\<close> the reachable states and properties, \<open>ReassemblerEmit\<close> the sending half.
  \<^item> \<open>Splitter\<close> (\<open>src/src/splitter.rs\<close>): tunnels, inbound frames, client handlers, the UDP relay, the
    heartbeat.  \<open>SplitterInv\<close> has the sending half, \<open>SplitterRecv\<close> the receiving half,
    \<open>SplitterProps\<close> the properties.
  \<^item> \<open>Sender\<close>, \<open>Growth\<close>: locales that both ends interpret.  \<open>sender\<close>: the frames a connection puts out
    stay true to the data it sent and to the target it announced; \<open>growing\<close>: what was sent or written is never taken back.
  \<^item> \<open>System\<close>: a splitter and a reassembler together.  \<open>sys_step\<close> lets either take a step; the only link
    between them is that a frame one end reads is a frame that a queue of the other end accepted.
  \<^item> \<open>Endpoint\<close>, \<open>Queues\<close>, \<open>Network\<close>: the same two programs with the tasks that serve their tunnels (drain
    task, read loop and decoder of each tunnel).  The locale \<open>tunnel_user\<close> is what the tasks need of
    the program whose links they share; \<open>Queues\<close> interprets it for both programs, and \<open>Network\<close>
    shows that every run of the programs over byte streams is a run of \<open>sys\<close>.
  \<^item> \<open>Relay\<close>: where connections go and what UDP carries, across both programs: every handshake of the
    reassembler is for a request of a client (\<open>relay_inv\<close>), every datagram comes from the other end.
  \<^item> \<open>HalfClose\<close>: the half-close of \<open>Egress\<close> cut into single accesses to the shared variables, with
    any number of handlers and timers in any interleaving.
  \<^item> \<open>Supervisor\<close>: the loops that run until shutdown: the reconnect loop of a tunnel, the accept loop and
    the heartbeat task of the splitter, the listener of the reassembler, \<open>shutdown_signal\<close>.
  \<^item> \<open>Config\<close> (\<open>src/src/config.rs\<close>, \<open>src/src/main.rs\<close>): defaults, validation, ports, startup and its
    banner.
  \<^item> \<open>Logging\<close> (\<open>src/src/logging.rs\<close>): dates, rotation, purge, the write loop.
  \<^item> \<open>WireTests\<close>, \<open>PoolTests\<close>, \<open>ServerTests\<close>: the unit tests of the modules of \<open>src/src\<close>, written as
    definitions over the model, with a proof that each holds.

  \<^bold>\<open>How state and operations correspond to the code.\<close>  The shared state of \<open>run_splitter\<close> and
  \<open>run_reassembler\<close> is a record (\<open>sp\<close>, \<open>rs\<close>); an \<open>Arc\<close> of a connection is an address into the list
  of all connections ever made, so that a task may hold a connection that left the table.  What a
  task does between two awaits is one step, a function on the state named after the function of
  the source; \<open>sp_exec\<close> and \<open>rs_exec\<close> dispatch the events.  Time is an argument of the steps that
  read the clock.  Errors are values of sum or option types.  Sequence numbers, identifiers and counters
  are words of their width; lengths are natural numbers.

  \<^bold>\<open>Ghost state.\<close>  \<open>sp_emitted\<close>, \<open>rs_emitted\<close> (frames that a queue accepted), \<open>sc_sent\<close>, \<open>vc_sent\<close>
  (chunks sent on a connection), \<open>sc_target\<close> (the request of a client), \<open>sc_enq\<close>, \<open>vc_enq\<close>, \<open>sc_out\<close>, \<open>vc_sock\<close> (chunks queued for and bytes
  written to a socket), \<open>sc_fin_sent\<close>, \<open>vc_fin_sent\<close>, \<open>vc_forced\<close>, \<open>vc_clean\<close>, \<open>tk_read\<close> (frames a
  decoder returned), \<open>hs_forced\<close>, \<open>hs_stored\<close>, \<open>hs_early\<close>: no operation decides anything by them.

  \<^bold>\<open>What is shown.\<close>  End to end, below: the target of a connection is given a prefix of what its client
  sent, and all of it when its write side is closed without force; the same towards a client that was
  not reset; each step is a step of a reliable pipe (\<open>pipe\<close>); and once the FIN of a client and all
  frames before it have arrived, the writer gives the target everything and ends
  (\<open>upload_finishes\<close>).  The programs with their tunnel tasks refine this system (\<open>network_refines_sys\<close>),
  a tunnel of it is a queue (\<open>network_tunnel_fifo\<close>), and all that is queued on a link can be carried
  across (\<open>network_carries_queue\<close>).  The reassembler connects only where a client asked
  (\<open>connects_where_asked\<close>); a UDP datagram comes out at either end only if it went in at the other,
  unchanged and in its own association; the address in an answer leads back to its source.  Between
  threads: a connection has at most one closer, an unforced close that read the stored FIN number
  is complete, and every run ends closed and notified once the handlers and the timer have run; the
  two races of the source are runs of the model.  Per component: round trips of the
  wire formats, transport of frames by a tunnel, delivery and budgets of the reorder buffer, conservation of frames and fairness in
  the tunnel pool, the memory bound on frames before their SYN, life cycle of connections
  (identifiers, resets, sweeps, grace wait), the reconnect schedule, shutdown, soundness of startup, the calendar, purge and
  writing of logs.

  \<^bold>\<open>Hypotheses.\<close>  The end-to-end theorems assume chunk sizes within the payload limit, which startup
  ensures (\<open>main_start_sound\<close>); fewer than \<open>2 ^ 64 - 1\<close> chunks on a connection, the width of a
  sequence number; and that no identifier was given to two connections of the run, which the source
  makes likely (random identifiers, not reused while in the table or in TIME_WAIT) but does not
  guarantee for ever.

  \<^bold>\<open>Recursion and bounds.\<close>  Every function of the model is total: loops over a reader or over the
  results of the operating system recurse on the list of results (an exhausted list is a call that
  still waits), the loops of the pool on the links not tried yet, the eviction loop of the pending
  table on its size.  No fuel is used.  The threads of \<open>HalfClose\<close> stop within \<open>work\<close> steps, the sum
  of what each of them has left to do.

  \<^bold>\<open>Not modelled.\<close>  Interleavings of threads inside one step, other than those of the half-close, and
  memory orders weaker than sequential consistency; the findings name the races seen there.
  The counters that a link still updates after it left the pool are kept by its tasks and are not
  summed anywhere.  DNS, connecting and binding, random numbers and \<open>f64\<close> rounding are arguments.  The
  toml crate and serde, the tracing setup, the structs that only bundle references for a task
  (\<open>ListenerCtx\<close>, \<open>ClientCtx\<close> and the like), the unit tests that only watch a task return in time, the
  end-to-end tests, the build and install files are left out.

  \<^bold>\<open>Plan.\<close>  Next: eventual delivery in \<open>Network\<close> for whole runs under a fair scheduler, in place of the
  runs that \<open>network_carries_queue\<close> and \<open>upload_finishes\<close> exhibit; the remaining atomics (\<open>fin_received\<close> of
  the splitter, the pending byte counter) between threads, as \<open>HalfClose\<close> does for the half-close.
\<close>

section \<open>End to end\<close>

lemma demo_sys: "sys 100 1000 100 100 demo_done demo_rs"
proof -
  have "sys 100 1000 100 100 demo_sp (rs_init 100 100)"
    unfolding demo_sp_def by (rule sys_fold_sp [OF sys.boot]) (simp add: demo_client_def ev_ok_def)
  then have "sys 100 1000 100 100 demo_sp demo_rs"
    unfolding demo_rs_def
    by (rule sys_fold_rs) (simp add: demo_target_def rs_ev_ok_def demo_sp_run)
  then show ?thesis
    unfolding demo_done_def by (rule sys_fold_sp) (simp add: demo_replies_def ev_ok_def demo_rs_run)
qed

definition demo_arrived :: rs where
  "demo_arrived = fold rs_exec (take 6 demo_target) (rs_init 100 100)"

lemma demo_arrived_run:
  "map (\<lambda>v. (vc_is_udp v, vc_fin_received v, is_complete_through (vc_reorder v) (vc_fin_seq v), vc_wr_done v,
       vc_cancel_writer v, map_option ch_queue (vc_egress v))) (rs_vcs demo_arrived)
     = [(False, True, True, False, False, Some [[10], [20]])]"
  "rs_conns demo_arrived = [(7, 0)]"
  by (simp_all add: demo_arrived_def demo_target_def demo_run_defs demo_target_syn
      demo_target_syn [unfolded PROTO_TCP_def] demo_gap frame_consts)

lemma demo_arrived_conn:
  "\<not> vc_is_udp (rs_vcs demo_arrived ! 0)" "vc_fin_received (rs_vcs demo_arrived ! 0)"
  "is_complete_through (vc_reorder (rs_vcs demo_arrived ! 0)) (vc_fin_seq (rs_vcs demo_arrived ! 0))"
  "\<not> vc_wr_done (rs_vcs demo_arrived ! 0)" "\<not> vc_cancel_writer (rs_vcs demo_arrived ! 0)"
  "tget (rs_conns demo_arrived) 7 = Some 0"
  "vc_egress (rs_vcs demo_arrived ! 0) = Some q \<Longrightarrow> ch_queue q = [[10], [20]]"
  using demo_arrived_run by (auto simp: map_eq_Cons_conv)

lemma demo_rs_conn:
  "length (rs_vcs demo_rs) = 1" "vc_cid (rs_vcs demo_rs ! 0) = 7" "vc_clean (rs_vcs demo_rs ! 0)"
  "vc_sock (rs_vcs demo_rs ! 0) = [10, 20]" "vc_sent (rs_vcs demo_rs ! 0) = [[30], [40]]"
  using demo_rs_run(1) by (auto simp: map_eq_Cons_conv)

lemma demo_rs_replied: "distinct (map vc_cid (rs_vcs demo_rs))" "replied_of demo_rs c = (if c = 7 then [[30], [40]] else [])"
proof -
  have v: "rs_vcs demo_rs = [rs_vcs demo_rs ! 0]" using demo_rs_conn(1) by (simp add: length_Suc_conv) auto
  show "distinct (map vc_cid (rs_vcs demo_rs))" by (subst v) simp
  show "replied_of demo_rs c = (if c = 7 then [[30], [40]] else [])"
    by (subst replied_of_def, subst v) (simp add: tg.sent_by_def demo_rs_conn)
qed

lemma demo_done_sent: "distinct (map sc_cid (sp_vcs demo_done))" "sent_of demo_done c = (if c = 7 then [[10], [20]] else [])"
proof -
  have v: "sp_vcs demo_done = [sp_vcs demo_done ! 0]" using demo_done_conn(1) by (simp add: length_Suc_conv) auto
  have "sc_sent (sp_vcs demo_done ! 0) = [[10], [20]]"
    using demo_done_run(4) by (auto simp: map_eq_Cons_conv)
  then show "sent_of demo_done c = (if c = 7 then [[10], [20]] else [])"
    by (subst sent_of_def, subst v) (simp add: cl.sent_by_def demo_done_conn)
  show "distinct (map sc_cid (sp_vcs demo_done))" by (subst v) simp
qed

text \<open>
  C2. Upload integrity, end to end.  However the tunnels lose, delay, repeat and reorder frames and
  whatever fails on either side, what the reassembler has written to the target of a connection
  is at every moment a prefix of the bytes that the client of that connection has sent through the
  splitter: nothing is reordered, repeated, skipped or corrupted.
\<close>

theorem upload_prefix:
  assumes "sys k w k' w' s r" and "k \<le> MAX_PAYLOAD" and "distinct (map sc_cid (sp_vcs s))"
    and "\<And>c. length (sent_of s c) + 1 < 2 ^ 64" and "a < length (rs_vcs r)"
  shows "\<exists>rest. concat (sent_of s (vc_cid (rs_vcs r ! a))) = vc_sock (rs_vcs r ! a) @ rest"
  using egress_writes_prefix [OF sys_upload [OF assms(1-4)] assms(4,5)] .

theorem upload_prefix_witness: "\<exists>rest. concat (sent_of demo_done 7) = [10, 20] @ rest"
  using upload_prefix [OF demo_sys _ demo_done_sent(1), of 0] by (simp add: MAX_PAYLOAD_def demo_rs_conn demo_done_sent)





text \<open>
  C5. Download integrity, end to end.  What the splitter has written to a TCP client that it has not
  reset is at every moment a prefix of the bytes that the target of that connection has sent
  through the reassembler.
\<close>

theorem download_prefix:
  assumes "sys k w k' w' s r" and "k' \<le> MAX_PAYLOAD" and "distinct (map vc_cid (rs_vcs r))"
    and "\<And>c. length (replied_of r c) + 1 < 2 ^ 64" and "a < length (sp_vcs s)"
    and "\<not> sc_is_udp (sp_vcs s ! a)" and "\<not> sc_rst (sp_vcs s ! a)"
  shows "\<exists>rest. concat (replied_of r (sc_cid (sp_vcs s ! a))) = sc_out (sp_vcs s ! a) @ rest"
  using client_gets_prefix [OF sys_download [OF assms(1-4)] assms(5-7)] .

theorem download_prefix_witness: "\<exists>rest. concat (replied_of demo_rs 7) = [30] @ rest"
  using download_prefix [OF demo_sys _ demo_rs_replied(1), of 0]
  by (simp add: MAX_PAYLOAD_def demo_done_conn demo_rs_replied)



lemma demo_next:
  defines "s' \<equiv> sp_exec (SvWriter 0 CwWritten) demo_done"
  shows "sys_step demo_done demo_rs s' demo_rs" and "\<not> sc_is_udp (sp_vcs s' ! 0)" and "\<not> sc_rst (sp_vcs s' ! 0)"
    and "sc_out (sp_vcs s' ! 0) = [30, 40]" and "distinct (map sc_cid (sp_vcs s'))" and "length (sent_of s' c) + 1 < 2 ^ 64"
    and "sc_cid (sp_vcs s' ! 0) = 7"
proof -
  show "sys_step demo_done demo_rs s' demo_rs" unfolding s'_def by (rule sys_step.splitter) simp_all
  have n: "sp_vcs s' = [client_writer_step False CwWritten (sp_vcs demo_done ! 0)]"
  proof -
    have v: "sp_vcs demo_done = [sp_vcs demo_done ! 0]" using demo_done_conn(1) by (simp add: length_Suc_conv) auto
    then show ?thesis
      by (simp add: s'_def sp_exec_def upd_sc_def demo_done_conn demo_done_run(2)) (metis list_update_code(2))
  qed
  show "\<not> sc_is_udp (sp_vcs s' ! 0)" "\<not> sc_rst (sp_vcs s' ! 0)" "sc_out (sp_vcs s' ! 0) = [30, 40]" "sc_cid (sp_vcs s' ! 0) = 7"
    by (simp_all add: n client_writer_step_def try_recv_def demo_done_conn)
  show "distinct (map sc_cid (sp_vcs s'))" by (simp add: n)
  have "length (sc_sent (sp_vcs demo_done ! 0)) = 2" using demo_done_run(4) by (auto simp: map_eq_Cons_conv)
  then show "length (sent_of s' c) + 1 < 2 ^ 64"
    by (simp add: sent_of_def n cl.sent_by_def client_writer_step_def try_recv_def demo_done_conn)
qed

text \<open>
  C1. The two programs together implement a reliable pipe for each direction of each connection.
  Every step of either program is, seen through the data sent and the bytes written, a step of the
  pipe: more data is put in at the end, or the next bytes of what was put in come out (or nothing
  happens).  For the direction to the client this is claimed of TCP clients that are not reset.
\<close>

theorem streams_refine_pipes:
  assumes "sys k w k' w' s r" and "sys_step s r s' r'" and "k \<le> MAX_PAYLOAD" and "k' \<le> MAX_PAYLOAD"
    and "distinct (map sc_cid (sp_vcs s'))" and "\<And>c. length (sent_of s' c) + 1 < 2 ^ 64"
    and "distinct (map vc_cid (rs_vcs r'))" and "\<And>c. length (replied_of r' c) + 1 < 2 ^ 64"
  shows "(\<forall>a < length (rs_vcs r). pipe (upload s r a) (upload s' r' a))
    \<and> (\<forall>a < length (sp_vcs s). \<not> sc_is_udp (sp_vcs s' ! a) \<longrightarrow> \<not> sc_rst (sp_vcs s' ! a)
         \<longrightarrow> pipe (download s r a) (download s' r' a))"
  using upload_pipe [OF assms(1,2,3,5,6)] download_pipe [OF assms(1,2,4,7,8)] by blast

theorem streams_refine_pipes_witness: "pipe (concat (replied_of demo_rs 7), [30]) (concat (replied_of demo_rs 7), [30, 40])"
proof -
  let ?s = "sp_exec (SvWriter 0 CwWritten) demo_done"
  have "pipe (download demo_done demo_rs 0) (download ?s demo_rs 0)"
    using streams_refine_pipes [OF demo_sys demo_next(1) _ _ demo_next(5,6) demo_rs_replied(1)]
    by (simp add: MAX_PAYLOAD_def demo_rs_replied demo_done_conn demo_next)
  then show ?thesis by (simp add: download_def demo_done_conn demo_next)
qed

end
